(* ===== verification/Nano_Prelude.thy ===== *)
theory Nano_Prelude
  imports Main "HOL-Library.Word" "HOL-Library.Monad_Syntax"
begin

unbundle bit_operations_syntax

text \<open>
  Shared vocabulary of the development.

  A C++ step either produces a value or has no defined outcome (an access outside an
  array, or a loop that never ends).  Every stateful operation is therefore a function into
  the option type: \<open>Some\<close> is the outcome, \<open>None\<close> means that the behaviour is undefined or
  that the call does not return.  A theorem that an operation yields \<open>Some\<close> is thus a
  memory-safety and termination statement at the same time.  The collections
  \<open>access_simps\<close> and \<open>index_simps\<close> gather the rewrite rules that discharge bounds.
\<close>

named_theorems access_simps \<open>checked vector accesses that are within bounds\<close>
named_theorems index_simps \<open>facts about 32-bit slot indices and their null value\<close>

type_synonym u8 = "8 word"
type_synonym u16 = "16 word"
type_synonym u32 = "32 word"
type_synonym u64 = "64 word"

section \<open>Checked vectors\<close>

definition vget :: "'a list \<Rightarrow> nat \<Rightarrow> 'a option" where
  "vget xs i = (if i < length xs then Some (xs ! i) else None)"

definition vset :: "'a list \<Rightarrow> nat \<Rightarrow> 'a \<Rightarrow> 'a list option" where
  "vset xs i v = (if i < length xs then Some (xs[i := v]) else None)"

lemma vget_in [access_simps]: "i < length xs \<Longrightarrow> vget xs i = Some (xs ! i)"
  by (simp add: vget_def)

lemma vset_in [access_simps]: "i < length xs \<Longrightarrow> vset xs i v = Some (xs[i := v])"
  by (simp add: vset_def)

lemma vget_eq_Some_iff: "vget xs i = Some v \<longleftrightarrow> i < length xs \<and> v = xs ! i"
  by (auto simp: vget_def)

lemma vset_eq_Some_iff: "vset xs i v = Some ys \<longleftrightarrow> i < length xs \<and> ys = xs[i := v]"
  by (auto simp: vset_def)

lemma nth_update_fun:
  "i < length xs \<Longrightarrow> (\<lambda>j. f (xs[i := v] ! j)) = (\<lambda>j. f (xs ! j))(i := f v)"
  by (rule ext) (simp add: nth_list_update)

lemma option_eqI: "(\<And>v. x = Some v \<longleftrightarrow> y = Some v) \<Longrightarrow> x = y"
  by (cases x; cases y) auto

section \<open>Slot indices\<close>

text \<open>\<open>NULL_IDX\<close>: \<open>UINT32_MAX\<close>, the sentinel for "no order" and for "no price".\<close>

definition NULL_IDX :: u32 where
  "NULL_IDX = 0xFFFFFFFF"

lemma unat_NULL_IDX [index_simps]: "unat NULL_IDX = 4294967295"
  by (simp add: NULL_IDX_def)

lemma unat_lt_max: "unat (x :: u32) \<le> 4294967295"
  using unsigned_less [of x, where 'a = nat] by simp

lemma not_null_bound [index_simps]: "unat x < n \<Longrightarrow> n \<le> 4294967295 \<Longrightarrow> x \<noteq> NULL_IDX"
  by (auto simp: unat_NULL_IDX)

lemma not_null_bound' [index_simps]: "unat x < n \<Longrightarrow> n \<le> 4294967295 \<Longrightarrow> NULL_IDX \<noteq> x"
  by (auto simp: unat_NULL_IDX)

lemma unat_of_nat_u32 [index_simps]: "n < 4294967296 \<Longrightarrow> unat (of_nat n :: u32) = n"
  by (simp add: unat_of_nat)

lemma of_nat_not_null [index_simps]: "n < 4294967295 \<Longrightarrow> of_nat n \<noteq> NULL_IDX"
  by (rule not_null_bound [where n = "Suc n"]) (simp_all add: unat_of_nat_u32)

lemma u32_eq_of_nat: "(x :: u32) = of_nat (unat x)"
  by simp

lemma unat_inject [simp]: "unat (x :: 'a::len word) = unat y \<longleftrightarrow> x = y"
  by (simp add: word_unat_eq_iff)

lemma inj_unat [simp]: "inj_on (unat :: 'a::len word \<Rightarrow> nat) A"
  by (auto intro: inj_onI)

lemma inj_of_nat_u32: "n \<le> 4294967296 \<Longrightarrow> inj_on (of_nat :: nat \<Rightarrow> u32) {0..<n}"
  by (rule inj_on_inverseI [where g = unat]) (auto simp: unat_of_nat_u32)

text \<open>Evaluation reads a word as an integer, not as a unary natural number.\<close>

lemma int_the_nat_unfold [code_unfold]: "int (Word.the_nat w) = Word.the_int w"
  by simp

lemma le_the_nat_unfold [code_unfold]: "n \<le> Word.the_nat w \<longleftrightarrow> int n \<le> Word.the_int w"
  by (subst of_nat_le_iff [symmetric, where 'a = int]) simp

section \<open>Positions on a ring\<close>

lemma ring_reach: "h < n \<Longrightarrow> i < n \<Longrightarrow> (h + (i + n - h) mod n) mod n = (i :: nat)"
  by (simp add: mod_add_right_eq)

lemma ring_dist: "h < n \<Longrightarrow> d < n \<Longrightarrow> ((h + d) mod n + n - h) mod n = (d :: nat)"
proof (cases "h + d < n")
  case False
  assume "h < n" "d < n"
  with False have "(h + d) mod n = h + d - n" by (simp add: le_mod_geq)
  with False \<open>d < n\<close> \<open>h < n\<close> show ?thesis by simp
qed simp

lemma ring_inject: "h < n \<Longrightarrow> d < n \<Longrightarrow> e < n \<Longrightarrow> (h + d) mod n = (h + e) mod n \<Longrightarrow> d = (e :: nat)"
  by (metis ring_dist)

lemma ring_pred_Suc: "i < n \<Longrightarrow> (Suc i mod n + n - 1) mod n = (i :: nat)"
  by (cases "Suc i < n") (auto simp: le_mod_geq less_Suc_eq_le)

lemma ring_Suc_pred: "i < n \<Longrightarrow> Suc ((i + n - 1) mod n) mod n = (i :: nat)"
  by (cases i) (auto simp: le_mod_geq)

lemma ring_dist_Suc:
  assumes "h < n" and "i < n" and "Suc i mod n \<noteq> h"
  shows "(Suc i mod n + n - h) mod n = Suc ((i + n - h) mod n)"
  using assms by (cases "Suc i < n"; cases "h \<le> i") (auto simp: le_mod_geq less_Suc_eq_le not_le)

section \<open>Masking a 32-bit word\<close>

lemma unat_and_mask: "unat ((x :: u32) AND mask b) = unat x mod 2 ^ b"
  by (simp add: flip: take_bit_eq_mask take_bit_nat_def) (simp add: unsigned_take_bit_eq)

lemma pow2_dvd: "b \<le> 32 \<Longrightarrow> (2 :: nat) ^ b dvd 4294967296"
  using le_imp_power_dvd [of b 32 "2 :: nat"] by simp

lemma unat_Suc_mask:
  "b \<le> 32 \<Longrightarrow> unat (((x :: u32) + 1) AND mask b) = Suc (unat x) mod 2 ^ b"
  using pow2_dvd [of b] by (simp add: unat_and_mask unat_word_ariths mod_mod_cancel)

lemma unat_diff_mask:
  assumes "b \<le> 32" and "unat x < 2 ^ b" and "unat y < 2 ^ b"
  shows "unat (((x :: u32) - y) AND mask b) = (unat x + 2 ^ b - unat y) mod 2 ^ b"
proof (cases "y \<le> x")
  case True
  then have "unat (x - y) = unat x - unat y" by (rule unat_sub)
  moreover have "unat y \<le> unat x" using True by (simp add: word_le_nat_alt)
  then have "unat x + 2 ^ b - unat y = (unat x - unat y) + 2 ^ b" by simp
  ultimately show ?thesis by (simp add: unat_and_mask)
next
  case False
  then have lt: "unat x < unat y" by (simp add: word_le_nat_alt not_le)
  obtain c where c: "(4294967296 :: nat) = 2 ^ b * c" using pow2_dvd [OF assms(1)] by (elim dvdE)
  then have c0: "0 < c" by (cases c) auto
  have "unat (x - y) = unat x + 4294967296 - unat y"
    using lt unat_lt_max [of y] by (simp add: unat_sub_if_size word_size word_le_nat_alt)
  also have "\<dots> = (unat x + 2 ^ b - unat y) + 2 ^ b * (c - 1)"
    using c c0 assms(3) by (cases c) (auto simp: algebra_simps)
  finally show ?thesis by (simp add: unat_and_mask)
qed

end
