(* ===== verification/Index_Lists.thy ===== *)
theory Index_Lists
  imports Nano_Prelude
begin

text \<open>
  Intrusive lists threaded through an array by 32-bit indices, as \<open>OrderPool\<close>'s free list
  and the price levels use them.  The heap is seen through two functions from an index to
  its \<open>next_idx\<close> and \<open>prev_idx\<close>.  \<open>chain\<close> is a singly linked list; \<open>dseg\<close> is a segment of
  a doubly linked one.  The lemmas split a segment at a node, say which updates a segment
  does not see, and describe unlinking and appending.
\<close>

section \<open>Singly linked\<close>

primrec chain :: "(u32 \<Rightarrow> u32) \<Rightarrow> u32 \<Rightarrow> u32 list \<Rightarrow> bool" where
  "chain nx x [] \<longleftrightarrow> x = NULL_IDX"
| "chain nx x (a # as) \<longleftrightarrow> x = a \<and> a \<noteq> NULL_IDX \<and> chain nx (nx a) as"

lemma chain_frame: "(\<And>a. a \<in> set as \<Longrightarrow> nx' a = nx a) \<Longrightarrow> chain nx' x as = chain nx x as"
  by (induction as arbitrary: x) auto

lemma chain_upd [simp]: "a \<notin> set as \<Longrightarrow> chain (nx(a := y)) x as = chain nx x as"
  by (rule chain_frame) auto

lemma chain_NULL [simp]: "chain nx NULL_IDX as \<longleftrightarrow> as = []"
  by (cases as) auto

lemma chain_unique: "chain nx x as \<Longrightarrow> chain nx x bs \<Longrightarrow> as = bs"
proof (induction as arbitrary: x bs)
  case (Cons a as)
  then show ?case by (cases bs) auto
qed (use chain_NULL in auto)

section \<open>Doubly linked segments\<close>

text \<open>\<open>dseg nx pv p x xs l y\<close>: the nodes \<open>xs\<close> start at \<open>x\<close> with predecessor \<open>p\<close>, the
  last of them is \<open>l\<close> (\<open>p\<close> when there is none) and its successor is \<open>y\<close>.\<close>

primrec dseg ::
  "(u32 \<Rightarrow> u32) \<Rightarrow> (u32 \<Rightarrow> u32) \<Rightarrow> u32 \<Rightarrow> u32 \<Rightarrow> u32 list \<Rightarrow> u32 \<Rightarrow> u32 \<Rightarrow> bool" where
  "dseg nx pv p x [] l y \<longleftrightarrow> x = y \<and> l = p"
| "dseg nx pv p x (a # as) l y \<longleftrightarrow>
     x = a \<and> a \<noteq> NULL_IDX \<and> pv a = p \<and> dseg nx pv a (nx a) as l y"

lemma dseg_append:
  "dseg nx pv p x (as @ bs) l y \<longleftrightarrow>
     (\<exists>m z. dseg nx pv p x as m z \<and> dseg nx pv m z bs l y)"
  by (induction as arbitrary: p x) auto

lemma dseg_frame:
  "(\<And>a. a \<in> set as \<Longrightarrow> nx' a = nx a \<and> pv' a = pv a) \<Longrightarrow>
     dseg nx' pv' p x as l y = dseg nx pv p x as l y"
  by (induction as arbitrary: p x) auto

lemma dseg_last_in: "dseg nx pv p x as l y \<Longrightarrow> as \<noteq> [] \<Longrightarrow> l = last as"
  by (induction as arbitrary: p x) auto

lemma dseg_first_in: "dseg nx pv p x as l y \<Longrightarrow> as \<noteq> [] \<Longrightarrow> x = hd as"
  by (cases as) auto

lemma dseg_not_NULL: "dseg nx pv p x as l y \<Longrightarrow> NULL_IDX \<notin> set as"
  by (induction as arbitrary: p x) auto

lemma dseg_empty_iff: "dseg nx pv p x as l NULL_IDX \<Longrightarrow> x = NULL_IDX \<longleftrightarrow> as = []"
  by (cases as) auto

lemma dseg_chain: "dseg nx pv p x as l NULL_IDX \<Longrightarrow> chain nx x as"
  by (induction as arbitrary: p x) auto

text \<open>Changing the predecessor of the first node, or the successor of the last one.\<close>

lemma dseg_set_prev:
  assumes "dseg nx pv p x (a # as) l y" and "a \<notin> set as"
  shows "dseg nx (pv(a := p')) p' x (a # as) l y"
  using assms by (auto intro: dseg_frame [THEN iffD2, rotated])

lemma dseg_set_next:
  assumes "dseg nx pv p x (as @ [a]) l y" and "a \<notin> set as"
  shows "dseg (nx(a := y')) pv p x (as @ [a]) l y'"
proof -
  from assms obtain m z where "dseg nx pv p x as m z" and "dseg nx pv m z [a] l y"
    by (auto simp: dseg_append)
  moreover from this assms have "dseg (nx(a := y')) pv p x as m z"
    by (auto intro: dseg_frame [THEN iffD2, rotated])
  ultimately show ?thesis by (auto simp: dseg_append)
qed

text \<open>Appending a fresh node \<open>a\<close> at the tail of a null-terminated list.\<close>

lemma dseg_snoc_empty:
  "a \<noteq> NULL_IDX \<Longrightarrow>
     dseg (nx(a := NULL_IDX)) (pv(a := NULL_IDX)) NULL_IDX a [a] a NULL_IDX"
  by simp

lemma dseg_snoc:
  assumes seg: "dseg nx pv NULL_IDX h xs t NULL_IDX"
    and ne: "xs \<noteq> []" and new: "a \<notin> set xs" "a \<noteq> NULL_IDX" and d: "distinct xs"
  shows "dseg (nx(a := NULL_IDX, t := a)) (pv(a := t)) NULL_IDX h (xs @ [a]) a NULL_IDX"
proof -
  from ne obtain ys z where xs: "xs = ys @ [z]" by (metis rev_exhaust)
  with seg have t: "t = z" using dseg_last_in by fastforce
  have "dseg (nx(a := NULL_IDX)) (pv(a := t)) NULL_IDX h (ys @ [z]) t NULL_IDX"
    using seg new unfolding xs by (subst dseg_frame) auto
  then have "dseg (nx(a := NULL_IDX, z := a)) (pv(a := t)) NULL_IDX h (ys @ [z]) t a"
    using d xs by (intro dseg_set_next) auto
  with new t xs show ?thesis by (auto simp: dseg_append)
qed

text \<open>
  Unlinking: the successor's \<open>prev\<close> and the predecessor's \<open>next\<close> (or the list's head and
  tail, where there is no neighbour) are redirected around the node \<open>a\<close>.
\<close>

definition unlink_head :: "(u32 \<Rightarrow> u32) \<Rightarrow> (u32 \<Rightarrow> u32) \<Rightarrow> u32 \<Rightarrow> u32 \<Rightarrow> u32" where
  "unlink_head nx pv h a = (if pv a = NULL_IDX then nx a else h)"

definition unlink_tail :: "(u32 \<Rightarrow> u32) \<Rightarrow> (u32 \<Rightarrow> u32) \<Rightarrow> u32 \<Rightarrow> u32 \<Rightarrow> u32" where
  "unlink_tail nx pv t a = (if nx a = NULL_IDX then pv a else t)"

definition unlink_next :: "(u32 \<Rightarrow> u32) \<Rightarrow> (u32 \<Rightarrow> u32) \<Rightarrow> u32 \<Rightarrow> (u32 \<Rightarrow> u32)" where
  "unlink_next nx pv a = (if pv a = NULL_IDX then nx else nx(pv a := nx a))"

definition unlink_prev :: "(u32 \<Rightarrow> u32) \<Rightarrow> (u32 \<Rightarrow> u32) \<Rightarrow> u32 \<Rightarrow> (u32 \<Rightarrow> u32)" where
  "unlink_prev nx pv a = (if nx a = NULL_IDX then pv else pv(nx a := pv a))"

lemmas unlink_defs = unlink_head_def unlink_tail_def unlink_next_def unlink_prev_def

lemma dseg_unlink:
  assumes seg: "dseg nx pv NULL_IDX h (as @ a # bs) t NULL_IDX"
    and d: "distinct (as @ a # bs)"
  shows "dseg (unlink_next nx pv a) (unlink_prev nx pv a) NULL_IDX
           (unlink_head nx pv h a) (as @ bs) (unlink_tail nx pv t a) NULL_IDX"
proof -
  from seg obtain m where
    left: "dseg nx pv NULL_IDX h as m a" and a: "a \<noteq> NULL_IDX" "pv a = m"
    and right: "dseg nx pv a (nx a) bs t NULL_IDX"
    by (auto simp: dseg_append)
  let ?nx = "unlink_next nx pv a" and ?pv = "unlink_prev nx pv a"
  have nn: "NULL_IDX \<notin> set as" "NULL_IDX \<notin> set bs"
    using left right by (auto dest: dseg_not_NULL)
  have nb: "nx a = (if bs = [] then NULL_IDX else hd bs)" and t: "bs = [] \<Longrightarrow> t = a"
    using right by (cases bs; auto)+
  have ma: "m = (if as = [] then NULL_IDX else last as)" and ha: "as = [] \<Longrightarrow> h = a"
    using left by (auto dest: dseg_last_in)
  have L: "dseg ?nx ?pv NULL_IDX (unlink_head nx pv h a) as m (nx a)"
  proof (cases as rule: rev_cases)
    case Nil
    then show ?thesis using left a by (auto simp: unlink_head_def)
  next
    case (snoc ys z)
    have z: "m = z" "z \<noteq> NULL_IDX" using ma snoc nn by auto
    have "dseg (nx(z := nx a)) pv NULL_IDX h (ys @ [z]) m (nx a)"
      using left d snoc by (intro dseg_set_next [where y = a]) auto
    moreover have "nx a \<notin> set as" using nb nn d by auto
    then have "\<And>c. c \<in> set as \<Longrightarrow> ?nx c = (nx(z := nx a)) c \<and> ?pv c = pv c"
      using z a by (auto simp: unlink_defs)
    then have "dseg ?nx ?pv NULL_IDX h as m (nx a) = dseg (nx(z := nx a)) pv NULL_IDX h as m (nx a)"
      by (rule dseg_frame)
    ultimately have "dseg ?nx ?pv NULL_IDX h as m (nx a)" using snoc by simp
    then show ?thesis using snoc z a by (simp add: unlink_head_def)
  qed
  have R: "dseg ?nx ?pv m (nx a) bs (unlink_tail nx pv t a) NULL_IDX"
  proof (cases bs)
    case Nil
    then show ?thesis using right a by (auto simp: unlink_tail_def)
  next
    case (Cons b cs)
    have b: "nx a = b" "b \<noteq> NULL_IDX" using nb Cons nn by auto
    have "dseg nx (pv(b := m)) m (nx a) (b # cs) t NULL_IDX"
      using right d Cons by (intro dseg_set_prev [where p = a]) auto
    moreover have "m \<notin> set bs" using ma nn d by (cases as rule: rev_cases) auto
    then have "\<And>c. c \<in> set bs \<Longrightarrow> ?nx c = nx c \<and> ?pv c = (pv(b := m)) c"
      using b a by (auto simp: unlink_defs)
    then have "dseg ?nx ?pv m (nx a) bs t NULL_IDX = dseg nx (pv(b := m)) m (nx a) bs t NULL_IDX"
      by (rule dseg_frame)
    ultimately have "dseg ?nx ?pv m (nx a) bs t NULL_IDX" using Cons by simp
    then show ?thesis using Cons b by (simp add: unlink_tail_def)
  qed
  from L R show ?thesis by (auto simp: dseg_append)
qed

section \<open>Reading a list off the array\<close>

text \<open>\<open>walk nx n x\<close> follows \<open>next\<close> links from \<open>x\<close> for at most \<open>n\<close> nodes.\<close>

primrec walk :: "(u32 \<Rightarrow> u32) \<Rightarrow> nat \<Rightarrow> u32 \<Rightarrow> u32 list" where
  "walk nx 0 x = []"
| "walk nx (Suc n) x = (if x = NULL_IDX then [] else x # walk nx n (nx x))"

lemma walk_chain: "chain nx x xs \<Longrightarrow> length xs \<le> n \<Longrightarrow> walk nx n x = xs"
proof (induction n arbitrary: x xs)
  case (Suc n)
  then show ?case by (cases xs) auto
qed auto

end
