(* ===== verification/Nano_Types.thy ===== *)
theory Nano_Types
  imports Index_Lists
begin

text \<open>
  The data of \<open>src/core/Types.hpp\<close>: one record per struct, one datatype per enum, every
  integer at its width.  Padding bytes carry no information and are left out.  \<open>rdtsc\<close> is
  the processor's time-stamp counter: operations that stamp trades take it as a parameter.
\<close>

type_synonym order_id = u64
type_synonym price = u32
type_synonym quantity = u32

datatype side = BUY | SELL

datatype order_type = LIMIT | MARKET

instantiation side :: enum
begin

definition enum_side :: "side list" where
  "enum_side = [BUY, SELL]"

definition enum_all_side :: "(side \<Rightarrow> bool) \<Rightarrow> bool" where
  "enum_all_side P \<longleftrightarrow> P BUY \<and> P SELL"

definition enum_ex_side :: "(side \<Rightarrow> bool) \<Rightarrow> bool" where
  "enum_ex_side P \<longleftrightarrow> P BUY \<or> P SELL"

instance
proof
  fix P :: "side \<Rightarrow> bool"
  show "UNIV = set (enum_class.enum :: side list)"
    unfolding enum_side_def by (auto intro: side.exhaust)
  show "distinct (enum_class.enum :: side list)"
    by (simp add: enum_side_def)
  show "enum_class.enum_all P \<longleftrightarrow> Ball UNIV P"
    unfolding enum_all_side_def by (metis UNIV_I side.exhaust)
  show "enum_class.enum_ex P \<longleftrightarrow> Bex UNIV P"
    unfolding enum_ex_side_def by (metis UNIV_I side.exhaust)
qed

end

lemma all_side: "(\<forall>s. P s) \<longleftrightarrow> P BUY \<and> P SELL"
  by (metis side.exhaust)

text \<open>\<open>struct Order\<close>: a node of the pool, on a level's list or on the free list.\<close>

record order =
  oid :: order_id
  next_idx :: u32
  prev_idx :: u32
  oprice :: price
  oqty :: quantity
  oside :: side

record trade =
  maker_id :: order_id
  taker_id :: order_id
  tprice :: price
  tqty :: quantity
  timestamp :: u64

record price_level =
  lprice :: price
  total_volume :: quantity
  head_idx :: u32
  tail_idx :: u32
  order_count :: u32

text \<open>The default member initialisers of \<open>PriceLevel\<close>.\<close>

definition new_level :: price_level where
  "new_level = \<lparr>lprice = 0, total_volume = 0, head_idx = NULL_IDX, tail_idx = NULL_IDX,
     order_count = 0\<rparr>"

definition level_empty :: "price_level \<Rightarrow> bool" where
  "level_empty l \<longleftrightarrow> head_idx l = NULL_IDX"

lemma new_level_simps [simp]:
  "lprice new_level = 0" "total_volume new_level = 0" "head_idx new_level = NULL_IDX"
  "tail_idx new_level = NULL_IDX" "order_count new_level = 0"
  by (simp_all add: new_level_def)

definition PRICE_BAND :: nat where
  "PRICE_BAND = 16000000"

end
