(* ===== verification/Order_Pool.thy ===== *)
theory Order_Pool
  imports Nano_Types
begin

text \<open>
  \<open>OrderPool\<close> of \<open>src/core/OrderBook.hpp\<close>: a contiguous array of orders with the free
  slots on a singly linked list through \<open>next_idx\<close>.  \<open>capacity_\<close> is the length of the
  array.  The \<open>mmap\<close>ed memory is zero-filled; a capacity of zero makes \<open>mmap\<close> fail and
  the constructor throw, which is \<open>None\<close> here.  The contract that the book relies on is the
  locale \<open>slot_allocator\<close>, interpreted on the definitions at the end.
\<close>

section \<open>State and element access\<close>

record order_pool =
  slots :: "order list"
  free_head :: u32

definition pool_size :: "order_pool \<Rightarrow> nat" where
  "pool_size p = length (slots p)"

text \<open>The element an index denotes, and the pool with that element replaced.\<close>

definition slot :: "order_pool \<Rightarrow> u32 \<Rightarrow> order" where
  "slot p i = slots p ! unat i"

definition set_slot :: "order_pool \<Rightarrow> u32 \<Rightarrow> order \<Rightarrow> order_pool" where
  "set_slot p i ord = p\<lparr>slots := (slots p)[unat i := ord]\<rparr>"

text \<open>\<open>operator[]\<close>, read and written through: an index beyond the array is undefined.\<close>

definition pool_at :: "order_pool \<Rightarrow> u32 \<Rightarrow> order option" where
  "pool_at p i = vget (slots p) (unat i)"

definition pool_upd :: "order_pool \<Rightarrow> u32 \<Rightarrow> (order \<Rightarrow> order) \<Rightarrow> order_pool option" where
  "pool_upd p i f = do {
     ord \<leftarrow> pool_at p i;
     sl \<leftarrow> vset (slots p) (unat i) (f ord);
     Some (p\<lparr>slots := sl\<rparr>)
   }"

lemma pool_at_in [access_simps]: "unat i < pool_size p \<Longrightarrow> pool_at p i = Some (slot p i)"
  by (simp add: pool_at_def slot_def pool_size_def access_simps)

lemma pool_upd_in [access_simps]:
  "unat i < pool_size p \<Longrightarrow> pool_upd p i f = Some (set_slot p i (f (slot p i)))"
  by (simp add: pool_upd_def pool_at_def slot_def set_slot_def pool_size_def access_simps)

lemma pool_size_set_slot [simp]: "pool_size (set_slot p i ord) = pool_size p"
  by (simp add: set_slot_def pool_size_def)

lemma pool_size_free_head [simp]: "pool_size (p\<lparr>free_head := h\<rparr>) = pool_size p"
  by (simp add: pool_size_def)

lemma free_head_set_slot [simp]: "free_head (set_slot p i ord) = free_head p"
  by (simp add: set_slot_def)

lemma slot_free_head [simp]: "slot (p\<lparr>free_head := h\<rparr>) = slot p"
  by (rule ext) (simp add: slot_def)

lemma slot_set_slot:
  "unat i < pool_size p \<Longrightarrow> slot (set_slot p i ord) = (slot p)(i := ord)"
  by (rule ext) (auto simp: slot_def set_slot_def pool_size_def nth_list_update)

text \<open>The two link fields as functions of the index.\<close>

definition nxt :: "order_pool \<Rightarrow> u32 \<Rightarrow> u32" where
  "nxt p i = next_idx (slot p i)"

definition prv :: "order_pool \<Rightarrow> u32 \<Rightarrow> u32" where
  "prv p i = prev_idx (slot p i)"

lemma nxt_set_slot:
  "unat i < pool_size p \<Longrightarrow> nxt (set_slot p i ord) = (nxt p)(i := next_idx ord)"
  by (rule ext) (simp add: nxt_def slot_set_slot)

lemma prv_set_slot:
  "unat i < pool_size p \<Longrightarrow> prv (set_slot p i ord) = (prv p)(i := prev_idx ord)"
  by (rule ext) (simp add: prv_def slot_set_slot)

lemma nxt_free_head [simp]: "nxt (p\<lparr>free_head := h\<rparr>) = nxt p"
  by (rule ext) (simp add: nxt_def)

lemma prv_free_head [simp]: "prv (p\<lparr>free_head := h\<rparr>) = prv p"
  by (rule ext) (simp add: prv_def)

lemmas pool_simps = slot_set_slot nxt_set_slot prv_set_slot

section \<open>Operations\<close>

text \<open>Zero-filled memory.\<close>

definition zero_order :: order where
  "zero_order = \<lparr>oid = 0, next_idx = 0, prev_idx = 0, oprice = 0, oqty = 0, oside = BUY\<rparr>"

text \<open>The constructor's loop: slot \<open>i\<close> is linked to slot \<open>i + 1\<close>.\<close>

definition link_free :: "nat \<Rightarrow> order list \<Rightarrow> order list" where
  "link_free n sl = fold (\<lambda>i sl. sl[i := (sl ! i)\<lparr>next_idx := of_nat (i + 1)\<rparr>]) [0..<n] sl"

definition pool_new :: "u32 \<Rightarrow> order_pool option" where
  "pool_new capacity =
     (if capacity = 0 then None
      else let n = unat capacity - 1;
               sl = link_free n (replicate (unat capacity) zero_order)
           in Some \<lparr>slots = sl[n := (sl ! n)\<lparr>next_idx := NULL_IDX\<rparr>], free_head = 0\<rparr>)"

definition allocate :: "order_pool \<Rightarrow> (u32 \<times> order_pool) option" where
  "allocate p =
     (if free_head p = NULL_IDX then Some (NULL_IDX, p)
      else do {
        let idx = free_head p;
        ord \<leftarrow> pool_at p idx;
        p' \<leftarrow> pool_upd (p\<lparr>free_head := next_idx ord\<rparr>) idx
                (\<lambda>ord. ord\<lparr>next_idx := NULL_IDX, prev_idx := NULL_IDX\<rparr>);
        Some (idx, p')
      })"

definition deallocate :: "order_pool \<Rightarrow> u32 \<Rightarrow> order_pool option" where
  "deallocate p idx = do {
     p' \<leftarrow> pool_upd p idx (\<lambda>ord. ord\<lparr>next_idx := free_head p\<rparr>);
     Some (p'\<lparr>free_head := idx\<rparr>)
   }"

section \<open>Free list invariant\<close>

text \<open>
  \<open>free_rep p fl\<close>: the free list of \<open>p\<close> is \<open>fl\<close>, without repetition and within the array,
  whose size keeps every index different from the null index.
\<close>

definition free_rep :: "order_pool \<Rightarrow> u32 list \<Rightarrow> bool" where
  "free_rep p fl \<longleftrightarrow> 0 < pool_size p \<and> pool_size p \<le> 4294967295 \<and>
     chain (nxt p) (free_head p) fl \<and> distinct fl \<and> (\<forall>x \<in> set fl. unat x < pool_size p)"

definition free_list :: "order_pool \<Rightarrow> u32 list" where
  "free_list p = walk (nxt p) (pool_size p) (free_head p)"

definition pool_ok :: "order_pool \<Rightarrow> bool" where
  "pool_ok p \<longleftrightarrow> free_rep p (free_list p)"

definition pool_slots :: "order_pool \<Rightarrow> u32 set" where
  "pool_slots p = {i. unat i < pool_size p}"

lemma bounded_length:
  assumes "distinct xs" and "\<forall>x \<in> set xs. unat (x :: u32) < n"
  shows "length xs \<le> n"
proof -
  have "length xs = card (unat ` set xs)"
    using assms(1) by (simp add: distinct_card card_image)
  also have "\<dots> \<le> card {..<n}" using assms(2) by (intro card_mono) auto
  finally show ?thesis by simp
qed

lemma free_rep_free_list: "free_rep p fl \<Longrightarrow> free_list p = fl"
  unfolding free_list_def free_rep_def by (auto intro!: walk_chain bounded_length)

lemma pool_ok_iff: "pool_ok p \<longleftrightarrow> (\<exists>fl. free_rep p fl)"
  unfolding pool_ok_def using free_rep_free_list by blast

lemma allocate_empty: "free_rep p [] \<Longrightarrow> allocate p = Some (NULL_IDX, p)"
  by (simp add: free_rep_def allocate_def)

text \<open>Taking the head of a non-empty free list.\<close>

definition taken :: "order_pool \<Rightarrow> u32 \<Rightarrow> order_pool" where
  "taken p x = set_slot (p\<lparr>free_head := nxt p x\<rparr>) x
     ((slot p x)\<lparr>next_idx := NULL_IDX, prev_idx := NULL_IDX\<rparr>)"

lemma allocate_Cons:
  assumes "free_rep p (x # fl)"
  shows "allocate p = Some (x, taken p x)" and "free_rep (taken p x) fl"
proof -
  from assms have b: "unat x < pool_size p" and h: "free_head p = x" "x \<noteq> NULL_IDX"
    by (auto simp: free_rep_def)
  then show "allocate p = Some (x, taken p x)"
    by (simp add: allocate_def taken_def access_simps nxt_def)
  from assms b show "free_rep (taken p x) fl"
    by (simp add: free_rep_def taken_def pool_simps)
qed

lemma allocate_free_rep:
  assumes "free_rep p fl"
  shows "allocate p = Some (if fl = [] then (NULL_IDX, p) else (hd fl, taken p (hd fl)))"
proof (cases fl)
  case Nil
  then show ?thesis using assms by (simp add: allocate_empty)
next
  case (Cons x xs)
  then show ?thesis using assms by (simp add: allocate_Cons)
qed

text \<open>Giving a slot back.\<close>

definition returned :: "order_pool \<Rightarrow> u32 \<Rightarrow> order_pool" where
  "returned p x = (set_slot p x ((slot p x)\<lparr>next_idx := free_head p\<rparr>))\<lparr>free_head := x\<rparr>"

lemma deallocate_in:
  "unat x < pool_size p \<Longrightarrow> deallocate p x = Some (returned p x)"
  by (simp add: deallocate_def returned_def access_simps)

lemma free_rep_returned:
  assumes "free_rep p fl" and "unat x < pool_size p" and "x \<notin> set fl"
  shows "free_rep (returned p x) (x # fl)"
  using assms by (auto simp: free_rep_def returned_def pool_simps index_simps)

section \<open>Construction\<close>

lemma length_link_free [simp]: "length (link_free n sl) = length sl"
  by (induction n) (simp_all add: link_free_def)

lemma link_free_Suc:
  "link_free (Suc n) sl =
     (let sl' = link_free n sl in sl'[n := (sl' ! n)\<lparr>next_idx := of_nat (n + 1)\<rparr>])"
  by (simp add: link_free_def Let_def)

lemma link_free_nth:
  "n \<le> length sl \<Longrightarrow> i < length sl \<Longrightarrow>
     link_free n sl ! i = (if i < n then (sl ! i)\<lparr>next_idx := of_nat (i + 1)\<rparr> else sl ! i)"
proof (induction n)
  case (Suc n)
  then show ?case by (auto simp: link_free_Suc Let_def nth_list_update less_Suc_eq)
qed (simp add: link_free_def)

lemma chain_upt:
  assumes "\<And>i. k \<le> i \<Longrightarrow> i < n - 1 \<Longrightarrow> nx (of_nat i) = of_nat (Suc i)"
    and "nx (of_nat (n - 1)) = NULL_IDX" and "k < n" and "n \<le> 4294967295"
  shows "chain nx (of_nat k) (map of_nat [k..<n])"
  using assms
proof (induction "n - k" arbitrary: k)
  case (Suc d)
  have nn: "(of_nat k :: u32) \<noteq> NULL_IDX" using Suc.prems by (intro of_nat_not_null) simp
  have step: "chain nx (nx (of_nat k)) (map of_nat [Suc k..<n])"
  proof (cases "Suc k < n")
    case True
    then have "nx (of_nat k) = of_nat (Suc k)" using Suc.prems by auto
    then show ?thesis using Suc.hyps(1) [of "Suc k"] Suc.hyps(2) Suc.prems True by simp
  next
    case False
    then have "k = n - 1" using Suc.prems by simp
    then show ?thesis using Suc.prems by simp
  qed
  then show ?case using nn Suc.prems by (simp add: upt_conv_Cons)
qed simp

lemma pool_new_rep:
  assumes "capacity \<noteq> 0"
  obtains p where "pool_new capacity = Some p" "pool_size p = unat capacity"
    "free_rep p (map of_nat [0..<unat capacity])"
proof -
  let ?n = "unat capacity"
  let ?sl = "link_free (?n - 1) (replicate ?n zero_order)"
  let ?p = "\<lparr>slots = ?sl[?n - 1 := (?sl ! (?n - 1))\<lparr>next_idx := NULL_IDX\<rparr>], free_head = 0\<rparr>"
  have n0: "0 < ?n" using assms by (simp add: unat_gt_0)
  have n32: "?n \<le> 4294967295" by (rule unat_lt_max)
  have size: "pool_size ?p = ?n" by (simp add: pool_size_def)
  have nx: "nxt ?p (of_nat i) = (if i = ?n - 1 then NULL_IDX else of_nat (i + 1))" if "i < ?n" for i
    using that n0 n32
    by (cases "i < ?n - 1") (auto simp: nxt_def slot_def index_simps nth_list_update link_free_nth)
  have "chain (nxt ?p) (of_nat 0) (map of_nat [0..<?n])"
  proof (rule chain_upt)
    show "nxt ?p (of_nat (?n - 1)) = NULL_IDX"
      using nx [of "?n - 1"] n0 by (simp del: of_nat_diff)
  qed (use n0 n32 nx in auto)
  moreover have "distinct (map (of_nat :: nat \<Rightarrow> u32) [0..<?n])"
  proof -
    have "inj_on (of_nat :: nat \<Rightarrow> u32) {0..<?n}"
      using n32 by (intro inj_of_nat_u32) simp
    then show ?thesis by (simp add: distinct_map)
  qed
  moreover have "\<forall>x \<in> set (map (of_nat :: nat \<Rightarrow> u32) [0..<?n]). unat x < pool_size ?p"
    unfolding size using n32 by (auto simp: index_simps)
  ultimately have "free_rep ?p (map of_nat [0..<?n])"
    unfolding free_rep_def size using n0 n32 by simp
  moreover have "pool_new capacity = Some ?p"
    using assms by (simp add: pool_new_def Let_def)
  ultimately show ?thesis using that size by blast
qed

section \<open>The allocator's contract\<close>

text \<open>
  What a client of the pool may rely on: \<open>free\<close> lists the slots not handed out, \<open>owned\<close> are
  all slots, and allocation takes the most recently released slot.
\<close>

locale slot_allocator =
  fixes alloc :: "'p \<Rightarrow> ('i \<times> 'p) option" and release :: "'p \<Rightarrow> 'i \<Rightarrow> 'p option"
    and free :: "'p \<Rightarrow> 'i list" and owned :: "'p \<Rightarrow> 'i set" and null :: 'i
    and ok :: "'p \<Rightarrow> bool"
  assumes free_distinct: "ok p \<Longrightarrow> distinct (free p)"
    and free_owned: "ok p \<Longrightarrow> set (free p) \<subseteq> owned p"
    and null_not_owned: "ok p \<Longrightarrow> null \<notin> owned p"
    and alloc_exhausted: "ok p \<Longrightarrow> free p = [] \<Longrightarrow> alloc p = Some (null, p)"
    and alloc_head: "ok p \<Longrightarrow> free p = x # fs \<Longrightarrow>
      \<exists>p'. alloc p = Some (x, p') \<and> ok p' \<and> free p' = fs \<and> owned p' = owned p"
    and release_push: "ok p \<Longrightarrow> x \<in> owned p \<Longrightarrow> x \<notin> set (free p) \<Longrightarrow>
      \<exists>p'. release p x = Some p' \<and> ok p' \<and> free p' = x # free p \<and> owned p' = owned p"
begin

fun allocs :: "nat \<Rightarrow> 'p \<Rightarrow> ('i list \<times> 'p) option" where
  "allocs 0 p = Some ([], p)"
| "allocs (Suc n) p =
     do { (x, p') \<leftarrow> alloc p; (xs, p'') \<leftarrow> allocs n p'; Some (x # xs, p'') }"

lemma allocs_take:
  "ok p \<Longrightarrow> n \<le> length (free p) \<Longrightarrow>
     \<exists>p'. allocs n p = Some (take n (free p), p') \<and> ok p' \<and> free p' = drop n (free p) \<and>
          owned p' = owned p"
proof (induction n arbitrary: p)
  case (Suc n)
  then obtain x fs where fs: "free p = x # fs" by (cases "free p") auto
  with Suc.prems(1) obtain p1 where
    p1: "alloc p = Some (x, p1)" "ok p1" "free p1 = fs" "owned p1 = owned p"
    using alloc_head by blast
  with Suc.prems fs obtain p2 where
    "allocs n p1 = Some (take n fs, p2)" "ok p2" "free p2 = drop n fs" "owned p2 = owned p"
    using Suc.IH [of p1] by auto
  then show ?case using p1 fs by simp
qed auto

lemma alloc_total: "ok p \<Longrightarrow> \<exists>x p'. alloc p = Some (x, p') \<and> ok p' \<and> owned p' = owned p"
  using alloc_exhausted alloc_head by (cases "free p") blast+

lemma alloc_fresh:
  assumes "ok p" and "alloc p = Some (x, p')" and "x \<noteq> null"
  shows "x \<in> owned p" and "x \<in> set (free p)" and "set (free p') = set (free p) - {x}"
    and "ok p'" and "owned p' = owned p"
proof -
  obtain fs where fs: "free p = x # fs"
    using assms alloc_exhausted alloc_head by (cases "free p") fastforce+
  with assms obtain "ok p'" "free p' = fs" "owned p' = owned p"
    using alloc_head by fastforce
  then show "x \<in> owned p" "x \<in> set (free p)" "set (free p') = set (free p) - {x}"
    "ok p'" "owned p' = owned p"
    using fs free_owned [of p] free_distinct [of p] assms(1) by auto
qed

lemma alloc_null_iff:
  assumes "ok p" and "alloc p = Some (x, p')"
  shows "x = null \<longleftrightarrow> free p = []"
proof (cases "free p")
  case (Cons y fs)
  then have "x = y" "y \<in> owned p" using assms alloc_head free_owned by fastforce+
  then show ?thesis using null_not_owned assms Cons by auto
qed (use assms alloc_exhausted in auto)

text \<open>Slots come back in last-in first-out order.\<close>

lemma release_then_alloc:
  assumes "ok p" and "x \<in> owned p" and "x \<notin> set (free p)"
  shows "\<exists>p' p''. release p x = Some p' \<and> alloc p' = Some (x, p'') \<and> free p'' = free p"
  using release_push [OF assms] alloc_head by fastforce

end

lemma free_rep_iff: "pool_ok p \<Longrightarrow> free_rep p fl \<longleftrightarrow> fl = free_list p"
  using pool_ok_def free_rep_free_list by blast

lemma pool_ok_freeD:
  assumes "pool_ok p"
  shows "free_rep p (free_list p)" "distinct (free_list p)" "set (free_list p) \<subseteq> pool_slots p"
    "NULL_IDX \<notin> pool_slots p"
  using assms by (auto simp: pool_ok_def free_rep_def pool_slots_def index_simps)

lemma pool_size_taken [simp]: "pool_size (taken p x) = pool_size p"
  by (simp add: taken_def)

lemma pool_size_returned [simp]: "pool_size (returned p x) = pool_size p"
  by (simp add: returned_def)

interpretation order_slots:
  slot_allocator allocate deallocate free_list pool_slots NULL_IDX pool_ok
proof unfold_locales
  fix p x fs
  assume "pool_ok p" and "free_list p = x # fs"
  then have "free_rep p (x # fs)" by (simp add: pool_ok_def)
  from allocate_Cons [OF this] have "allocate p = Some (x, taken p x)" "free_rep (taken p x) fs" .
  then show "\<exists>p'. allocate p = Some (x, p') \<and> pool_ok p' \<and> free_list p' = fs \<and>
      pool_slots p' = pool_slots p"
    using free_rep_free_list pool_ok_iff by (auto simp: pool_slots_def)
next
  fix p x
  assume "pool_ok p" and "x \<in> pool_slots p" and "x \<notin> set (free_list p)"
  then have "deallocate p x = Some (returned p x)" "free_rep (returned p x) (x # free_list p)"
    by (simp_all add: pool_slots_def deallocate_in free_rep_returned pool_ok_def)
  then show "\<exists>p'. deallocate p x = Some p' \<and> pool_ok p' \<and> free_list p' = x # free_list p \<and>
      pool_slots p' = pool_slots p"
    using free_rep_free_list pool_ok_iff by (auto simp: pool_slots_def)
qed (auto simp: pool_ok_freeD allocate_empty dest: pool_ok_freeD)


section \<open>Properties\<close>

text \<open>\<open>n\<close> calls of \<open>allocate\<close>.\<close>

fun run_allocs :: "nat \<Rightarrow> order_pool \<Rightarrow> (u32 list \<times> order_pool) option" where
  "run_allocs 0 p = Some ([], p)"
| "run_allocs (Suc n) p =
     do { (x, p') \<leftarrow> allocate p; (xs, p'') \<leftarrow> run_allocs n p'; Some (x # xs, p'') }"

lemma run_allocs_eq: "run_allocs n p = order_slots.allocs n p"
  by (induction n arbitrary: p) auto

text \<open>
  C30: a pool of capacity \<open>c\<close> hands out the slots \<open>0\<close> to \<open>c - 1\<close>, each once and in this order;
  from then on \<open>allocate\<close> answers with the null index and leaves the pool as it is.
\<close>

theorem pool_hands_out_each_slot_once:
  assumes "c \<noteq> 0"
  shows "\<exists>p p'. pool_new c = Some p \<and>
    run_allocs (unat c) p = Some (map of_nat [0..<unat c], p') \<and>
    allocate p' = Some (NULL_IDX, p')"
proof -
  obtain p where p: "pool_new c = Some p" "free_rep p (map of_nat [0..<unat c])"
    using pool_new_rep [OF assms] by metis
  have ok: "pool_ok p" and fl: "free_list p = map of_nat [0..<unat c]"
    using p(2) pool_ok_iff free_rep_free_list by blast+
  obtain p' where "order_slots.allocs (unat c) p = Some (free_list p, p')" "pool_ok p'" "free_list p' = []"
    using order_slots.allocs_take [OF ok, of "unat c"] fl by auto
  then show ?thesis using p(1) fl order_slots.alloc_exhausted [of p'] by (auto simp: run_allocs_eq)
qed

theorem pool_hands_out_each_slot_once_witness:
  "\<exists>p p'. pool_new 3 = Some p \<and> run_allocs 3 p = Some ([0, 1, 2], p') \<and> allocate p' = Some (NULL_IDX, p')"
  using pool_hands_out_each_slot_once [of 3] by (simp add: upt_rec)

text \<open>
  A slot in use that is deallocated is the next one to be handed out, and afterwards the
  free list is what it was.
\<close>

lemma released_slot_is_reused:
  assumes "pool_ok p" and "unat x < pool_size p" and "x \<notin> set (free_list p)"
  shows "\<exists>p' p''. deallocate p x = Some p' \<and> allocate p' = Some (x, p'') \<and> free_list p'' = free_list p"
  using order_slots.release_then_alloc [of p x] assms by (simp add: pool_slots_def)

theorem released_slot_is_reused_witness:
  "\<exists>p p' p''. run_allocs 2 (the (pool_new 3)) = Some ([0, 1], p) \<and> deallocate p 0 = Some p' \<and>
    allocate p' = Some (0, p'') \<and> free_list p'' = free_list p"
proof -
  obtain q where q: "pool_new 3 = Some q" "pool_size q = unat (3 :: u32)"
    "free_rep q (map of_nat [0..<unat (3 :: u32)])"
    by (rule pool_new_rep [of 3]) auto
  then have ok: "pool_ok q" and fl: "free_list q = [0, 1, 2]" and sz: "pool_slots q = {i. unat i < 3}"
    using pool_ok_iff free_rep_free_list [of q] by (auto simp: upt_rec pool_slots_def)
  obtain p where p: "run_allocs 2 q = Some ([0, 1], p)" "pool_ok p" "free_list p = [2]" "pool_slots p = pool_slots q"
    using order_slots.allocs_take [OF ok, of 2] fl by (auto simp: run_allocs_eq)
  have "0 \<in> pool_slots p" using p(4) sz by simp
  then have "unat (0 :: u32) < pool_size p" by (simp only: pool_slots_def mem_Collect_eq)
  from released_slot_is_reused [OF p(2) this] show ?thesis using p q(1) by auto
qed

end
