(* ===== verification/Id_Map.thy ===== *)
theory Id_Map
  imports Nano_Types
begin

unbundle bit_operations_syntax

text \<open>
  \<open>IdMap\<close> of \<open>src/core/OrderBook.hpp\<close>: the open-addressed table from order ids to pool
  indices.  First the state and the four operations as the code has them; then the table
  seen through natural-number positions, the invariants, and the correctness of \<open>find\<close>,
  \<open>insert\<close> and \<open>erase\<close>.  \<open>erase\<close>'s backward shift stops at the first entry that sits in its
  home slot.  That is right for a table in Robin-Hood order (\<open>ordered_ok\<close>), which the
  shift itself keeps, but plain linear-probing \<open>insert\<close> does not establish.
\<close>

section \<open>State and operations\<close>

record id_entry =
  ekey :: order_id
  eval :: u32

record id_map =
  mcap :: u32
  mmask :: u32
  entries :: "id_entry list"

text \<open>The two power-of-two roundings (header and source file) differ in their guard only.\<close>

definition smear :: "u32 \<Rightarrow> u32" where
  "smear v0 = (let v = v0 - 1;
     v = v OR drop_bit 1 v; v = v OR drop_bit 2 v; v = v OR drop_bit 4 v;
     v = v OR drop_bit 8 v; v = v OR drop_bit 16 v in v + 1)"

definition idmap_round_up_pow2 :: "u32 \<Rightarrow> u32" where
  "idmap_round_up_pow2 v = (if v \<le> 1 then 1 else smear v)"

definition book_round_up_pow2 :: "u32 \<Rightarrow> u32" where
  "book_round_up_pow2 v = (if v = 0 then 1 else smear v)"

definition hash :: "order_id \<Rightarrow> u32" where
  "hash key = (let key = key XOR drop_bit 33 key;
     key = key * 0xff51afd7ed558ccd;
     key = key XOR drop_bit 33 key in ucast key)"

definition id_map_new :: "u32 \<Rightarrow> id_map" where
  "id_map_new cap = (let c = idmap_round_up_pow2 cap in
     \<lparr>mcap = c, mmask = c - 1,
      entries = replicate (unat c) \<lparr>ekey = 0, eval = NULL_IDX\<rparr>\<rparr>)"

definition entry_at :: "id_map \<Rightarrow> u32 \<Rightarrow> id_entry option" where
  "entry_at m i = vget (entries m) (unat i)"

definition set_entry :: "id_map \<Rightarrow> u32 \<Rightarrow> id_entry \<Rightarrow> id_map option" where
  "set_entry m i e = do { es \<leftarrow> vset (entries m) (unat i) e; Some (m\<lparr>entries := es\<rparr>) }"

text \<open>The loop that \<open>insert\<close> and \<open>erase\<close> share: stop at an empty slot or at the key.\<close>

partial_function (option) probe :: "id_map \<Rightarrow> order_id \<Rightarrow> u32 \<Rightarrow> u32 option" where
  "probe m key i = do {
     e \<leftarrow> entry_at m i;
     (if eval e \<noteq> NULL_IDX \<and> ekey e \<noteq> key then probe m key ((i + 1) AND mmask m)
      else Some i)
   }"

definition id_insert :: "id_map \<Rightarrow> order_id \<Rightarrow> u32 \<Rightarrow> id_map option" where
  "id_insert m key val = do {
     i \<leftarrow> probe m key (hash key AND mmask m);
     set_entry m i \<lparr>ekey = key, eval = val\<rparr>
   }"

partial_function (option) find_loop :: "id_map \<Rightarrow> order_id \<Rightarrow> u32 \<Rightarrow> u32 option" where
  "find_loop m key i = do {
     e \<leftarrow> entry_at m i;
     (if eval e \<noteq> NULL_IDX
      then (if ekey e = key then Some (eval e) else find_loop m key ((i + 1) AND mmask m))
      else Some NULL_IDX)
   }"

definition id_find :: "id_map \<Rightarrow> order_id \<Rightarrow> u32 option" where
  "id_find m key = find_loop m key (hash key AND mmask m)"

text \<open>The backward shift of \<open>erase\<close>, with the hole at \<open>cur\<close>.\<close>

partial_function (option) shift_back :: "id_map \<Rightarrow> u32 \<Rightarrow> id_map option" where
  "shift_back m cur = do {
     let nx = (cur + 1) AND mmask m;
     e \<leftarrow> entry_at m nx;
     (if eval e = NULL_IDX then Some m
      else let natural = hash (ekey e) AND mmask m in
        (if (nx - natural) AND mmask m \<ge> (nx - cur) AND mmask m
         then do {
           m1 \<leftarrow> set_entry m cur e;
           m2 \<leftarrow> set_entry m1 nx (e\<lparr>eval := NULL_IDX\<rparr>);
           shift_back m2 nx
         }
         else Some m))
   }"

definition id_erase :: "id_map \<Rightarrow> order_id \<Rightarrow> id_map option" where
  "id_erase m key = do {
     i \<leftarrow> probe m key (hash key AND mmask m);
     e \<leftarrow> entry_at m i;
     (if eval e = NULL_IDX then Some m
      else do {
        m1 \<leftarrow> set_entry m i (e\<lparr>eval := NULL_IDX\<rparr>);
        shift_back m1 i
      })
   }"

declare probe.simps [code] find_loop.simps [code] shift_back.simps [code]

section \<open>The table by position\<close>

definition tsize :: "id_map \<Rightarrow> nat" where
  "tsize m = length (entries m)"

definition occ :: "id_map \<Rightarrow> nat \<Rightarrow> bool" where
  "occ m i \<longleftrightarrow> eval (entries m ! i) \<noteq> NULL_IDX"

definition key_at :: "id_map \<Rightarrow> nat \<Rightarrow> order_id" where
  "key_at m i = ekey (entries m ! i)"

definition val_at :: "id_map \<Rightarrow> nat \<Rightarrow> u32" where
  "val_at m i = eval (entries m ! i)"

definition home :: "id_map \<Rightarrow> order_id \<Rightarrow> nat" where
  "home m k = unat (hash k) mod tsize m"

text \<open>How far the entry in slot \<open>i\<close> sits behind its home slot, walking forward.\<close>

definition disp :: "id_map \<Rightarrow> nat \<Rightarrow> nat" where
  "disp m i = (i + tsize m - home m (key_at m i)) mod tsize m"

definition shape_ok :: "id_map \<Rightarrow> bool" where
  "shape_ok m \<longleftrightarrow> (\<exists>b \<in> {1..<32}. tsize m = 2 ^ b \<and> mmask m = mask b \<and> unat (mcap m) = 2 ^ b)"

definition has_hole :: "id_map \<Rightarrow> bool" where
  "has_hole m \<longleftrightarrow> (\<exists>i < tsize m. \<not> occ m i)"

definition keys_unique :: "id_map \<Rightarrow> bool" where
  "keys_unique m \<longleftrightarrow> (\<forall>i < tsize m. \<forall>j < tsize m.
     occ m i \<longrightarrow> occ m j \<longrightarrow> key_at m i = key_at m j \<longrightarrow> i = j)"

definition paths_ok :: "id_map \<Rightarrow> bool" where
  "paths_ok m \<longleftrightarrow> (\<forall>i < tsize m. occ m i \<longrightarrow>
     (\<forall>d < disp m i. occ m ((home m (key_at m i) + d) mod tsize m)))"

definition idmap_ok :: "id_map \<Rightarrow> bool" where
  "idmap_ok m \<longleftrightarrow> shape_ok m \<and> has_hole m \<and> keys_unique m \<and> paths_ok m"

text \<open>Robin-Hood order: an entry is displaced at most one slot more than the one before.\<close>

definition pred_slot :: "id_map \<Rightarrow> nat \<Rightarrow> nat" where
  "pred_slot m i = (i + tsize m - 1) mod tsize m"

definition ordered_at :: "id_map \<Rightarrow> nat \<Rightarrow> bool" where
  "ordered_at m i \<longleftrightarrow> (occ m i \<longrightarrow> disp m i = 0 \<or>
     occ m (pred_slot m i) \<and> disp m i \<le> disp m (pred_slot m i) + 1)"

definition ordered_ok :: "id_map \<Rightarrow> bool" where
  "ordered_ok m \<longleftrightarrow> (\<forall>i < tsize m. ordered_at m i)"

text \<open>The finite map that the table represents, and the number of its occupied slots.\<close>

definition content :: "id_map \<Rightarrow> order_id \<rightharpoonup> u32" where
  "content m k =
     map_option eval (List.find (\<lambda>e. eval e \<noteq> NULL_IDX \<and> ekey e = k) (entries m))"

definition used :: "id_map \<Rightarrow> nat" where
  "used m = length (filter (\<lambda>e. eval e \<noteq> NULL_IDX) (entries m))"

section \<open>Positions and probing\<close>

lemma shape_tsize_gt1: "shape_ok m \<Longrightarrow> 1 < tsize m"
  using one_less_power [of "2 :: nat"] by (auto simp: shape_ok_def Suc_le_eq)

lemma shape_tsize_pos: "shape_ok m \<Longrightarrow> 0 < tsize m"
  using shape_tsize_gt1 by fastforce

lemma shape_tsize_le: "shape_ok m \<Longrightarrow> tsize m \<le> 2147483648"
proof -
  assume "shape_ok m"
  then obtain b where "b \<le> 31" "tsize m = 2 ^ b" by (auto simp: shape_ok_def)
  then show ?thesis using power_increasing [of b 31 "2 :: nat"] by simp
qed

lemma home_less: "shape_ok m \<Longrightarrow> home m k < tsize m"
  by (simp add: home_def shape_tsize_pos)

lemma home_word: "shape_ok m \<Longrightarrow> unat (hash k AND mmask m) = home m k"
  by (auto simp: shape_ok_def home_def unat_and_mask)

lemma next_word: "shape_ok m \<Longrightarrow> unat ((x + 1) AND mmask m) = Suc (unat x) mod tsize m"
  by (auto simp: shape_ok_def unat_Suc_mask)

lemma diff_word:
  "shape_ok m \<Longrightarrow> unat x < tsize m \<Longrightarrow> unat y < tsize m \<Longrightarrow>
     unat ((x - y) AND mmask m) = (unat x + tsize m - unat y) mod tsize m"
  by (auto simp: shape_ok_def unat_diff_mask)

lemma pos_word: "shape_ok m \<Longrightarrow> i < tsize m \<Longrightarrow> unat (of_nat i :: u32) = i"
  using shape_tsize_le [of m] by (simp add: unat_of_nat_u32)

lemma entry_at_in: "unat x < tsize m \<Longrightarrow> entry_at m x = Some (entries m ! unat x)"
  by (simp add: entry_at_def tsize_def access_simps)

text \<open>The table with the entry at a position replaced.\<close>

definition put :: "id_map \<Rightarrow> nat \<Rightarrow> id_entry \<Rightarrow> id_map" where
  "put m i e = m\<lparr>entries := (entries m)[i := e]\<rparr>"

lemma set_entry_in: "unat x < tsize m \<Longrightarrow> set_entry m x e = Some (put m (unat x) e)"
  by (simp add: set_entry_def put_def tsize_def access_simps)

lemma put_simps [simp]:
  "tsize (put m i e) = tsize m" "mmask (put m i e) = mmask m" "mcap (put m i e) = mcap m"
  "shape_ok (put m i e) = shape_ok m" "home (put m i e) = home m"
  "pred_slot (put m i e) = pred_slot m"
  by (auto simp: put_def tsize_def shape_ok_def home_def pred_slot_def fun_eq_iff)

lemma put_at:
  assumes "i < tsize m"
  shows "occ (put m i e) = (occ m)(i := eval e \<noteq> NULL_IDX)"
    and "key_at (put m i e) = (key_at m)(i := ekey e)"
    and "val_at (put m i e) = (val_at m)(i := eval e)"
    and "disp (put m i e) = (disp m)(i := (i + tsize m - home m (ekey e)) mod tsize m)"
  using assms
  by (auto simp: occ_def key_at_def val_at_def disp_def put_def tsize_def nth_list_update
      home_def fun_eq_iff)

lemma put_put_same [simp]: "put (put m i e) i e' = put m i e'"
  by (simp add: put_def)

text \<open>\<open>stops m k i\<close>: the probe for \<open>k\<close> ends at slot \<open>i\<close>.\<close>

definition stops :: "id_map \<Rightarrow> order_id \<Rightarrow> nat \<Rightarrow> bool" where
  "stops m k i \<longleftrightarrow> \<not> occ m i \<or> key_at m i = k"

lemma probe_steps:
  assumes "shape_ok m" and "unat x < tsize m"
    and "\<forall>d < j. \<not> stops m k ((unat x + d) mod tsize m)"
    and "stops m k ((unat x + j) mod tsize m)"
  shows "probe m k x = Some (of_nat ((unat x + j) mod tsize m))"
  using assms
proof (induction j arbitrary: x)
  case 0
  then show ?case by (subst probe.simps) (auto simp: entry_at_in stops_def occ_def key_at_def)
next
  case (Suc j)
  let ?y = "(x + 1) AND mmask m"
  have y: "unat ?y = Suc (unat x) mod tsize m" using Suc.prems(1) by (rule next_word)
  have s: "(unat ?y + d) mod tsize m = (unat x + Suc d) mod tsize m" for d
    by (simp add: y mod_add_left_eq)
  have "\<not> stops m k (unat x)" using Suc.prems(2,3) by force
  moreover have "probe m k ?y = Some (of_nat ((unat ?y + j) mod tsize m))"
  proof (rule Suc.IH)
    show "unat ?y < tsize m" using Suc.prems(1) by (simp add: y shape_tsize_pos)
    show "\<forall>d < j. \<not> stops m k ((unat ?y + d) mod tsize m)"
      unfolding s using Suc.prems(3) Suc_mono by blast
    show "stops m k ((unat ?y + j) mod tsize m)" unfolding s by (rule Suc.prems(4))
  qed (rule Suc.prems(1))
  ultimately show ?case using Suc.prems(2)
    by (subst probe.simps) (auto simp: entry_at_in stops_def occ_def key_at_def s)
qed

lemma find_loop_steps:
  assumes "shape_ok m" and "unat x < tsize m"
    and "\<forall>d < j. \<not> stops m k ((unat x + d) mod tsize m)"
    and "stops m k ((unat x + j) mod tsize m)"
  shows "find_loop m k x = Some (val_at m ((unat x + j) mod tsize m))"
  using assms
proof (induction j arbitrary: x)
  case 0
  then show ?case
    by (subst find_loop.simps) (auto simp: entry_at_in stops_def occ_def key_at_def val_at_def)
next
  case (Suc j)
  let ?y = "(x + 1) AND mmask m"
  have y: "unat ?y = Suc (unat x) mod tsize m" using Suc.prems(1) by (rule next_word)
  have s: "(unat ?y + d) mod tsize m = (unat x + Suc d) mod tsize m" for d
    by (simp add: y mod_add_left_eq)
  have "\<not> stops m k (unat x)" using Suc.prems(2,3) by force
  moreover have "find_loop m k ?y = Some (val_at m ((unat ?y + j) mod tsize m))"
  proof (rule Suc.IH)
    show "unat ?y < tsize m" using Suc.prems(1) by (simp add: y shape_tsize_pos)
    show "\<forall>d < j. \<not> stops m k ((unat ?y + d) mod tsize m)"
      unfolding s using Suc.prems(3) Suc_mono by blast
    show "stops m k ((unat ?y + j) mod tsize m)" unfolding s by (rule Suc.prems(4))
  qed (rule Suc.prems(1))
  ultimately show ?case using Suc.prems(2)
    by (subst find_loop.simps) (auto simp: entry_at_in stops_def occ_def key_at_def s)
qed

text \<open>With a hole somewhere, every probe ends within one round.\<close>

lemma first_stop:
  assumes "shape_ok m" and "has_hole m"
  obtains j where "j < tsize m" "\<forall>d < j. \<not> stops m k ((home m k + d) mod tsize m)"
    "stops m k ((home m k + j) mod tsize m)"
proof -
  let ?n = "tsize m" and ?h = "home m k"
  let ?P = "\<lambda>j. stops m k ((?h + j) mod ?n)"
  obtain i where i: "i < ?n" "\<not> occ m i" using assms(2) by (auto simp: has_hole_def)
  let ?j0 = "(i + ?n - ?h) mod ?n"
  have "?P ?j0" using i ring_reach home_less [OF assms(1)] by (auto simp: stops_def)
  then have "?P (Least ?P)" "Least ?P \<le> ?j0" by (rule LeastI, rule Least_le)
  moreover have "?j0 < ?n" using shape_tsize_pos [OF assms(1)] by simp
  ultimately show ?thesis using not_less_Least [where P = ?P] that by (meson le_less_trans)
qed

section \<open>What the table contains\<close>

lemma content_Some_iff:
  assumes "keys_unique m"
  shows "content m k = Some v \<longleftrightarrow> (\<exists>i < tsize m. occ m i \<and> key_at m i = k \<and> val_at m i = v)"
proof
  assume "content m k = Some v"
  then show "\<exists>i < tsize m. occ m i \<and> key_at m i = k \<and> val_at m i = v"
    by (auto simp: content_def find_Some_iff occ_def key_at_def val_at_def tsize_def)
next
  assume "\<exists>i < tsize m. occ m i \<and> key_at m i = k \<and> val_at m i = v"
  then obtain i where i: "i < tsize m" "occ m i" "key_at m i = k" "val_at m i = v" by blast
  let ?P = "\<lambda>e. eval e \<noteq> NULL_IDX \<and> ekey e = k"
  have "List.find ?P (entries m) = Some (entries m ! i)"
    unfolding find_Some_iff
  proof (rule exI [of _ i], intro conjI)
    show "\<forall>j < i. \<not> ?P (entries m ! j)"
      using i assms unfolding keys_unique_def occ_def key_at_def tsize_def
      by (metis less_irrefl less_trans)
  qed (use i in \<open>auto simp: tsize_def occ_def key_at_def\<close>)
  then show "content m k = Some v" using i by (simp add: content_def val_at_def)
qed

lemma content_None_iff:
  "content m k = None \<longleftrightarrow> (\<forall>i < tsize m. occ m i \<longrightarrow> key_at m i \<noteq> k)"
  by (auto simp: content_def find_None_iff occ_def key_at_def tsize_def in_set_conv_nth)

lemma content_eqI:
  assumes "keys_unique m" and "keys_unique m'"
    and "\<And>v. (\<exists>i < tsize m'. occ m' i \<and> key_at m' i = k \<and> val_at m' i = v) \<longleftrightarrow>
              (\<exists>i < tsize m. occ m i \<and> key_at m i = k \<and> val_at m i = v)"
  shows "content m' k = content m k"
  using assms by (intro option_eqI) (simp add: content_Some_iff)

lemma content_not_NULL: "content m k \<noteq> Some NULL_IDX"
  by (auto simp: content_def find_Some_iff)

lemma length_filter_update:
  "i < length xs \<Longrightarrow> length (filter P (xs[i := x])) + (if P (xs ! i) then 1 else 0) =
     length (filter P xs) + (if P x then 1 else 0)"
proof (induction xs arbitrary: i)
  case (Cons a xs)
  then show ?case
  proof (cases i)
    case (Suc j)
    then show ?thesis using Cons.IH [of j] Cons.prems by (auto split: if_splits)
  qed auto
qed simp

lemma used_put:
  "i < tsize m \<Longrightarrow> used (put m i e) + (if occ m i then 1 else 0) =
     used m + (if eval e \<noteq> NULL_IDX then 1 else 0)"
  using length_filter_update [of i "entries m" "\<lambda>e. eval e \<noteq> NULL_IDX" e]
  by (simp add: used_def put_def tsize_def occ_def)

lemma has_hole_iff: "has_hole m \<longleftrightarrow> used m < tsize m"
proof -
  have "used m < tsize m \<longleftrightarrow> filter (\<lambda>e. eval e \<noteq> NULL_IDX) (entries m) \<noteq> entries m"
    unfolding used_def tsize_def
    by (metis length_filter_le le_neq_implies_less length_filter_less less_irrefl filter_id_conv)
  also have "\<dots> \<longleftrightarrow> has_hole m"
    by (auto simp: filter_id_conv has_hole_def occ_def tsize_def all_set_conv_all_nth)
  finally show ?thesis by simp
qed

text \<open>Where a probe ends: at the key, or at a hole that shows the key is absent.\<close>

lemma locate:
  assumes "idmap_ok m"
  obtains t where "t < tsize m" "probe m k (hash k AND mmask m) = Some (of_nat t)"
    "id_find m k = Some (val_at m t)"
    "(occ m t \<and> key_at m t = k) \<or>
     (\<not> occ m t \<and> content m k = None \<and>
      (\<forall>d < (t + tsize m - home m k) mod tsize m. occ m ((home m k + d) mod tsize m)))"
proof -
  let ?n = "tsize m" and ?h = "home m k"
  have ok: "shape_ok m" "has_hole m" "keys_unique m" "paths_ok m"
    using assms by (auto simp: idmap_ok_def)
  obtain j where j: "j < ?n" and before: "\<forall>d < j. \<not> stops m k ((?h + d) mod ?n)"
    and stop: "stops m k ((?h + j) mod ?n)"
    using first_stop [OF ok(1,2)] by blast
  let ?t = "(?h + j) mod ?n"
  have h: "?h < ?n" by (rule home_less [OF ok(1)])
  have pr: "probe m k (hash k AND mmask m) = Some (of_nat ?t)" "id_find m k = Some (val_at m ?t)"
    using probe_steps [OF ok(1), of "hash k AND mmask m" j k]
      find_loop_steps [OF ok(1), of "hash k AND mmask m" j k] before stop h
    by (simp_all add: home_word [OF ok(1)] id_find_def)
  have dj: "(?t + ?n - ?h) mod ?n = j" by (rule ring_dist [OF h j])
  have "content m k = None" if "\<not> occ m ?t"
    unfolding content_None_iff
  proof (intro allI impI)
    fix i assume i: "i < ?n" "occ m i"
    show "key_at m i \<noteq> k"
    proof
      assume k: "key_at m i = k"
      let ?d = "disp m i"
      have at: "(?h + ?d) mod ?n = i" using ring_reach [OF h i(1)] k by (simp add: disp_def)
      have "stops m k i" using k by (simp add: stops_def)
      then have "\<not> ?d < j" using before at by auto
      moreover have "\<not> j < ?d" using ok(4) i k that by (auto simp: paths_ok_def)
      ultimately show False using at i(2) that by auto
    qed
  qed
  moreover have "\<forall>d < j. occ m ((?h + d) mod ?n)" using before by (simp add: stops_def)
  ultimately show ?thesis
    using that [of ?t] pr stop dj h by (auto simp: stops_def)
qed

lemma find_correct:
  assumes "idmap_ok m"
  shows "id_find m k = Some (case content m k of None \<Rightarrow> NULL_IDX | Some v \<Rightarrow> v)"
proof -
  obtain t where t: "t < tsize m" "id_find m k = Some (val_at m t)"
    "(occ m t \<and> key_at m t = k) \<or> (\<not> occ m t \<and> content m k = None)"
    using locate [OF assms, of k] by metis
  from t(3) show ?thesis
  proof
    assume "occ m t \<and> key_at m t = k"
    then have "content m k = Some (val_at m t)"
      using t(1) assms by (auto simp: content_Some_iff idmap_ok_def)
    then show ?thesis using t(2) by simp
  next
    assume "\<not> occ m t \<and> content m k = None"
    then show ?thesis using t(2) by (simp add: occ_def val_at_def)
  qed
qed

section \<open>Insertion\<close>

text \<open>There is still a hole after storing under the key.\<close>

definition spare :: "id_map \<Rightarrow> order_id \<Rightarrow> bool" where
  "spare m k \<longleftrightarrow> used m + 1 < tsize m \<or> content m k \<noteq> None"

lemma insert_correct:
  assumes ok: "idmap_ok m" and sp: "spare m k" and v: "v \<noteq> NULL_IDX"
  obtains m' where "id_insert m k v = Some m'" "idmap_ok m'" "content m' = (content m)(k \<mapsto> v)"
    "used m' = (if content m k = None then used m + 1 else used m)" "tsize m' = tsize m"
proof -
  let ?n = "tsize m" and ?h = "home m k"
  have sh: "shape_ok m" "keys_unique m" "paths_ok m" using ok by (auto simp: idmap_ok_def)
  obtain t where t: "t < ?n" and pr: "probe m k (hash k AND mmask m) = Some (of_nat t)"
    and cases: "(occ m t \<and> key_at m t = k) \<or> (\<not> occ m t \<and> content m k = None \<and>
      (\<forall>d < (t + ?n - ?h) mod ?n. occ m ((?h + d) mod ?n)))"
    using locate [OF ok, of k] by metis
  let ?m = "put m t \<lparr>ekey = k, eval = v\<rparr>"
  note at = put_at [OF t, of "\<lparr>ekey = k, eval = v\<rparr>"]
  have eq: "id_insert m k v = Some ?m"
    using pr t pos_word [OF sh(1) t] by (simp add: id_insert_def set_entry_in)
  have others: "\<And>i. i < ?n \<Longrightarrow> occ m i \<Longrightarrow> key_at m i = k \<Longrightarrow> i = t"
    using cases sh(2) t by (auto simp: content_None_iff keys_unique_def)
  have only_t: "j = t" if "j < ?n" "occ ?m j" "key_at ?m j = k" for j
  proof (rule ccontr)
    assume ne: "j \<noteq> t"
    then have "occ m j" "key_at m j = k" using that by (simp_all add: at)
    then show False using others that(1) ne by blast
  qed
  have ku: "keys_unique ?m"
    unfolding keys_unique_def
  proof (intro allI impI)
    fix i j
    assume *: "i < tsize ?m" "j < tsize ?m" "occ ?m i" "occ ?m j" "key_at ?m i = key_at ?m j"
    show "i = j"
    proof (cases "i = t \<or> j = t")
      case True
      then have "key_at ?m i = k" "key_at ?m j = k" using *(5) by (auto simp: at)
      then have "i = t" "j = t" using only_t * unfolding put_simps by blast+
      then show ?thesis by simp
    next
      case False
      then have "occ m i" "occ m j" "key_at m i = key_at m j" using * by (auto simp: at)
      then show ?thesis using * sh(2) unfolding keys_unique_def put_simps by blast
    qed
  qed
  have pa: "paths_ok ?m"
    unfolding paths_ok_def
  proof (intro allI impI)
    fix i d
    assume i: "i < tsize ?m" "occ ?m i" and d: "d < disp ?m i"
    have "occ m ((home m (key_at ?m i) + d) mod ?n)"
    proof (cases "i = t \<and> \<not> occ m t")
      case True
      then have "d < (t + ?n - ?h) mod ?n" using d by (simp add: at)
      then show ?thesis using cases True by (simp add: at)
    next
      case False
      then have "occ m i" using i by (auto simp: at split: if_splits)
      have same: "key_at ?m i = key_at m i" using False cases by (auto simp: at)
      then have "disp ?m i = disp m i" by (simp add: disp_def)
      then show ?thesis using sh(3) i d same \<open>occ m i\<close> by (simp add: paths_ok_def)
    qed
    then show "occ ?m ((home ?m (key_at ?m i) + d) mod tsize ?m)" using v by (simp add: at)
  qed
  have us: "used ?m = (if content m k = None then used m + 1 else used m)"
    using used_put [OF t, of "\<lparr>ekey = k, eval = v\<rparr>"] cases v t
    by (auto simp: content_None_iff split: if_splits)
  have "has_hole ?m"
    using sp us has_hole_iff [of ?m] has_hole_iff [of m] ok
    by (auto simp: spare_def idmap_ok_def split: if_splits)
  then have ok': "idmap_ok ?m" using ku pa sh(1) by (simp add: idmap_ok_def)
  have "content ?m = (content m)(k \<mapsto> v)"
  proof
    fix k'
    show "content ?m k' = ((content m)(k \<mapsto> v)) k'"
    proof (cases "k' = k")
      case True
      then show ?thesis using t v ku by (auto simp: content_Some_iff at)
    next
      case False
      then have "content ?m k' = content m k'"
        using cases t v
        by (intro content_eqI sh(2) ku) (auto simp: at split: if_splits)
      then show ?thesis using False by simp
    qed
  qed
  then show ?thesis using that eq ok' us by simp
qed

section \<open>Robin-Hood order\<close>

lemma disp_less: "shape_ok m \<Longrightarrow> disp m i < tsize m"
  by (simp add: disp_def shape_tsize_pos)

lemma ordered_okD:
  "ordered_ok m \<Longrightarrow> i < tsize m \<Longrightarrow> occ m i \<Longrightarrow> disp m i \<noteq> 0 \<Longrightarrow>
     occ m (pred_slot m i) \<and> disp m i \<le> disp m (pred_slot m i) + 1"
  by (auto simp: ordered_ok_def ordered_at_def)

lemma ordered_back:
  assumes "shape_ok m" and "ordered_ok m" and i: "i < tsize m" "occ m i" and "e \<le> disp m i"
  shows "occ m ((i + tsize m - e) mod tsize m) \<and>
    disp m i \<le> disp m ((i + tsize m - e) mod tsize m) + e"
  using assms(5)
proof (induction e)
  case 0
  then show ?case using i by simp
next
  case (Suc e)
  let ?n = "tsize m"
  let ?p = "(i + ?n - e) mod ?n"
  have n: "0 < ?n" by (rule shape_tsize_pos [OF assms(1)])
  have en: "Suc e < ?n" using Suc.prems disp_less [OF assms(1), of i] by simp
  have IH: "occ m ?p" "disp m i \<le> disp m ?p + e" using Suc by auto
  then have "disp m ?p \<noteq> 0" using Suc.prems by simp
  then have "occ m (pred_slot m ?p)" "disp m ?p \<le> disp m (pred_slot m ?p) + 1"
    using ordered_okD [OF assms(2), of ?p] IH(1) n by simp_all
  moreover have "pred_slot m ?p = (i + ?n - Suc e) mod ?n"
  proof -
    have "(i + ?n - e + (?n - 1)) mod ?n = ((i + ?n - Suc e) + ?n) mod ?n"
      using en n by (intro arg_cong2 [where f = "(mod)"]) auto
    then have "(?p + (?n - 1)) mod ?n = (i + ?n - Suc e) mod ?n"
      by (simp add: mod_add_left_eq)
    then show ?thesis using n by (simp add: pred_slot_def)
  qed
  ultimately show ?case using IH(2) by auto
qed

lemma ordered_paths:
  assumes "shape_ok m" and "ordered_ok m"
  shows "paths_ok m"
  unfolding paths_ok_def
proof (intro allI impI)
  fix i d
  assume i: "i < tsize m" "occ m i" and d: "d < disp m i"
  let ?n = "tsize m" and ?h = "home m (key_at m i)"
  have h: "?h < ?n" by (rule home_less [OF assms(1)])
  have D: "disp m i < ?n" by (rule disp_less [OF assms(1)])
  have at: "(?h + disp m i) mod ?n = i" using ring_reach [OF h i(1)] by (simp add: disp_def)
  have "(?h + d) mod ?n = (i + ?n - (disp m i - d)) mod ?n"
  proof (cases "?h + disp m i < ?n")
    case True
    then have "i = ?h + disp m i" using at by simp
    then have "i + ?n - (disp m i - d) = ?h + d + ?n" using d by simp
    then show ?thesis by simp
  next
    case False
    then have "i + ?n = ?h + disp m i" using at h D by (simp add: le_mod_geq)
    then have "i + ?n - (disp m i - d) = ?h + d" using d by simp
    then show ?thesis by simp
  qed
  then show "occ m ((?h + d) mod ?n)"
    using ordered_back [OF assms i, of "disp m i - d"] by simp
qed

section \<open>The backward shift\<close>

definition pairs :: "id_map \<Rightarrow> (order_id \<times> u32) set" where
  "pairs m = {(key_at m i, val_at m i) |i. i < tsize m \<and> occ m i}"

lemma content_pairs: "keys_unique m \<Longrightarrow> content m k = Some v \<longleftrightarrow> (k, v) \<in> pairs m"
  by (auto simp: content_Some_iff pairs_def)

text \<open>One iteration of the shift: the entry after the hole moves into it.\<close>

definition shifted :: "id_map \<Rightarrow> nat \<Rightarrow> id_map" where
  "shifted m c = (let nx = Suc c mod tsize m; e = entries m ! nx in
     put (put m c e) nx (e\<lparr>eval := NULL_IDX\<rparr>))"

lemma Suc_mod_neq: "shape_ok m \<Longrightarrow> c < tsize m \<Longrightarrow> Suc c mod tsize m \<noteq> c"
  using shape_tsize_gt1 [of m] by (cases "Suc c = tsize m") auto

lemma Suc_mod_less: "shape_ok m \<Longrightarrow> Suc c mod tsize m < tsize m"
  by (simp add: shape_tsize_pos)

lemma shift_back_step:
  assumes sh: "shape_ok m" and c: "unat cur < tsize m"
  shows "shift_back m cur =
    (let nx = Suc (unat cur) mod tsize m in
     if \<not> occ m nx \<or> disp m nx = 0 then Some m
     else shift_back (shifted m (unat cur)) ((cur + 1) AND mmask m))"
proof -
  let ?n = "tsize m" and ?c = "unat cur" and ?x = "(cur + 1) AND mmask m"
  let ?nx = "Suc ?c mod ?n"
  have x: "unat ?x = ?nx" by (rule next_word [OF sh])
  have nx: "?nx < ?n" by (rule Suc_mod_less [OF sh])
  let ?e = "entries m ! ?nx"
  have d: "unat ((?x - (hash (ekey ?e) AND mmask m)) AND mmask m) = disp m ?nx"
    using diff_word [OF sh, of ?x "hash (ekey ?e) AND mmask m"] nx home_less [OF sh]
    by (simp add: x home_word [OF sh] disp_def key_at_def)
  have one: "unat ((?x - cur) AND mmask m) = 1"
    using diff_word [OF sh, of ?x cur] nx c shape_tsize_gt1 [OF sh]
    by (cases "Suc ?c < ?n") (auto simp: x le_mod_geq less_Suc_eq_le)
  have "((?x - (hash (ekey ?e) AND mmask m)) AND mmask m \<ge> (?x - cur) AND mmask m) \<longleftrightarrow>
      disp m ?nx \<noteq> 0"
    by (simp add: word_le_nat_alt d one) linarith
  then show ?thesis
    using nx c x
    by (subst shift_back.simps)
      (auto simp: Let_def entry_at_in set_entry_in occ_def shifted_def)
qed

lemma shifted_simps [simp]:
  "tsize (shifted m c) = tsize m" "mmask (shifted m c) = mmask m"
  "shape_ok (shifted m c) = shape_ok m" "home (shifted m c) = home m"
  "pred_slot (shifted m c) = pred_slot m"
  by (simp_all add: shifted_def Let_def)

lemma shifted_at:
  assumes "shape_ok m" and "c < tsize m"
  defines "nx \<equiv> Suc c mod tsize m"
  shows "occ (shifted m c) = (occ m)(c := occ m nx, nx := False)"
    and "key_at (shifted m c) = (key_at m)(c := key_at m nx)"
    and "val_at (shifted m c) = (val_at m)(c := val_at m nx, nx := NULL_IDX)"
    and "i \<noteq> c \<Longrightarrow> disp (shifted m c) i = disp m i"
    and "disp (shifted m c) c = (c + tsize m - home m (key_at m nx)) mod tsize m"
proof -
  have nx: "nx < tsize m" "nx \<noteq> c"
    using Suc_mod_less Suc_mod_neq assms by auto
  let ?e = "entries m ! nx"
  note at = put_at [of c m ?e] put_at [of nx "put m c ?e" "?e\<lparr>eval := NULL_IDX\<rparr>"]
  have s: "shifted m c = put (put m c ?e) nx (?e\<lparr>eval := NULL_IDX\<rparr>)"
    by (simp add: shifted_def nx_def Let_def)
  show o: "occ (shifted m c) = (occ m)(c := occ m nx, nx := False)"
    unfolding s using at nx assms(2) by (simp add: occ_def)
  show k: "key_at (shifted m c) = (key_at m)(c := key_at m nx)"
    unfolding s using at nx assms(2) by (auto simp: key_at_def fun_eq_iff)
  show "val_at (shifted m c) = (val_at m)(c := val_at m nx, nx := NULL_IDX)"
    unfolding s using at nx assms(2) by (simp add: val_at_def)
  show "i \<noteq> c \<Longrightarrow> disp (shifted m c) i = disp m i"
    by (simp add: disp_def k)
  show "disp (shifted m c) c = (c + tsize m - home m (key_at m nx)) mod tsize m"
    by (simp add: disp_def k)
qed

lemma shifted_perm:
  assumes "shape_ok m" and "c < tsize m" and "\<not> occ m c" and "occ m (Suc c mod tsize m)"
  shows "pairs (shifted m c) = pairs m" and "keys_unique m \<Longrightarrow> keys_unique (shifted m c)"
    and "used (shifted m c) = used m"
proof -
  let ?nx = "Suc c mod tsize m" and ?m = "shifted m c"
  note at = shifted_at [OF assms(1,2)]
  have nx: "?nx < tsize m" "?nx \<noteq> c"
    using Suc_mod_less Suc_mod_neq assms by auto
  define f where "f i = (if i = c then ?nx else i)" for i
  have f: "occ m (f i) \<and> key_at m (f i) = key_at ?m i \<and> val_at m (f i) = val_at ?m i \<and>
      f i < tsize m" if "i < tsize m" "occ ?m i" for i
    using that nx assms by (auto simp: f_def at split: if_splits)
  have f_inj: "i = j" if "occ ?m i" "occ ?m j" "f i = f j" for i j
    using that by (auto simp: f_def at split: if_splits)
  have f_sur: "\<exists>j < tsize m. occ ?m j \<and> f j = i" if "i < tsize m" "occ m i" for i
    using that nx assms by (cases "i = ?nx") (auto simp: f_def at intro: exI [of _ c] exI [of _ i])
  show "keys_unique ?m" if "keys_unique m"
    unfolding keys_unique_def
  proof (intro allI impI)
    fix i j
    assume *: "i < tsize ?m" "j < tsize ?m" "occ ?m i" "occ ?m j" "key_at ?m i = key_at ?m j"
    then have "f i = f j" using f [of i] f [of j] \<open>keys_unique m\<close>
      unfolding keys_unique_def shifted_simps by metis
    then show "i = j" using * f_inj by blast
  qed
  show "pairs ?m = pairs m"
  proof (intro set_eqI iffI)
    fix p assume "p \<in> pairs ?m"
    then obtain i where "i < tsize m" "occ ?m i" "p = (key_at ?m i, val_at ?m i)"
      by (auto simp: pairs_def)
    then show "p \<in> pairs m" using f [of i] unfolding pairs_def by force
  next
    fix p assume "p \<in> pairs m"
    then obtain i where i: "i < tsize m" "occ m i" "p = (key_at m i, val_at m i)"
      by (auto simp: pairs_def)
    then obtain j where "j < tsize m" "occ ?m j" "f j = i" using f_sur by blast
    then show "p \<in> pairs ?m" using f [of j] i unfolding pairs_def shifted_simps by auto
  qed
  show "used ?m = used m"
    using used_put [of c m "entries m ! ?nx"] assms nx
      used_put [of ?nx "put m c (entries m ! ?nx)" "(entries m ! ?nx)\<lparr>eval := NULL_IDX\<rparr>"]
    by (auto simp: shifted_def Let_def put_at occ_def [of m ?nx] split: if_splits)
qed

text \<open>
  \<open>gap_ok m c\<close>: with slot \<open>c\<close> vacated, Robin-Hood order holds everywhere but right behind the
  hole, and what is there would still be in order behind an entry displaced by \<open>q\<close>.
\<close>

definition gap_ok :: "id_map \<Rightarrow> nat \<Rightarrow> bool" where
  "gap_ok m c \<longleftrightarrow> (let nx = Suc c mod tsize m in
     (\<forall>i < tsize m. i \<noteq> nx \<longrightarrow> ordered_at m i) \<and>
     (\<exists>q. (occ m nx \<longrightarrow> disp m nx \<le> q + 1) \<and>
          (q = 0 \<or> occ m (pred_slot m c) \<and> q \<le> disp m (pred_slot m c) + 1)))"

lemma gap_ok_stop:
  assumes "gap_ok m c" and "\<not> occ m (Suc c mod tsize m) \<or> disp m (Suc c mod tsize m) = 0"
  shows "ordered_ok m"
  using assms unfolding ordered_ok_def gap_ok_def Let_def by (metis ordered_at_def)

lemma gap_ok_shifted:
  assumes sh: "shape_ok m" and c: "c < tsize m" "\<not> occ m c"
    and nx: "nx = Suc c mod tsize m" "occ m nx" "disp m nx \<noteq> 0"
    and big: "2 < tsize m" and gap: "gap_ok m c"
  shows "gap_ok (shifted m c) nx"
proof -
  let ?n = "tsize m" and ?m = "shifted m c" and ?p = "pred_slot m"
  note at = shifted_at [OF sh c(1), folded nx(1)]
  have nxl: "nx < ?n" "nx \<noteq> c" using Suc_mod_less [OF sh] Suc_mod_neq [OF sh c(1)] nx by auto
  have pn: "?p nx = c" using ring_pred_Suc [OF c(1)] nx(1) by (simp add: pred_slot_def)
  have sp: "Suc (?p i) mod ?n = i" if "i < ?n" for i
    using ring_Suc_pred [OF that] by (simp add: pred_slot_def)
  have two: "Suc nx mod ?n \<noteq> c" "Suc nx mod ?n \<noteq> nx"
    using c(1) big Suc_mod_neq [OF sh nxl(1)] unfolding nx(1)
    by (auto simp: mod_Suc split: if_splits)
  have pc: "?p c \<noteq> c" "?p c \<noteq> nx" using sp [OF c(1)] nxl two nx(1) by auto
  have dc: "Suc (disp ?m c) = disp m nx"
  proof -
    have h: "home m (key_at m nx) < ?n" by (rule home_less [OF sh])
    have "nx \<noteq> home m (key_at m nx)" using nx(3) by (auto simp: disp_def)
    then show ?thesis using ring_dist_Suc [OF h c(1)] nx(1) by (simp add: at disp_def)
  qed
  from gap obtain q where
    ord: "\<forall>i < ?n. i \<noteq> nx \<longrightarrow> ordered_at m i" and q: "disp m nx \<le> q + 1"
      "q = 0 \<or> occ m (?p c) \<and> q \<le> disp m (?p c) + 1"
    using nx unfolding gap_ok_def Let_def by auto
  have "ordered_at ?m i" if i: "i < ?n" "i \<noteq> Suc nx mod ?n" for i
  proof -
    consider "i = c" | "i = nx" | "i \<noteq> c" "i \<noteq> nx" by blast
    then show ?thesis
    proof cases
      case 1
      have "disp ?m c = 0 \<or> occ m (?p c) \<and> disp ?m c \<le> disp m (?p c) + 1"
        using q dc by auto
      then show ?thesis using pc 1 by (auto simp: ordered_at_def at)
    next
      case 3
      have "?p i \<noteq> nx" "?p i \<noteq> c" using sp [OF i(1)] i(2) nx(1) 3 by auto
      then show ?thesis using 3 ord i(1) by (simp add: ordered_at_def at)
    qed (simp add: ordered_at_def at)
  qed
  moreover have "occ ?m (Suc nx mod ?n) \<longrightarrow> disp ?m (Suc nx mod ?n) \<le> disp m nx + 1"
  proof -
    have "ordered_at m (Suc nx mod ?n)" using ord two Suc_mod_less [OF sh] by blast
    moreover have "?p (Suc nx mod ?n) = nx"
      using ring_pred_Suc [OF nxl(1)] by (simp add: pred_slot_def)
    ultimately show ?thesis using two by (auto simp: ordered_at_def at)
  qed
  moreover have "occ ?m (?p nx) \<and> disp m nx \<le> disp ?m (?p nx) + 1"
    using pn dc nx nxl by (simp add: at)
  ultimately show ?thesis unfolding gap_ok_def Let_def shifted_simps by blast
qed

lemma shift_back_correct:
  assumes "shape_ok m" and "unat cur < tsize m" and "\<not> occ m (unat cur)"
    and "\<not> occ m ((unat cur + Suc j) mod tsize m)" and "Suc j < tsize m"
  shows "\<exists>m'. shift_back m cur = Some m' \<and> shape_ok m' \<and> tsize m' = tsize m \<and>
    used m' = used m \<and> pairs m' = pairs m \<and> (keys_unique m \<longrightarrow> keys_unique m') \<and>
    (gap_ok m (unat cur) \<longrightarrow> ordered_ok m')"
  using assms
proof (induction j arbitrary: m cur)
  case 0
  then have "shift_back m cur = Some m" by (simp add: shift_back_step)
  then show ?case using gap_ok_stop 0 by auto
next
  case (Suc j)
  let ?n = "tsize m" and ?c = "unat cur" and ?x = "(cur + 1) AND mmask m"
  let ?nx = "Suc ?c mod ?n"
  show ?case
  proof (cases "\<not> occ m ?nx \<or> disp m ?nx = 0")
    case True
    then have "shift_back m cur = Some m"
      using Suc.prems by (auto simp: shift_back_step)
    then show ?thesis using gap_ok_stop True Suc.prems by blast
  next
    case False
    let ?m = "shifted m ?c"
    have x: "unat ?x = ?nx" by (rule next_word [OF Suc.prems(1)])
    have nx: "?nx < ?n" by (rule Suc_mod_less [OF Suc.prems(1)])
    note at = shifted_at [OF Suc.prems(1,2)]
    have far: "(?nx + Suc j) mod ?n = (?c + Suc (Suc j)) mod ?n"
      by (metis add_Suc_right add_Suc_shift mod_add_left_eq)
    have step: "shift_back m cur = shift_back ?m ?x"
      using False Suc.prems by (auto simp: shift_back_step Let_def)
    have "\<exists>m'. shift_back ?m ?x = Some m' \<and> shape_ok m' \<and> tsize m' = tsize ?m \<and>
      used m' = used ?m \<and> pairs m' = pairs ?m \<and> (keys_unique ?m \<longrightarrow> keys_unique m') \<and>
      (gap_ok ?m (unat ?x) \<longrightarrow> ordered_ok m')"
    proof (rule Suc.IH)
      have "(?c + Suc (Suc j)) mod ?n \<noteq> ?c"
        using ring_inject [of ?c ?n "Suc (Suc j)" 0] Suc.prems by auto
      then show "\<not> occ ?m ((unat ?x + Suc j) mod tsize ?m)"
        unfolding x shifted_simps far using Suc.prems by (simp add: at)
    qed (use Suc.prems nx x in \<open>auto simp: at\<close>)
    then show ?thesis
      using shifted_perm [OF Suc.prems(1-3)] False step x
        gap_ok_shifted [OF Suc.prems(1-3) refl] Suc.prems(5) by auto
  qed
qed

section \<open>Erasure\<close>

lemma pairs_clear:
  assumes "i < tsize m"
  shows "pairs (put m i (e\<lparr>eval := NULL_IDX\<rparr>)) \<subseteq> pairs m"
    and "keys_unique m \<Longrightarrow> keys_unique (put m i (e\<lparr>eval := NULL_IDX\<rparr>))"
proof -
  let ?m = "put m i (e\<lparr>eval := NULL_IDX\<rparr>)"
  have sub: "j \<noteq> i \<and> occ m j \<and> key_at ?m j = key_at m j \<and> val_at ?m j = val_at m j"
    if "occ ?m j" for j
    using that by (simp add: put_at [OF assms] split: if_splits)
  show "pairs ?m \<subseteq> pairs m"
    using sub unfolding pairs_def by auto
  show "keys_unique ?m" if "keys_unique m"
    using that sub unfolding keys_unique_def put_simps by metis
qed

text \<open>
  What \<open>erase\<close> does to any well-formed table: it returns, occupies no more slots, and keeps
  only pairs that were there.  Nothing here depends on the order of the table.
\<close>

definition table_ok :: "id_map \<Rightarrow> bool" where
  "table_ok m \<longleftrightarrow> shape_ok m \<and> has_hole m"

lemma erase_unfold:
  assumes ok: "table_ok m"
  obtains t where "t < tsize m" "probe m k (hash k AND mmask m) = Some (of_nat t)" "stops m k t"
    "unat (of_nat t :: u32) = t" "\<forall>d < (t + tsize m - home m k) mod tsize m.
       \<not> stops m k ((home m k + d) mod tsize m)"
    "id_erase m k = (if occ m t
       then shift_back (put m t ((entries m ! t)\<lparr>eval := NULL_IDX\<rparr>)) (of_nat t) else Some m)"
proof -
  let ?n = "tsize m"
  have sh: "shape_ok m" and ho: "has_hole m" using ok by (auto simp: table_ok_def)
  obtain j where j: "j < ?n" "\<forall>d < j. \<not> stops m k ((home m k + d) mod ?n)"
    "stops m k ((home m k + j) mod ?n)"
    using first_stop [OF sh ho] by blast
  let ?t = "(home m k + j) mod ?n"
  have t: "?t < ?n" by (simp add: shape_tsize_pos [OF sh])
  have pr: "probe m k (hash k AND mmask m) = Some (of_nat ?t)"
    using probe_steps [OF sh, of "hash k AND mmask m" j k] j home_less [OF sh]
    by (simp add: home_word [OF sh])
  have tw: "unat (of_nat ?t :: u32) = ?t" by (rule pos_word [OF sh t])
  have dj: "(?t + ?n - home m k) mod ?n = j" by (rule ring_dist [OF home_less [OF sh] j(1)])
  have "id_erase m k = (if occ m ?t
      then shift_back (put m ?t ((entries m ! ?t)\<lparr>eval := NULL_IDX\<rparr>)) (of_nat ?t) else Some m)"
    using pr t tw by (auto simp: id_erase_def entry_at_in set_entry_in occ_def)
  then show ?thesis using that [OF t pr j(3) tw] j(2) dj by simp
qed

lemma erase_gen:
  assumes ok: "table_ok m"
  obtains t m' where "t < tsize m" "probe m k (hash k AND mmask m) = Some (of_nat t)"
    "id_erase m k = Some m'" "table_ok m'" "tsize m' = tsize m"
    "used m' = (if occ m t then used m - 1 else used m)" "keys_unique m \<longrightarrow> keys_unique m'"
    "pairs m' = (if occ m t then pairs (put m t ((entries m ! t)\<lparr>eval := NULL_IDX\<rparr>)) else pairs m)"
    "occ m t \<and> gap_ok (put m t ((entries m ! t)\<lparr>eval := NULL_IDX\<rparr>)) t \<longrightarrow> ordered_ok m'"
    "\<not> occ m t \<longrightarrow> m' = m" "stops m k t"
proof -
  let ?n = "tsize m"
  have sh: "shape_ok m" and ho: "has_hole m" using ok by (auto simp: table_ok_def)
  obtain t where t: "t < ?n" and pr: "probe m k (hash k AND mmask m) = Some (of_nat t)"
    and stop: "stops m k t" and tw: "unat (of_nat t :: u32) = t"
    and er: "id_erase m k = (if occ m t
       then shift_back (put m t ((entries m ! t)\<lparr>eval := NULL_IDX\<rparr>)) (of_nat t) else Some m)"
    using erase_unfold [OF ok, of k] by metis
  let ?e = "(entries m ! t)\<lparr>eval := NULL_IDX\<rparr>"
  let ?m = "put m t ?e"
  show ?thesis
  proof (cases "occ m t")
    case False
    then show ?thesis using that [of t m] t pr er ok stop by simp
  next
    case True
    note at = put_at [OF t, of ?e]
    have us: "used m = Suc (used ?m)" using used_put [OF t, of ?e] True by simp
    obtain i where i: "i < ?n" "\<not> occ m i" using ho by (auto simp: has_hole_def)
    then have it: "i \<noteq> t" using True by auto
    let ?d = "(i + ?n - t) mod ?n"
    have di: "(t + ?d) mod ?n = i" by (rule ring_reach [OF t i(1)])
    then have "?d \<noteq> 0" using it t by (metis add.right_neutral mod_less)
    then obtain l where l: "?d = Suc l" by (cases ?d) auto
    have "\<exists>m'. shift_back ?m (of_nat t) = Some m' \<and> shape_ok m' \<and> tsize m' = tsize ?m \<and>
      used m' = used ?m \<and> pairs m' = pairs ?m \<and> (keys_unique ?m \<longrightarrow> keys_unique m') \<and>
      (gap_ok ?m (unat (of_nat t :: u32)) \<longrightarrow> ordered_ok m')"
    proof (rule shift_back_correct)
      show "Suc l < tsize ?m" using l shape_tsize_pos [OF sh] by (metis mod_less_divisor put_simps(1))
      show "\<not> occ ?m ((unat (of_nat t :: u32) + Suc l) mod tsize ?m)"
        unfolding tw put_simps l [symmetric] di using i it by (simp add: at)
    qed (use sh t tw in \<open>auto simp: at\<close>)
    then obtain m' where m': "shift_back ?m (of_nat t) = Some m'" "shape_ok m'" "tsize m' = ?n"
      "used m' = used ?m" "pairs m' = pairs ?m" "keys_unique ?m \<longrightarrow> keys_unique m'"
      "gap_ok ?m t \<longrightarrow> ordered_ok m'"
      unfolding tw put_simps by blast
    have "table_ok m'"
      using m' us ho has_hole_iff [of m] has_hole_iff [of m'] by (simp add: table_ok_def)
    moreover have "keys_unique m'" if "keys_unique m"
      using m'(6) pairs_clear(2) [OF t that] by blast
    ultimately show ?thesis using that [of t m'] t pr er True us m' stop by simp
  qed
qed

text \<open>
  Where the shift is wrong: when the erased key sits in its home slot and the next entry in its
  own, the shift stops at once, and every key with the home slot of the erased one is cut off.
\<close>

definition cut_off :: "id_map \<Rightarrow> order_id \<Rightarrow> order_id \<Rightarrow> bool" where
  "cut_off m k k' \<longleftrightarrow> (let h = home m k; nx = Suc h mod tsize m in
     occ m h \<and> key_at m h = k \<and> occ m nx \<and> home m (key_at m nx) = nx \<and> k' \<noteq> k \<and> home m k' = h)"

lemma erase_cuts_off:
  assumes ok: "idmap_ok m" and cut: "cut_off m k k'" and c: "content m k' = Some v"
  shows "\<exists>m'. id_erase m k = Some m' \<and> content m' k' = Some v \<and> id_find m' k' = Some NULL_IDX"
proof -
  let ?n = "tsize m" and ?h = "home m k"
  let ?nx = "Suc ?h mod ?n" and ?e = "(entries m ! ?h)\<lparr>eval := NULL_IDX\<rparr>"
  let ?m = "put m ?h ?e"
  have sh: "shape_ok m" and ku: "keys_unique m" using ok by (auto simp: idmap_ok_def)
  have h: "?h < ?n" by (rule home_less [OF sh])
  note at = put_at [OF h, of ?e] and d = cut [unfolded cut_off_def Let_def]
  have hw: "unat (of_nat ?h :: u32) = ?h" by (rule pos_word [OF sh h])
  have "stops m k ?h" using d by (simp add: stops_def)
  then have "probe m k (hash k AND mmask m) = Some (of_nat ?h)"
    using probe_steps [OF sh, of "hash k AND mmask m" 0 k] h by (simp add: home_word [OF sh])
  then have "id_erase m k = shift_back ?m (of_nat ?h)"
    using d h hw by (simp add: id_erase_def entry_at_in set_entry_in occ_def)
  also have "\<dots> = Some ?m"
  proof -
    have "?nx < ?n" "?nx \<noteq> ?h" using Suc_mod_less [OF sh] Suc_mod_neq [OF sh h] by auto
    then have "disp ?m ?nx = 0" using d by (simp add: at disp_def)
    then show ?thesis using shift_back_step [of ?m "of_nat ?h"] sh h hw by (simp add: Let_def)
  qed
  finally have er: "id_erase m k = Some ?m" .
  obtain i where i: "i < ?n" "occ m i" "key_at m i = k'" "val_at m i = v"
    using c content_Some_iff [OF ku] by blast
  have ih: "i \<noteq> ?h" using i d by auto
  have "keys_unique ?m" using pairs_clear(2) [OF h ku] .
  then have "content ?m k' = Some v" using content_Some_iff i ih by (auto simp: at)
  moreover have "id_find ?m k' = Some NULL_IDX"
    using find_loop_steps [of ?m "hash k' AND mmask m" 0 k'] sh h d
    by (simp add: id_find_def home_word [OF sh] stops_def at)
  ultimately show ?thesis using er by blast
qed

text \<open>\<open>insert\<close> needs a spare hole to return with one, whatever the table holds.\<close>

lemma insert_gen:
  assumes ok: "table_ok m" and room: "used m + 1 < tsize m"
  obtains m' where "id_insert m k v = Some m'" "table_ok m'" "tsize m' = tsize m" "used m' \<le> used m + 1"
proof -
  have sh: "shape_ok m" and ho: "has_hole m" using ok by (auto simp: table_ok_def)
  obtain j where j: "j < tsize m" "\<forall>d < j. \<not> stops m k ((home m k + d) mod tsize m)"
    "stops m k ((home m k + j) mod tsize m)"
    using first_stop [OF sh ho] by blast
  let ?t = "(home m k + j) mod tsize m"
  let ?m = "put m ?t \<lparr>ekey = k, eval = v\<rparr>"
  have t: "?t < tsize m" by (simp add: shape_tsize_pos [OF sh])
  have "probe m k (hash k AND mmask m) = Some (of_nat ?t)"
    using probe_steps [OF sh, of "hash k AND mmask m" j k] j home_less [OF sh]
    by (simp add: home_word [OF sh])
  then have "id_insert m k v = Some ?m"
    using t pos_word [OF sh t] by (simp add: id_insert_def set_entry_in)
  moreover have "used ?m \<le> used m + 1"
    using used_put [OF t, of "\<lparr>ekey = k, eval = v\<rparr>"] by (simp split: if_splits)
  ultimately show ?thesis
    using that [of ?m] sh room by (simp add: table_ok_def has_hole_iff)
qed

text \<open>On a table in Robin-Hood order, \<open>erase\<close> removes the key, nothing else, and keeps the order.\<close>

lemma gap_ok_clear:
  assumes "shape_ok m" and "ordered_ok m" and t: "t < tsize m" "occ m t"
  shows "gap_ok (put m t (e\<lparr>eval := NULL_IDX, ekey := key_at m t\<rparr>)) t"
proof -
  let ?e = "e\<lparr>eval := NULL_IDX, ekey := key_at m t\<rparr>"
  let ?m = "put m t ?e" and ?nx = "Suc t mod tsize m" and ?p = "pred_slot m"
  note at = put_at [OF t(1), of ?e]
  have same: "disp ?m = disp m" "key_at ?m = key_at m"
    by (auto simp: at disp_def fun_eq_iff)
  have sp: "Suc (?p i) mod tsize m = i" if "i < tsize m" for i
    using ring_Suc_pred [OF that] by (simp add: pred_slot_def)
  have pn: "?p ?nx = t" using ring_pred_Suc [OF t(1)] by (simp add: pred_slot_def)
  have "ordered_at ?m i" if "i < tsize m" "i \<noteq> ?nx" for i
  proof -
    have "?p i \<noteq> t" using sp that by metis
    then show ?thesis using assms(2) that by (simp add: ordered_at_def ordered_ok_def at same)
  qed
  moreover have "occ ?m ?nx \<longrightarrow> disp m ?nx \<le> disp m t + 1"
    using ordered_okD [OF assms(2) Suc_mod_less [OF assms(1)], of t] pn
    by (cases "disp m ?nx = 0") (auto simp: at split: if_splits)
  moreover have "disp m t = 0 \<or> occ ?m (?p t) \<and> disp m t \<le> disp m (?p t) + 1"
  proof (cases "disp m t = 0")
    case False
    then have "?p t \<noteq> t" using sp [OF t(1)] Suc_mod_neq [OF assms(1) t(1)] by auto
    then show ?thesis using ordered_okD [OF assms(2) t] by (auto simp: at)
  qed simp
  ultimately show ?thesis unfolding gap_ok_def Let_def put_simps same by blast
qed

lemma erase_correct:
  assumes ok: "idmap_ok m" and ord: "ordered_ok m"
  obtains m' where "id_erase m k = Some m'" "idmap_ok m'" "ordered_ok m'"
    "content m' = (content m)(k := None)" "tsize m' = tsize m"
    "used m' = (if content m k = None then used m else used m - 1)"
proof -
  have sh: "shape_ok m" and ku: "keys_unique m" and tab: "table_ok m"
    using ok by (auto simp: idmap_ok_def table_ok_def)
  obtain t m' where t: "t < tsize m" "probe m k (hash k AND mmask m) = Some (of_nat t)"
    and e: "id_erase m k = Some m'" "table_ok m'" "tsize m' = tsize m"
    and us: "used m' = (if occ m t then used m - 1 else used m)"
    and ku': "keys_unique m \<longrightarrow> keys_unique m'"
    and pa: "pairs m' = (if occ m t then pairs (put m t ((entries m ! t)\<lparr>eval := NULL_IDX\<rparr>)) else pairs m)"
    and gap: "occ m t \<and> gap_ok (put m t ((entries m ! t)\<lparr>eval := NULL_IDX\<rparr>)) t \<longrightarrow> ordered_ok m'"
    and same: "\<not> occ m t \<longrightarrow> m' = m"
    by (rule erase_gen [OF tab, of k]) blast
  have ku': "keys_unique m'" using ku' ku by blast
  obtain t' where t': "t' < tsize m" "probe m k (hash k AND mmask m) = Some (of_nat t')"
    and dich: "(occ m t' \<and> key_at m t' = k) \<or> (\<not> occ m t' \<and> content m k = None)"
    using locate [OF ok, of k] by metis
  have "unat (of_nat t :: u32) = unat (of_nat t' :: u32)" using t(2) t'(2) by simp
  then have tt: "t' = t" using pos_word [OF sh] t(1) t'(1) by simp
  have oid: "ordered_ok m'"
  proof (cases "occ m t")
    case True
    have "(entries m ! t)\<lparr>eval := NULL_IDX, ekey := key_at m t\<rparr> = (entries m ! t)\<lparr>eval := NULL_IDX\<rparr>"
      by (simp add: key_at_def)
    then show ?thesis using gap_ok_clear [OF sh ord t(1) True, of "entries m ! t"] gap True by simp
  qed (use same ord in simp)
  have "idmap_ok m'"
    using e(2) ku' ordered_paths oid by (auto simp: idmap_ok_def table_ok_def)
  moreover have "content m' = (content m)(k := None)"
  proof (cases "occ m t")
    case False
    then show ?thesis using same dich tt by auto
  next
    case True
    then have k: "key_at m t = k" using dich tt by auto
    have "content m' k' = Some v \<longleftrightarrow> ((content m)(k := None)) k' = Some v" for k' v
    proof -
      have "content m' k' = Some v \<longleftrightarrow> (k', v) \<in> pairs (put m t ((entries m ! t)\<lparr>eval := NULL_IDX\<rparr>))"
        using content_pairs [OF ku'] pa True by simp
      also have "\<dots> \<longleftrightarrow> k' \<noteq> k \<and> (k', v) \<in> pairs m"
        using k ku t(1) True unfolding pairs_def keys_unique_def
        by (auto simp: put_at key_at_def [symmetric] split: if_splits)
      finally show ?thesis using content_pairs [OF ku] by simp
    qed
    then show ?thesis by (intro ext option_eqI) blast
  qed
  moreover have "used m' = (if content m k = None then used m else used m - 1)"
    using us dich tt t(1) by (auto simp: content_None_iff)
  ultimately show ?thesis using that e oid by blast
qed

section \<open>Construction\<close>

text \<open>The smearing shifts copy the top bit of \<open>v - 1\<close> to every lower position.\<close>

lemma smear_step:
  assumes "\<forall>i. bit (x :: u32) i \<longleftrightarrow> (\<exists>d < s. bit w (i + d))" and t: "t = s + s"
  shows "\<forall>i. bit (x OR drop_bit s x) i \<longleftrightarrow> (\<exists>d < t. bit w (i + d))"
  unfolding t
proof
  fix i
  have "(\<exists>d < s + s. bit w (i + d)) \<longleftrightarrow> (\<exists>d < s. bit w (i + d)) \<or> (\<exists>d < s. bit w (i + s + d))"
    (is "?L \<longleftrightarrow> ?A \<or> ?B")
  proof
    assume ?L
    then obtain d where d: "d < s + s" "bit w (i + d)" by blast
    then show "?A \<or> ?B" by (cases "d < s") (auto intro: exI [of _ "d - s"])
  next
    assume "?A \<or> ?B"
    then show ?L by (metis add.assoc add_strict_left_mono trans_less_add1)
  qed
  then show "bit (x OR drop_bit s x) i \<longleftrightarrow> (\<exists>d < s + s. bit w (i + d))"
    using assms by (auto simp: bit_simps add.commute add.left_commute)
qed

lemma smear_bits:
  defines "w v \<equiv> (v :: u32) - 1"
  shows "bit (smear v - 1) i \<longleftrightarrow> (\<exists>d. bit (w v) (i + d))"
proof -
  let ?v0 = "w v"
  let ?v1 = "?v0 OR drop_bit 1 ?v0"
  let ?v2 = "?v1 OR drop_bit 2 ?v1"
  let ?v4 = "?v2 OR drop_bit 4 ?v2"
  let ?v8 = "?v4 OR drop_bit 8 ?v4"
  let ?v16 = "?v8 OR drop_bit 16 ?v8"
  have b0: "\<forall>i. bit ?v0 i \<longleftrightarrow> (\<exists>d < 1. bit ?v0 (i + d))" by simp
  have b1: "\<forall>i. bit ?v1 i \<longleftrightarrow> (\<exists>d < 2. bit ?v0 (i + d))" by (rule smear_step [OF b0]) simp
  have b2: "\<forall>i. bit ?v2 i \<longleftrightarrow> (\<exists>d < 4. bit ?v0 (i + d))" by (rule smear_step [OF b1]) simp
  have b4: "\<forall>i. bit ?v4 i \<longleftrightarrow> (\<exists>d < 8. bit ?v0 (i + d))" by (rule smear_step [OF b2]) simp
  have b8: "\<forall>i. bit ?v8 i \<longleftrightarrow> (\<exists>d < 16. bit ?v0 (i + d))" by (rule smear_step [OF b4]) simp
  have b16: "\<forall>i. bit ?v16 i \<longleftrightarrow> (\<exists>d < 32. bit ?v0 (i + d))" by (rule smear_step [OF b8]) simp
  have "d < 32" if "bit ?v0 (i + d)" for d
    using bit_imp_le_length [OF that] by simp
  then have "bit ?v16 i \<longleftrightarrow> (\<exists>d. bit ?v0 (i + d))" using b16 by blast
  moreover have "smear v - 1 = ?v16" by (simp add: smear_def w_def Let_def)
  ultimately show ?thesis by simp
qed

text \<open>The rounding is exact up to \<open>2 ^ 31\<close>; beyond it wraps to zero.\<close>

lemma smear_pow2:
  assumes v: "1 < unat (v :: u32)"
  obtains b where "1 \<le> b" "b \<le> 32" "smear v = of_nat (2 ^ b)" "2 ^ (b - 1) < unat v" "unat v \<le> 2 ^ b"
proof -
  let ?w = "v - 1"
  have uw: "unat ?w = unat v - 1" using v by (subst unat_minus_one) auto
  have w0: "?w \<noteq> 0" using uw v by (metis unat_0 zero_less_diff less_irrefl)
  then obtain i where i: "bit ?w i" by (auto simp: bit_eq_iff)
  let ?S = "{i. bit ?w i}"
  have fin: "finite ?S" by (rule finite_subset [of _ "{..<32}"]) (auto dest: bit_imp_le_length)
  define t where "t = Max ?S"
  have t: "bit ?w t" "\<And>j. bit ?w j \<Longrightarrow> j \<le> t"
    using Max_in [OF fin] i fin unfolding t_def by (auto intro: Max_ge)
  have t32: "t < 32" using bit_imp_le_length [OF t(1)] by simp
  have "bit (smear v - 1) j \<longleftrightarrow> bit (mask (Suc t) :: u32) j" for j
  proof -
    have "bit (smear v - 1) j \<longleftrightarrow> j \<le> t"
      unfolding smear_bits using t by (metis le_add1 le_iff_add le_trans)
    then show ?thesis using t32 by (auto simp: bit_mask_iff)
  qed
  then have "smear v - 1 = mask (Suc t)" by (rule bit_word_eqI)
  then have s: "smear v = of_nat (2 ^ Suc t)" by (simp add: mask_eq_exp_minus_1 diff_eq_eq)
  have "take_bit (Suc t) ?w = ?w"
    by (rule bit_word_eqI) (use t in \<open>auto simp: bit_simps less_Suc_eq_le\<close>)
  then have "unat ?w < 2 ^ Suc t"
    by (metis take_bit_nat_less_exp unsigned_take_bit_eq)
  moreover have "2 ^ t \<le> unat ?w"
  proof -
    have "bit (unat ?w) t" using t by (simp add: bit_unsigned_iff)
    then show ?thesis by (metis bit_iff_odd div_less even_zero not_le)
  qed
  ultimately show ?thesis using that [of "Suc t"] s t32 uw v by simp
qed

lemma id_map_new_ok:
  assumes "1 < unat cap" and "unat cap \<le> 2147483648"
  shows "idmap_ok (id_map_new cap)" and "ordered_ok (id_map_new cap)"
    and "content (id_map_new cap) = Map.empty" and "unat cap \<le> tsize (id_map_new cap)"
    and "used (id_map_new cap) = 0"
proof -
  obtain b where b: "1 \<le> b" "b \<le> 32" "smear cap = of_nat (2 ^ b)" "2 ^ (b - 1) < unat cap"
    "unat cap \<le> 2 ^ b"
    using smear_pow2 [OF assms(1)] .
  have "b < 32"
  proof (rule ccontr)
    assume "\<not> b < 32"
    then have "b - 1 = 31" using b by simp
    then show False using b(4) assms(2) by simp
  qed
  then have "(2 :: nat) ^ b \<le> 2 ^ 31" by (intro power_increasing) simp_all
  then have us: "unat (of_nat (2 ^ b) :: u32) = 2 ^ b" by (intro unat_of_nat_u32) simp
  have r: "idmap_round_up_pow2 cap = of_nat (2 ^ b)"
    using assms(1) b(3) by (simp add: idmap_round_up_pow2_def word_le_nat_alt)
  let ?m = "id_map_new cap"
  have m: "?m = \<lparr>mcap = of_nat (2 ^ b), mmask = of_nat (2 ^ b) - 1,
      entries = replicate (2 ^ b) \<lparr>ekey = 0, eval = NULL_IDX\<rparr>\<rparr>"
    using us by (simp add: id_map_new_def r Let_def)
  have n: "tsize ?m = 2 ^ b" by (simp add: m tsize_def)
  have free: "\<not> occ ?m i" if "i < tsize ?m" for i
    using that n by (simp add: occ_def m)
  have sh: "shape_ok ?m"
    unfolding shape_ok_def n using \<open>b < 32\<close> b(1) us
    by (intro bexI [of _ b]) (auto simp: m mask_eq_exp_minus_1)
  then show "idmap_ok ?m"
    using free shape_tsize_pos
    by (auto simp: idmap_ok_def has_hole_def keys_unique_def paths_ok_def)
  show "ordered_ok ?m" using free by (simp add: ordered_ok_def ordered_at_def)
  show "content ?m = Map.empty" using free by (auto simp: fun_eq_iff content_None_iff)
  show "unat cap \<le> tsize ?m" using b n by simp
  show "used ?m = 0" by (simp add: used_def m)
qed

section \<open>Keys without collisions\<close>

text \<open>Every entry sits in its home slot; this is what a collision-free set of keys gives.\<close>

definition at_home :: "id_map \<Rightarrow> bool" where
  "at_home m \<longleftrightarrow> (\<forall>i < tsize m. occ m i \<longrightarrow> disp m i = 0)"

lemma at_home_ordered: "at_home m \<Longrightarrow> ordered_ok m"
  by (simp add: at_home_def ordered_ok_def ordered_at_def)

lemma at_home_pos:
  assumes "shape_ok m" and "at_home m" and "i < tsize m" and "occ m i"
  shows "home m (key_at m i) = i"
  using assms ring_reach [OF home_less [OF assms(1)] assms(3)]
  by (metis Nat.add_0_right at_home_def disp_def home_less mod_less)

lemma at_home_erase:
  assumes "table_ok m" and "at_home m" and "id_erase m k = Some m'"
  shows "at_home m'"
proof -
  have sh: "shape_ok m" using assms(1) by (simp add: table_ok_def)
  obtain t where t: "t < tsize m" "unat (of_nat t :: u32) = t"
    and er: "id_erase m k = (if occ m t
       then shift_back (put m t ((entries m ! t)\<lparr>eval := NULL_IDX\<rparr>)) (of_nat t) else Some m)"
    using erase_unfold [OF assms(1), of k] by metis
  let ?e = "(entries m ! t)\<lparr>eval := NULL_IDX\<rparr>"
  let ?m = "put m t ?e"
  note at = put_at [OF t(1), of ?e]
  have h: "at_home ?m"
    using assms(2) by (simp add: at_home_def at disp_def)
  then have "shift_back ?m (of_nat t) = Some ?m"
    using t sh Suc_mod_less [OF sh] by (subst shift_back_step) (auto simp: Let_def at_home_def)
  then show ?thesis using er assms h by (auto split: if_splits)
qed

lemma at_home_insert:
  assumes ok: "idmap_ok m" and ah: "at_home m" and v: "v \<noteq> NULL_IDX"
    and free: "\<And>i. i < tsize m \<Longrightarrow> occ m i \<Longrightarrow> home m (key_at m i) = home m k \<Longrightarrow> key_at m i = k"
    and ins: "id_insert m k v = Some m'"
  shows "at_home m'"
proof -
  have sh: "shape_ok m" using ok by (simp add: idmap_ok_def)
  have h: "home m k < tsize m" by (rule home_less [OF sh])
  have "stops m k (home m k)"
    using free [of "home m k"] at_home_pos [OF sh ah] h by (auto simp: stops_def)
  then have "probe m k (hash k AND mmask m) = Some (of_nat (home m k))"
    using probe_steps [OF sh, of "hash k AND mmask m" 0 k] h by (simp add: home_word [OF sh])
  then have "m' = put m (home m k) \<lparr>ekey = k, eval = v\<rparr>"
    using ins h pos_word [OF sh h] by (simp add: id_insert_def set_entry_in)
  then show ?thesis using ah h by (auto simp: at_home_def put_at split: if_splits)
qed

lemma used_card: "used m = card {i. i < tsize m \<and> occ m i}"
  by (simp add: used_def tsize_def occ_def length_filter_conv_card)

lemma used_dom:
  assumes "keys_unique m"
  shows "used m = card (dom (content m))" and "finite (dom (content m))"
proof -
  let ?S = "{i. i < tsize m \<and> occ m i}"
  have d: "dom (content m) = key_at m ` ?S"
    by (auto simp: dom_def content_Some_iff [OF assms])
  have "inj_on (key_at m) ?S" using assms by (auto simp: inj_on_def keys_unique_def)
  then show "used m = card (dom (content m))" unfolding d used_card by (simp add: card_image)
  show "finite (dom (content m))" unfolding d by simp
qed

section \<open>The index as its clients see it\<close>

text \<open>
  The laws a client relies on.  \<open>ok\<close> is enough to look up and to store; \<open>tidy\<close> is the
  additional condition under which \<open>erase\<close> is right.
\<close>

locale id_index =
  fixes look :: "'m \<Rightarrow> 'k \<Rightarrow> 'v option" and store :: "'m \<Rightarrow> 'k \<Rightarrow> 'v \<Rightarrow> 'm option"
    and remove :: "'m \<Rightarrow> 'k \<Rightarrow> 'm option" and contents :: "'m \<Rightarrow> 'k \<rightharpoonup> 'v"
    and ok :: "'m \<Rightarrow> bool" and tidy :: "'m \<Rightarrow> bool" and room :: "'m \<Rightarrow> 'k \<Rightarrow> bool"
    and absent :: 'v
  assumes look_law: "ok m \<Longrightarrow> look m k = Some (case contents m k of None \<Rightarrow> absent | Some v \<Rightarrow> v)"
    and never_absent: "contents m k \<noteq> Some absent"
    and store_law: "ok m \<Longrightarrow> room m k \<Longrightarrow> v \<noteq> absent \<Longrightarrow>
      \<exists>m'. store m k v = Some m' \<and> ok m' \<and> contents m' = (contents m)(k \<mapsto> v)"
    and remove_law: "ok m \<Longrightarrow> tidy m \<Longrightarrow>
      \<exists>m'. remove m k = Some m' \<and> ok m' \<and> tidy m' \<and> contents m' = (contents m)(k := None)"
begin

lemma look_hit: "ok m \<Longrightarrow> contents m k = Some v \<Longrightarrow> look m k = Some v"
  by (simp add: look_law)

lemma look_miss: "ok m \<Longrightarrow> look m k = Some absent \<longleftrightarrow> contents m k = None"
  using never_absent [of m k] by (auto simp: look_law split: option.splits)

lemma look_after_store:
  assumes "ok m" and "room m k" and "v \<noteq> absent" and "store m k v = Some m'"
  shows "look m' k' = (if k' = k then Some v else look m k')"
  using store_law [OF assms(1-3)] assms(1,4) by (auto simp: look_law)

lemma look_after_remove:
  assumes "ok m" and "tidy m" and "remove m k = Some m'"
  shows "look m' k' = (if k' = k then Some absent else look m k')"
  using remove_law [OF assms(1,2), of k] assms(1,3) by (auto simp: look_law)

end

text \<open>
  A session on a set of keys for which storing keeps the table tidy: the table then
  behaves as a finite map under any sequence of stores and removals.
\<close>

datatype ('k, 'v) index_op = Store 'k 'v | Remove 'k

fun op_key :: "('k, 'v) index_op \<Rightarrow> 'k" where
  "op_key (Store k v) = k"
| "op_key (Remove k) = k"

fun map_op :: "('k \<rightharpoonup> 'v) \<Rightarrow> ('k, 'v) index_op \<Rightarrow> ('k \<rightharpoonup> 'v)" where
  "map_op f (Store k v) = f(k \<mapsto> v)"
| "map_op f (Remove k) = f(k := None)"

definition op_vals_ok :: "'v \<Rightarrow> ('k, 'v) index_op list \<Rightarrow> bool" where
  "op_vals_ok absent xs \<longleftrightarrow> (\<forall>k v. Store k v \<in> set xs \<longrightarrow> v \<noteq> absent)"

locale id_index_session = id_index look store remove contents ok tidy room absent
  for look :: "'m \<Rightarrow> 'k \<Rightarrow> 'v option" and store :: "'m \<Rightarrow> 'k \<Rightarrow> 'v \<Rightarrow> 'm option"
    and remove :: "'m \<Rightarrow> 'k \<Rightarrow> 'm option" and contents :: "'m \<Rightarrow> 'k \<rightharpoonup> 'v"
    and ok :: "'m \<Rightarrow> bool" and tidy :: "'m \<Rightarrow> bool" and room :: "'m \<Rightarrow> 'k \<Rightarrow> bool"
    and absent :: 'v +
  fixes calm :: "'m \<Rightarrow> 'k set \<Rightarrow> bool"
  assumes calm_tidy: "calm m K \<Longrightarrow> tidy m"
    and calm_room: "ok m \<Longrightarrow> calm m K \<Longrightarrow> k \<in> K \<Longrightarrow> room m k"
    and calm_store: "ok m \<Longrightarrow> calm m K \<Longrightarrow> k \<in> K \<Longrightarrow> v \<noteq> absent \<Longrightarrow> store m k v = Some m' \<Longrightarrow> calm m' K"
    and calm_remove: "ok m \<Longrightarrow> calm m K \<Longrightarrow> remove m k = Some m' \<Longrightarrow> calm m' K"
begin

fun exec_op :: "'m \<Rightarrow> ('k, 'v) index_op \<Rightarrow> 'm option" where
  "exec_op m (Store k v) = store m k v"
| "exec_op m (Remove k) = remove m k"

fun exec_ops :: "'m \<Rightarrow> ('k, 'v) index_op list \<Rightarrow> 'm option" where
  "exec_ops m [] = Some m"
| "exec_ops m (x # xs) = do { m' \<leftarrow> exec_op m x; exec_ops m' xs }"

lemma exec_op_map:
  assumes "ok m" and "calm m K" and "op_key x \<in> K" and "op_vals_ok absent [x]"
  shows "\<exists>m'. exec_op m x = Some m' \<and> ok m' \<and> calm m' K \<and> contents m' = map_op (contents m) x"
proof (cases x)
  case (Store k v)
  then have k: "k \<in> K" "v \<noteq> absent" using assms by (auto simp: op_vals_ok_def)
  obtain m' where m': "store m k v = Some m'" "ok m'" "contents m' = (contents m)(k \<mapsto> v)"
    using store_law [OF assms(1) calm_room [OF assms(1,2) k(1)] k(2)] by blast
  moreover have "calm m' K" by (rule calm_store [OF assms(1,2) k m'(1)])
  ultimately show ?thesis using Store by simp
next
  case (Remove k)
  obtain m' where m': "remove m k = Some m'" "ok m'" "contents m' = (contents m)(k := None)"
    using remove_law [OF assms(1) calm_tidy [OF assms(2)], of k] by blast
  moreover have "calm m' K" by (rule calm_remove [OF assms(1,2) m'(1)])
  ultimately show ?thesis using Remove by simp
qed

lemma exec_ops_map:
  "ok m \<Longrightarrow> calm m K \<Longrightarrow> op_key ` set xs \<subseteq> K \<Longrightarrow> op_vals_ok absent xs \<Longrightarrow>
     \<exists>m'. exec_ops m xs = Some m' \<and> ok m' \<and> calm m' K \<and> contents m' = foldl map_op (contents m) xs"
proof (induction xs arbitrary: m)
  case (Cons x xs)
  then obtain m1 where m1: "exec_op m x = Some m1" "ok m1" "calm m1 K"
    "contents m1 = map_op (contents m) x"
    using exec_op_map [of m K x] by (auto simp: op_vals_ok_def)
  then show ?case using Cons.IH [of m1] Cons.prems by (auto simp: op_vals_ok_def)
qed simp

lemma session_look:
  assumes "ok m" and "calm m K" and "op_key ` set xs \<subseteq> K" and "op_vals_ok absent xs"
  shows "\<exists>m'. exec_ops m xs = Some m' \<and>
    look m' k = Some (case foldl map_op (contents m) xs k of None \<Rightarrow> absent | Some v \<Rightarrow> v)"
  using exec_ops_map [OF assms] look_law by fastforce

end

definition calm_on :: "id_map \<Rightarrow> order_id set \<Rightarrow> bool" where
  "calm_on m K \<longleftrightarrow> at_home m \<and> inj_on (home m) K \<and> dom (content m) \<subseteq> K \<and> finite K \<and>
     card K < tsize m"

interpretation table: id_index id_find id_insert id_erase content idmap_ok ordered_ok spare NULL_IDX
proof unfold_locales
  fix m k v
  assume "idmap_ok m" and "spare m k" and "v \<noteq> NULL_IDX"
  then show "\<exists>m'. id_insert m k v = Some m' \<and> idmap_ok m' \<and> content m' = (content m)(k \<mapsto> v)"
    by (rule insert_correct) blast
next
  fix m k
  assume "idmap_ok m" and "ordered_ok m"
  then show "\<exists>m'. id_erase m k = Some m' \<and> idmap_ok m' \<and> ordered_ok m' \<and>
      content m' = (content m)(k := None)"
    by (rule erase_correct) blast
qed (auto simp: find_correct content_not_NULL)

lemma calm_on_spare:
  assumes "idmap_ok m" and "calm_on m K" and "k \<in> K"
  shows "spare m k"
proof (cases "content m k")
  case None
  have ku: "keys_unique m" using assms(1) by (simp add: idmap_ok_def)
  have K: "finite K" "dom (content m) \<subseteq> K - {k}" "card K < tsize m"
    using assms None by (auto simp: calm_on_def)
  then have "card (dom (content m)) \<le> card (K - {k})" by (intro card_mono) auto
  moreover have "0 < card K" using K(1) assms(3) card_gt_0_iff by blast
  ultimately show ?thesis using K assms(3) used_dom(1) [OF ku] by (auto simp: spare_def)
qed (simp add: spare_def)

lemma calm_on_store:
  assumes "idmap_ok m" and "calm_on m K" and "k \<in> K" and "v \<noteq> NULL_IDX" and "id_insert m k v = Some m'"
  shows "calm_on m' K"
proof -
  obtain m1 where m1: "id_insert m k v = Some m1" "content m1 = (content m)(k \<mapsto> v)" "tsize m1 = tsize m"
    using insert_correct [OF assms(1) calm_on_spare [OF assms(1-3)] assms(4)] by metis
  have "key_at m i = k" if "i < tsize m" "occ m i" "home m (key_at m i) = home m k" for i
  proof -
    have "key_at m i \<in> K"
      using that assms(1,2) content_None_iff [of m "key_at m i"] by (auto simp: calm_on_def)
    then show ?thesis using assms(2,3) that by (auto simp: calm_on_def inj_on_def)
  qed
  then have "at_home m'"
    using at_home_insert [OF assms(1) _ assms(4) _ assms(5)] assms(2) by (auto simp: calm_on_def)
  moreover have "home m' = home m" using m1 assms(5) by (simp add: home_def fun_eq_iff)
  ultimately show ?thesis using m1 assms by (auto simp: calm_on_def)
qed

lemma calm_on_remove:
  assumes "idmap_ok m" and "calm_on m K" and "id_erase m k = Some m'"
  shows "calm_on m' K"
proof -
  have ord: "ordered_ok m" using assms(2) at_home_ordered by (simp add: calm_on_def)
  obtain m1 where m1: "id_erase m k = Some m1" "content m1 = (content m)(k := None)" "tsize m1 = tsize m"
    using erase_correct [OF assms(1) ord] by metis
  have "at_home m'"
    using at_home_erase [OF _ _ assms(3)] assms(1,2) by (auto simp: calm_on_def idmap_ok_def table_ok_def)
  moreover have "home m' = home m" using m1 assms(3) by (simp add: home_def fun_eq_iff)
  ultimately show ?thesis using m1 assms by (auto simp: calm_on_def)
qed

interpretation table: id_index_session
  id_find id_insert id_erase content idmap_ok ordered_ok spare NULL_IDX calm_on
  by unfold_locales
    (auto simp: calm_on_spare dest: calm_on_store calm_on_remove at_home_ordered,
     simp add: calm_on_def at_home_ordered)

end
