(* ===== verification/Level_Bitmap.thy ===== *)
theory Level_Bitmap
  imports Nano_Prelude
begin

text \<open>
  The occupancy bitmaps and their two scans, \<open>find_prev_set_bit\<close> and \<open>find_next_set_bit\<close> of
  \<open>src/core/OrderBook.cpp\<close>: one bit per price level, 64 to a word.  The scans are shown to
  agree with a walk over single positions.
\<close>

section \<open>The scans\<close>

text \<open>The compiler builtins that count leading and trailing zero bits of a nonzero word.\<close>

definition clzll :: "u64 \<Rightarrow> nat" where
  "clzll w = length (takeWhile (\<lambda>i. \<not> bit w i) (rev [0..<64]))"

definition ctzll :: "u64 \<Rightarrow> nat" where
  "ctzll w = length (takeWhile (\<lambda>i. \<not> bit w i) [0..<64])"

partial_function (option) prev_scan :: "u64 list \<Rightarrow> u32 \<Rightarrow> u64 \<Rightarrow> u32 option" where
  "prev_scan bm word word_bits =
     (if word_bits \<noteq> 0 then Some (push_bit 6 word OR of_nat (63 - clzll word_bits))
      else if word = 0 then Some NULL_IDX
      else do {
        let word = word - 1;
        word_bits \<leftarrow> vget bm (unat word);
        prev_scan bm word word_bits
      })"

definition find_prev_set_bit :: "u64 list \<Rightarrow> u32 \<Rightarrow> u32 option" where
  "find_prev_set_bit bm start = do {
     let word = drop_bit 6 start;
     let b = start AND 63;
     let msk = drop_bit (63 - unat b) (NOT 0 :: u64);
     w \<leftarrow> vget bm (unat word);
     prev_scan bm word (w AND msk)
   }"

partial_function (option) next_scan :: "u64 list \<Rightarrow> u32 \<Rightarrow> u32 \<Rightarrow> u64 \<Rightarrow> u32 option" where
  "next_scan bm last_word word word_bits =
     (if word_bits \<noteq> 0 then Some (push_bit 6 word OR of_nat (ctzll word_bits))
      else if word = last_word then Some NULL_IDX
      else do {
        let word = word + 1;
        word_bits \<leftarrow> vget bm (unat word);
        next_scan bm last_word word word_bits
      })"

definition find_next_set_bit :: "u64 list \<Rightarrow> u32 \<Rightarrow> u32 option" where
  "find_next_set_bit bm start = do {
     let word = drop_bit 6 start;
     let b = start AND 63;
     let msk = push_bit (unat b) (NOT 0 :: u64);
     w \<leftarrow> vget bm (unat word);
     next_scan bm (of_nat (length bm) - 1) word (w AND msk)
   }"

declare prev_scan.simps [code] next_scan.simps [code]

text \<open>Setting and clearing the bit of a price index.\<close>

definition bit_set :: "u64 list \<Rightarrow> u32 \<Rightarrow> u64 list option" where
  "bit_set bm i = do {
     w \<leftarrow> vget bm (unat (drop_bit 6 i));
     vset bm (unat (drop_bit 6 i)) (w OR push_bit (unat (i AND 63)) 1)
   }"

definition bit_clear :: "u64 list \<Rightarrow> u32 \<Rightarrow> u64 list option" where
  "bit_clear bm i = do {
     w \<leftarrow> vget bm (unat (drop_bit 6 i));
     vset bm (unat (drop_bit 6 i)) (w AND NOT (push_bit (unat (i AND 63)) 1))
   }"

section \<open>The bitmap as a predicate\<close>

definition marked :: "u64 list \<Rightarrow> nat \<Rightarrow> bool" where
  "marked bm i \<longleftrightarrow> i < 64 * length bm \<and> bit (bm ! (i div 64)) (i mod 64)"

lemma unat_word_part: "unat (drop_bit 6 (i :: u32)) = unat i div 64"
  by (subst unat_drop_bit_eq) (simp add: drop_bit_eq_div)

lemma unat_bit_part: "unat ((i :: u32) AND 63) = unat i mod 64"
  using unat_and_mask [of i 6] by (simp add: mask_eq_exp_minus_1)

lemma div64_less: "i < 64 * n \<Longrightarrow> i div 64 < (n :: nat)"
  by (simp add: less_mult_imp_div_less mult.commute)

lemma bit_set_in:
  assumes "unat i < 64 * length bm"
  obtains bm' where "bit_set bm i = Some bm'" "length bm' = length bm"
    "marked bm' = (marked bm)(unat i := True)"
proof -
  let ?q = "unat i div 64" and ?r = "unat i mod 64"
  have q: "?q < length bm" using assms by (rule div64_less)
  let ?bm = "bm[?q := bm ! ?q OR push_bit ?r 1]"
  have "marked ?bm j = ((marked bm)(unat i := True)) j" for j
  proof (cases "j div 64 = ?q")
    case True
    then have "j = unat i \<longleftrightarrow> j mod 64 = ?r" by (metis div_mult_mod_eq)
    then show ?thesis using True q assms
      by (auto simp: marked_def bit_simps)
  qed (auto simp: marked_def)
  then show ?thesis using that [of ?bm] q
    by (simp add: bit_set_def unat_word_part unat_bit_part access_simps fun_eq_iff)
qed

lemma bit_clear_in:
  assumes "unat i < 64 * length bm"
  obtains bm' where "bit_clear bm i = Some bm'" "length bm' = length bm"
    "marked bm' = (marked bm)(unat i := False)"
proof -
  let ?q = "unat i div 64" and ?r = "unat i mod 64"
  have q: "?q < length bm" using assms by (rule div64_less)
  let ?bm = "bm[?q := bm ! ?q AND NOT (push_bit ?r 1)]"
  have "marked ?bm j = ((marked bm)(unat i := False)) j" for j
  proof (cases "j div 64 = ?q")
    case True
    then have "j = unat i \<longleftrightarrow> j mod 64 = ?r" by (metis div_mult_mod_eq)
    then show ?thesis using True q assms
      by (auto simp: marked_def bit_simps)
  qed (auto simp: marked_def)
  then show ?thesis using that [of ?bm] q
    by (simp add: bit_clear_def unat_word_part unat_bit_part access_simps fun_eq_iff)
qed

section \<open>Counting zeros\<close>

lemma ctzll_eq:
  assumes "bit (w :: u64) j" and "\<forall>i < j. \<not> bit w i"
  shows "ctzll w = j"
proof -
  have "j < 64" using bit_imp_le_length [OF assms(1)] by simp
  then have "[0..<64] = [0..<j] @ j # [Suc j..<64]"
    by (metis Suc_leI le_add1 less_imp_le upt_add_eq_append add.left_neutral
        le_add_diff_inverse upt_conv_Cons zero_le)
  then show ?thesis unfolding ctzll_def using assms by (simp add: takeWhile_append)
qed

lemma clzll_eq:
  assumes "bit (w :: u64) j" and "\<forall>i. j < i \<longrightarrow> \<not> bit w i"
  shows "63 - clzll w = j"
proof -
  have j: "j < 64" using bit_imp_le_length [OF assms(1)] by simp
  then have "[0..<64] = [0..<j] @ j # [Suc j..<64]"
    by (metis Suc_leI le_add1 less_imp_le upt_add_eq_append add.left_neutral
        le_add_diff_inverse upt_conv_Cons zero_le)
  then have "rev [0..<64] = rev [Suc j..<64] @ j # rev [0..<j]" by simp
  then have "clzll w = 63 - j" unfolding clzll_def using assms by (simp add: takeWhile_append)
  then show ?thesis using j by simp
qed

lemma join_parts:
  assumes "unat w < 67108864" and "b < 64"
  shows "push_bit 6 (w :: u32) OR of_nat b = of_nat (64 * unat w + b)"
proof -
  have "push_bit 6 w OR of_nat b = push_bit 6 w + of_nat b"
  proof (rule disjunctive_add [symmetric])
    fix n
    have "\<not> bit (of_nat b :: u32) n" if "6 \<le> n"
    proof -
      have "b < 2 ^ n" using assms(2) power_increasing [OF that, of "2 :: nat"] by simp
      then have "\<not> bit b n" by (simp add: bit_iff_odd)
      then show ?thesis by (simp add: bit_of_nat_iff)
    qed
    then show "\<not> bit (push_bit 6 w) n \<or> \<not> bit (of_nat b :: u32) n"
      by (auto simp: bit_simps)
  qed
  then show ?thesis by (simp add: push_bit_eq_mult)
qed

section \<open>The scans agree with a walk over positions\<close>

fun walk_down :: "(nat \<Rightarrow> bool) \<Rightarrow> nat \<Rightarrow> nat option" where
  "walk_down P 0 = (if P 0 then Some 0 else None)"
| "walk_down P (Suc n) = (if P (Suc n) then Some (Suc n) else walk_down P n)"

text \<open>\<open>walk_up P i n\<close> tries \<open>i\<close>, \<open>i + 1\<close>, and so on, \<open>n\<close> positions in all.\<close>

fun walk_up :: "(nat \<Rightarrow> bool) \<Rightarrow> nat \<Rightarrow> nat \<Rightarrow> nat option" where
  "walk_up P i 0 = None"
| "walk_up P i (Suc n) = (if P i then Some i else walk_up P (Suc i) n)"

lemma walk_down_Some: "walk_down P n = Some j \<longleftrightarrow> j \<le> n \<and> P j \<and> (\<forall>i. j < i \<and> i \<le> n \<longrightarrow> \<not> P i)"
  by (induction n) (auto simp: le_Suc_eq)

lemma walk_down_None: "walk_down P n = None \<longleftrightarrow> (\<forall>i \<le> n. \<not> P i)"
  by (induction n) (auto simp: le_Suc_eq)

lemma walk_up_Some:
  "walk_up P a n = Some j \<longleftrightarrow> a \<le> j \<and> j < a + n \<and> P j \<and> (\<forall>i. a \<le> i \<and> i < j \<longrightarrow> \<not> P i)"
proof (induction n arbitrary: a)
  case (Suc n)
  show ?case
  proof (cases "P a")
    case True
    have "a \<le> j \<and> (\<forall>i. a \<le> i \<and> i < j \<longrightarrow> \<not> P i) \<longrightarrow> j = a"
      using True by (metis le_neq_implies_less order_refl)
    then show ?thesis using True by auto
  next
    case False
    then have "a \<le> i \<and> P i \<longleftrightarrow> Suc a \<le> i \<and> P i" for i
      by (metis Suc_leD Suc_leI le_neq_implies_less)
    then show ?thesis using False Suc.IH [of "Suc a"] by (metis add_Suc_shift walk_up.simps(2))
  qed
qed simp

lemma walk_up_None: "walk_up P a n = None \<longleftrightarrow> (\<forall>i. a \<le> i \<and> i < a + n \<longrightarrow> \<not> P i)"
proof (induction n arbitrary: a)
  case (Suc n)
  have "(\<forall>i. a \<le> i \<and> i < a + Suc n \<longrightarrow> \<not> P i) \<longleftrightarrow>
      \<not> P a \<and> (\<forall>i. Suc a \<le> i \<and> i < Suc a + n \<longrightarrow> \<not> P i)"
    by (metis Suc_leD Suc_leI add_Suc add_Suc_right le_neq_implies_less lessI less_add_Suc1 order_refl)
  then show ?case using Suc.IH [of "Suc a"] by simp
qed (auto simp: not_less)

definition idx_of :: "nat option \<Rightarrow> u32" where
  "idx_of x = (case x of None \<Rightarrow> NULL_IDX | Some j \<Rightarrow> of_nat j)"

lemma idx_of_simps [simp]: "idx_of None = NULL_IDX" "idx_of (Some j) = of_nat j"
  by (simp_all add: idx_of_def)

lemma walk_down_skip:
  "a \<le> n \<Longrightarrow> \<forall>i. a < i \<and> i \<le> n \<longrightarrow> \<not> P i \<Longrightarrow> walk_down P n = walk_down P a"
proof (induction n)
  case (Suc n)
  then show ?case by (cases "a = Suc n") auto
qed simp

lemma walk_up_skip:
  "\<forall>i. a \<le> i \<and> i < a + k \<longrightarrow> \<not> P i \<Longrightarrow> walk_up P a (k + n) = walk_up P (a + k) n"
proof (induction k arbitrary: a)
  case (Suc k)
  then show ?case using Suc.IH [of "Suc a"] by simp
qed simp

text \<open>A nonzero word answers the scan from its own bits.\<close>

lemma prev_scan_hit:
  assumes "wb \<noteq> 0" and "unat w < 67108864"
    and P: "\<forall>i < 64. bit wb i \<longleftrightarrow> P (64 * unat w + i)"
  shows "prev_scan bm w wb = Some (idx_of (walk_down P (64 * unat w + 63)))"
proof -
  let ?S = "{i. bit wb i}"
  have fin: "finite ?S" by (rule finite_subset [of _ "{..<64}"]) (auto dest: bit_imp_le_length)
  have ne: "?S \<noteq> {}" using assms(1) by (auto simp: bit_eq_iff)
  have j: "bit wb (Max ?S)" using Max_in [OF fin ne] by simp
  have j': "\<forall>i. Max ?S < i \<longrightarrow> \<not> bit wb i"
    using Max_ge [OF fin] leD by blast
  have j64: "Max ?S < 64" using bit_imp_le_length [OF j] by simp
  have "walk_down P (64 * unat w + 63) = Some (64 * unat w + Max ?S)"
    unfolding walk_down_Some
  proof (intro conjI allI impI)
    fix i assume "64 * unat w + Max ?S < i \<and> i \<le> 64 * unat w + 63"
    then have "i = 64 * unat w + (i - 64 * unat w)" "Max ?S < i - 64 * unat w"
      "i - 64 * unat w < 64" by auto
    then show "\<not> P i" using P j' by metis
  next
    show "64 * unat w + Max ?S \<le> 64 * unat w + 63" "P (64 * unat w + Max ?S)"
      using P j j64 by simp_all
  qed
  then show ?thesis
    using clzll_eq [OF j j'] join_parts [OF assms(2) j64] assms(1)
    by (subst prev_scan.simps) simp
qed

lemma next_scan_hit:
  assumes "wb \<noteq> 0" and "unat w < 67108864"
    and P: "\<forall>i < 64. bit wb i \<longleftrightarrow> P (64 * unat w + i)"
  shows "next_scan bm l w wb = Some (idx_of (walk_up P (64 * unat w) (64 + n)))"
proof -
  obtain i where "bit wb i" using assms(1) by (auto simp: bit_eq_iff)
  then obtain j where j: "bit wb j" "\<forall>i < j. \<not> bit wb i"
    by (metis LeastI not_less_Least)
  then have j64: "j < 64" using bit_imp_le_length [OF j(1)] by simp
  have "walk_up P (64 * unat w) (64 + n) = Some (64 * unat w + j)"
    unfolding walk_up_Some
  proof (intro conjI allI impI)
    fix i assume "64 * unat w \<le> i \<and> i < 64 * unat w + j"
    then have "i = 64 * unat w + (i - 64 * unat w)" "i - 64 * unat w < j" by auto
    then show "\<not> P i" using P j(2) j64 by (metis less_trans)
  next
    show "64 * unat w \<le> 64 * unat w + j" "64 * unat w + j < 64 * unat w + (64 + n)"
      "P (64 * unat w + j)"
      using P j(1) j64 by simp_all
  qed
  then show ?thesis
    using ctzll_eq [OF j] join_parts [OF assms(2) j64] assms(1)
    by (subst next_scan.simps) simp
qed

text \<open>The words below the current one hold the positions below \<open>64 * word\<close>.\<close>

lemma prev_scan_walk:
  assumes "unat w < length bm" and "length bm \<le> 67108864"
    and "\<forall>i < 64. bit wb i \<longleftrightarrow> P (64 * unat w + i)"
    and "\<forall>v < unat w. \<forall>i < 64. bit (bm ! v) i \<longleftrightarrow> P (64 * v + i)"
  shows "prev_scan bm w wb = Some (idx_of (walk_down P (64 * unat w + 63)))"
  using assms
proof (induction "unat w" arbitrary: w wb)
  case 0
  then have w: "w = 0" by (metis unat_eq_zero)
  show ?case
  proof (cases "wb = 0")
    case True
    have none: "walk_down P (64 * unat w + 63) = None"
      unfolding walk_down_None using 0 True by (auto simp: w less_Suc_eq_le)
    show ?thesis unfolding none using True w by (subst prev_scan.simps) simp
  next
    case False
    then show ?thesis using prev_scan_hit [OF False, of w P] 0 by simp
  qed
next
  case (Suc u)
  show ?case
  proof (cases "wb = 0")
    case False
    then show ?thesis using prev_scan_hit [OF False, of w P] Suc.prems by simp
  next
    case True
    have w0: "w \<noteq> 0" using Suc.hyps(2) by auto
    then have u: "unat (w - 1) = u" using Suc.hyps(2) by (simp add: unat_minus_one)
    have "prev_scan bm (w - 1) (bm ! u) = Some (idx_of (walk_down P (64 * unat (w - 1) + 63)))"
      using Suc.prems Suc.hyps(2) u by (intro Suc.hyps(1)) auto
    moreover have "\<not> P i" if "64 * u + 63 < i" "i \<le> 64 * Suc u + 63" for i
    proof -
      have "i = 64 * unat w + (i - 64 * unat w)" "i - 64 * unat w < 64"
        using that Suc.hyps(2) by auto
      then show ?thesis using Suc.prems(3) True by (metis bit_0_eq bot_apply bot_bool_def)
    qed
    then have "walk_down P (64 * Suc u + 63) = walk_down P (64 * u + 63)"
      by (intro walk_down_skip) auto
    ultimately show ?thesis
      using True w0 u Suc.hyps(2) Suc.prems(1)
      by (subst prev_scan.simps) (simp add: access_simps Let_def)
  qed
qed

lemma next_scan_walk:
  assumes "unat w + k = length bm - 1" and "bm \<noteq> []" and "length bm \<le> 67108864"
    and "\<forall>i < 64. bit wb i \<longleftrightarrow> P (64 * unat w + i)"
    and "\<forall>v. unat w < v \<and> v < length bm \<longrightarrow> (\<forall>i < 64. bit (bm ! v) i \<longleftrightarrow> P (64 * v + i))"
  shows "next_scan bm (of_nat (length bm) - 1) w wb =
    Some (idx_of (walk_up P (64 * unat w) (64 * (length bm - unat w))))"
  using assms
proof (induction k arbitrary: w wb)
  case 0
  have n: "length bm - unat w = 1" "0 < length bm" using 0 by (cases bm; auto)+
  have wl: "w = of_nat (length bm) - 1"
  proof -
    have "of_nat (unat w) = (of_nat (length bm - 1) :: u32)" using 0(1) by simp
    then show ?thesis using n(2) by (simp add: of_nat_diff)
  qed
  have n': "64 * (length bm - unat w) = 64" using n by simp
  show ?case
  proof (cases "wb = 0")
    case True
    have none: "walk_up P (64 * unat w) 64 = None"
      unfolding walk_up_None
    proof (intro allI impI)
      fix i assume "64 * unat w \<le> i \<and> i < 64 * unat w + 64"
      then have "i = 64 * unat w + (i - 64 * unat w)" "i - 64 * unat w < 64" by auto
      then show "\<not> P i" using 0(4) True by (metis bit_0_eq bot_apply bot_bool_def)
    qed
    show ?thesis unfolding n' none using True wl by (subst next_scan.simps) simp
  next
    case False
    then show ?thesis unfolding n'
      using next_scan_hit [OF False, of w P bm "of_nat (length bm) - 1" 0] 0 n by simp
  qed
next
  case (Suc k)
  have lt: "Suc (unat w) < length bm" using Suc.prems by linarith
  have sp: "64 * (length bm - unat w) = 64 + 64 * (length bm - Suc (unat w))" using lt by simp
  show ?case
  proof (cases "wb = 0")
    case False
    then show ?thesis unfolding sp using next_scan_hit [OF False, of w P] Suc.prems(3,4) lt by simp
  next
    case True
    have u: "unat (w + 1) = Suc (unat w)"
      using lt Suc.prems(3) by (simp add: unat_plus_if' )
    have nl: "w \<noteq> of_nat (length bm) - 1"
    proof
      assume "w = of_nat (length bm) - 1"
      then have "unat (w + 1) = unat (of_nat (length bm) :: u32)" by simp
      then show False using u lt Suc.prems(3) by (simp add: unat_of_nat_u32)
    qed
    have "next_scan bm (of_nat (length bm) - 1) (w + 1) (bm ! Suc (unat w)) =
        Some (idx_of (walk_up P (64 * unat (w + 1)) (64 * (length bm - unat (w + 1)))))"
      using Suc.prems u lt by (intro Suc.IH) auto
    moreover have "walk_up P (64 * unat w) (64 + 64 * (length bm - Suc (unat w))) =
        walk_up P (64 * unat w + 64) (64 * (length bm - Suc (unat w)))"
    proof (rule walk_up_skip, intro allI impI)
      fix i assume "64 * unat w \<le> i \<and> i < 64 * unat w + 64"
      then have "i = 64 * unat w + (i - 64 * unat w)" "i - 64 * unat w < 64" by auto
      then show "\<not> P i" using Suc.prems(4) True by (metis bit_0_eq bot_apply bot_bool_def)
    qed
    ultimately show ?thesis unfolding sp using True nl u lt
      by (subst next_scan.simps) (simp add: access_simps Let_def add.commute)
  qed
qed

lemma walk_down_cong: "\<forall>i \<le> n. P i = Q i \<Longrightarrow> walk_down P n = walk_down Q n"
  by (induction n) auto

lemma walk_up_cong:
  "\<forall>i. a \<le> i \<and> i < a + n \<longrightarrow> P i = Q i \<Longrightarrow> walk_up P a n = walk_up Q a n"
  by (induction n arbitrary: a) auto

lemma find_prev_walk:
  assumes "unat start < 64 * length bm" and "length bm \<le> 67108864"
  shows "find_prev_set_bit bm start = Some (idx_of (walk_down (marked bm) (unat start)))"
proof -
  let ?W = "unat start div 64" and ?r = "unat start mod 64"
  let ?P = "\<lambda>i. marked bm i \<and> i \<le> unat start"
  let ?wb = "bm ! ?W AND drop_bit (63 - ?r) (NOT 0 :: u64)"
  have W: "?W < length bm" using assms(1) by (rule div64_less)
  have st: "unat start = 64 * ?W + ?r" by simp
  have "bit ?wb i \<longleftrightarrow> ?P (64 * ?W + i)" if "i < 64" for i
  proof -
    have "bit ?wb i \<longleftrightarrow> bit (bm ! ?W) i \<and> i \<le> ?r"
      using that by (auto simp: bit_simps)
    moreover have "64 * ?W + i \<le> unat start \<longleftrightarrow> i \<le> ?r"
      by (rule iffI; use st in linarith)
    ultimately show ?thesis using that W by (simp add: marked_def)
  qed
  moreover have "bit (bm ! v) i \<longleftrightarrow> ?P (64 * v + i)" if "v < ?W" "i < 64" for v i
  proof -
    have "64 * v + i \<le> unat start" using that by (subst st) linarith
    then show ?thesis using that W by (simp add: marked_def)
  qed
  ultimately have "prev_scan bm (drop_bit 6 start) ?wb = Some (idx_of (walk_down ?P (64 * ?W + 63)))"
    using prev_scan_walk [of "drop_bit 6 start" bm ?wb ?P] W assms(2)
    by (simp add: unat_word_part)
  moreover have "walk_down ?P (64 * ?W + 63) = walk_down ?P (unat start)"
  proof (rule walk_down_skip)
    have "?r < 64" by simp
    then show "unat start \<le> 64 * ?W + 63" by (subst st) linarith
  qed auto
  moreover have "walk_down ?P (unat start) = walk_down (marked bm) (unat start)"
    by (rule walk_down_cong) simp
  ultimately show ?thesis
    using W by (simp add: find_prev_set_bit_def Let_def unat_word_part unat_bit_part access_simps)
qed

lemma find_next_walk:
  assumes "unat start < 64 * length bm" and "length bm \<le> 67108864"
  shows "find_next_set_bit bm start =
    Some (idx_of (walk_up (marked bm) (unat start) (64 * length bm - unat start)))"
proof -
  let ?W = "unat start div 64" and ?r = "unat start mod 64" and ?n = "length bm"
  let ?P = "\<lambda>i. marked bm i \<and> unat start \<le> i"
  let ?wb = "bm ! ?W AND push_bit ?r (NOT 0 :: u64)"
  have W: "?W < ?n" using assms(1) by (rule div64_less)
  then have ne: "bm \<noteq> []" by auto
  have st: "unat start = 64 * ?W + ?r" by simp
  have "bit ?wb i \<longleftrightarrow> ?P (64 * ?W + i)" if "i < 64" for i
  proof -
    have "bit ?wb i \<longleftrightarrow> bit (bm ! ?W) i \<and> ?r \<le> i"
      using that by (auto simp: bit_simps)
    moreover have "unat start \<le> 64 * ?W + i \<longleftrightarrow> ?r \<le> i"
      by (rule iffI; use st in linarith)
    ultimately show ?thesis using that W by (simp add: marked_def)
  qed
  moreover have "bit (bm ! v) i \<longleftrightarrow> ?P (64 * v + i)" if "?W < v" "v < ?n" "i < 64" for v i
  proof -
    have "?r < 64" by simp
    then have "unat start \<le> 64 * v + i" using that by (subst st) linarith
    then show ?thesis using that W by (simp add: marked_def)
  qed
  ultimately have "next_scan bm (of_nat ?n - 1) (drop_bit 6 start) ?wb =
      Some (idx_of (walk_up ?P (64 * ?W) (64 * (?n - ?W))))"
    using next_scan_walk [of "drop_bit 6 start" "?n - 1 - ?W" bm ?wb ?P] W ne assms(2)
    by (simp add: unat_word_part)
  moreover have "walk_up ?P (64 * ?W) (?r + (64 * ?n - unat start)) =
      walk_up ?P (64 * ?W + ?r) (64 * ?n - unat start)"
    by (rule walk_up_skip) auto
  moreover have "?r + (64 * ?n - unat start) = 64 * (?n - ?W)"
    unfolding diff_mult_distrib2 using assms(1) st by linarith
  moreover have "walk_up ?P (unat start) (64 * ?n - unat start) =
      walk_up (marked bm) (unat start) (64 * ?n - unat start)"
    by (rule walk_up_cong) simp
  ultimately show ?thesis
    using W by (simp add: find_next_set_bit_def Let_def unat_word_part unat_bit_part access_simps)
qed


section \<open>Properties\<close>

lemma idx_of_null:
  assumes "\<And>j. x = Some j \<Longrightarrow> j < 4294967295"
  shows "idx_of x = NULL_IDX \<longleftrightarrow> x = None" "x = Some j \<Longrightarrow> unat (idx_of x) = j"
  using assms by (cases x; auto simp: index_simps unat_of_nat)+

text \<open>
  C28: from a start bit inside the bitmap, the word-wise downward scan returns, and its answer is
  the greatest set bit at or below the start, or the null index when there is none.
\<close>

theorem find_prev_is_greatest:
  assumes "unat start < 64 * length bm" and "length bm < 67108864"
  shows "\<exists>r. find_prev_set_bit bm start = Some r \<and>
    (if r = NULL_IDX then \<forall>i \<le> unat start. \<not> marked bm i
     else unat r \<le> unat start \<and> marked bm (unat r) \<and> (\<forall>i. unat r < i \<and> i \<le> unat start \<longrightarrow> \<not> marked bm i))"
proof -
  let ?w = "walk_down (marked bm) (unat start)"
  have b: "j < 4294967295" if "?w = Some j" for j
    using that assms unfolding walk_down_Some by linarith
  have i: "idx_of ?w = NULL_IDX \<longleftrightarrow> ?w = None" by (rule idx_of_null(1)) (rule b)
  have u: "unat (idx_of ?w) = j" if "?w = Some j" for j
    using that by (rule idx_of_null(2) [rotated]) (rule b)
  show ?thesis
  proof (cases ?w)
    case None
    then show ?thesis using find_prev_walk [of start bm] assms i
      by (simp add: walk_down_None [of "marked bm"])
  next
    case (Some j)
    then show ?thesis using find_prev_walk [of start bm] assms i u [OF Some] Some [unfolded walk_down_Some]
      by (intro exI [of _ "idx_of ?w"]) (simp only: if_False option.distinct if_not_P simp_thms, simp)
  qed
qed

theorem find_prev_is_greatest_witness:
  "find_prev_set_bit [18, 0] 70 = Some 4 \<and> marked [18, 0] 4 \<and> \<not> marked [18, 0] 63"
proof -
  have f: "find_prev_set_bit [18, 0] 70 = Some 4" by code_simp
  show ?thesis using find_prev_is_greatest [of 70 "[18, 0]"] by (simp add: f NULL_IDX_def)
qed

text \<open>
  C29: the word-wise upward scan returns the least set bit at or above its start, or the null
  index when there is none.
\<close>

theorem find_next_is_least:
  assumes "unat start < 64 * length bm" and "length bm < 67108864"
  shows "\<exists>r. find_next_set_bit bm start = Some r \<and>
    (if r = NULL_IDX then \<forall>i \<ge> unat start. \<not> marked bm i
     else unat start \<le> unat r \<and> marked bm (unat r) \<and> (\<forall>i. unat start \<le> i \<and> i < unat r \<longrightarrow> \<not> marked bm i))"
proof -
  let ?w = "walk_up (marked bm) (unat start) (64 * length bm - unat start)"
  have b: "j < 4294967295" if "?w = Some j" for j
    using that assms unfolding walk_up_Some by linarith
  have i: "idx_of ?w = NULL_IDX \<longleftrightarrow> ?w = None" by (rule idx_of_null(1)) (rule b)
  have u: "unat (idx_of ?w) = j" if "?w = Some j" for j
    using that by (rule idx_of_null(2) [rotated]) (rule b)
  have out: "\<not> marked bm k" if "64 * length bm \<le> k" for k
    using that div64_less [of k] by (auto simp: marked_def)
  show ?thesis
  proof (cases ?w)
    case None
    then have "\<not> marked bm k" if "unat start \<le> k" for k
      using that out [of k] assms(1) by (cases "k < 64 * length bm") (auto simp: walk_up_None)
    then show ?thesis using find_next_walk [of start bm] assms i None by simp
  next
    case (Some j)
    then show ?thesis using find_next_walk [of start bm] assms i u [OF Some] Some [unfolded walk_up_Some]
      by (intro exI [of _ "idx_of ?w"]) (simp only: if_False option.distinct if_not_P simp_thms, simp)
  qed
qed

theorem find_next_is_least_witness:
  "find_next_set_bit [18, 8] 5 = Some 67 \<and> marked [18, 8] 67 \<and> \<not> marked [18, 8] 40"
proof -
  have f: "find_next_set_bit [18, 8] 5 = Some 67" by code_simp
  show ?thesis using find_next_is_least [of 5 "[18, 8]"] by (simp add: f NULL_IDX_def)
qed

end
