(* ===== verification/Book_State.thy ===== *)
theory Book_State
  imports Order_Pool Id_Map Level_Bitmap
begin

text \<open>
  The state of \<open>OrderBook\<close> (\<open>src/core/OrderBook.hpp\<close>) and its private helpers in
  \<open>src/core/OrderBook.cpp\<close>: appending to and removing from a level's list, and the two
  top-of-book updates.  Members that come in a bid and an ask version are one field indexed
  by the side: \<open>levels b BUY\<close> is \<open>bids_\<close>, \<open>bitmap b SELL\<close> is \<open>ask_bitmap_\<close>, \<open>best b BUY\<close> is
  \<open>tob_.best_bid\<close>.  \<open>fills\<close> is the sequence of trades handed to \<open>logger_.enqueue_trade\<close>.
\<close>

section \<open>State\<close>

record order_book =
  best :: "side \<Rightarrow> price"
  best_qty :: "side \<Rightarrow> quantity"
  pool :: order_pool
  ids :: id_map
  fills :: "trade list"
  base :: price
  base_set :: bool
  live_order_count :: u32
  levels :: "side \<Rightarrow> price_level list"
  bitmap :: "side \<Rightarrow> u64 list"

definition BOOTSTRAP_REBASE_LIMIT :: u32 where
  "BOOTSTRAP_REBASE_LIMIT = 64"

text \<open>The size of \<open>bids_\<close> and \<open>asks_\<close>.\<close>

definition band :: "order_book \<Rightarrow> nat" where
  "band b = length (levels b BUY)"

definition book_new :: "nat \<Rightarrow> nat \<Rightarrow> order_book option" where
  "book_new price_band max_orders = do {
     p \<leftarrow> pool_new (of_nat max_orders);
     Some \<lparr>best = (\<lambda>_. NULL_IDX), best_qty = (\<lambda>_. 0), pool = p,
       ids = id_map_new (book_round_up_pow2 (of_nat max_orders * 2)), fills = [],
       base = 0, base_set = False, live_order_count = 0,
       levels = (\<lambda>_. replicate price_band new_level),
       bitmap = (\<lambda>_. replicate ((price_band + 63) div 64) 0)\<rparr>
   }"

text \<open>\<open>to_idx\<close> and \<open>in_band\<close>: \<open>long\<close> arithmetic on 32-bit prices does not overflow.\<close>

definition to_idx :: "order_book \<Rightarrow> price \<Rightarrow> int" where
  "to_idx b p = int (unat p) - int (unat (base b))"

definition in_band :: "order_book \<Rightarrow> int \<Rightarrow> bool" where
  "in_band b idx \<longleftrightarrow> 0 \<le> idx \<and> idx < int (band b)"

section \<open>Access to orders and levels\<close>

definition order_at :: "order_book \<Rightarrow> u32 \<Rightarrow> order option" where
  "order_at b i = pool_at (pool b) i"

definition upd_order :: "order_book \<Rightarrow> u32 \<Rightarrow> (order \<Rightarrow> order) \<Rightarrow> order_book option" where
  "upd_order b i f = do { p \<leftarrow> pool_upd (pool b) i f; Some (b\<lparr>pool := p\<rparr>) }"

definition level_at :: "order_book \<Rightarrow> side \<Rightarrow> price \<Rightarrow> price_level option" where
  "level_at b s i = vget (levels b s) (unat i)"

text \<open>\<open>bid_level\<close> and \<open>ask_level\<close>: a negative \<open>long\<close> index becomes a huge \<open>size_t\<close>.\<close>

definition level_of_price :: "order_book \<Rightarrow> side \<Rightarrow> price \<Rightarrow> price_level option" where
  "level_of_price b s p = (let i = to_idx b p in
     if i < 0 then None else vget (levels b s) (nat i))"

definition upd_level ::
  "order_book \<Rightarrow> side \<Rightarrow> price \<Rightarrow> (price_level \<Rightarrow> price_level) \<Rightarrow> order_book option" where
  "upd_level b s i f = do {
     l \<leftarrow> level_at b s i;
     ls \<leftarrow> vset (levels b s) (unat i) (f l);
     Some (b\<lparr>levels := (levels b)(s := ls)\<rparr>)
   }"

definition set_level_bit :: "order_book \<Rightarrow> side \<Rightarrow> price \<Rightarrow> order_book option" where
  "set_level_bit b s i = do {
     bm \<leftarrow> bit_set (bitmap b s) i; Some (b\<lparr>bitmap := (bitmap b)(s := bm)\<rparr>) }"

definition clear_level_bit :: "order_book \<Rightarrow> side \<Rightarrow> price \<Rightarrow> order_book option" where
  "clear_level_bit b s i = do {
     bm \<leftarrow> bit_clear (bitmap b s) i; Some (b\<lparr>bitmap := (bitmap b)(s := bm)\<rparr>) }"

section \<open>Level lists\<close>

text \<open>
  A \<open>PriceLevel&\<close> argument is the side and the index of the array element it refers to.  The
  code recognises a bid level by comparing addresses: \<open>&level == &bids_[price_idx]\<close>.
\<close>

definition is_bid_level :: "side \<Rightarrow> price \<Rightarrow> price \<Rightarrow> bool" where
  "is_bid_level s i price_idx \<longleftrightarrow> s = BUY \<and> i = price_idx"

definition level_append :: "order_book \<Rightarrow> side \<Rightarrow> price \<Rightarrow> u32 \<Rightarrow> order_book option" where
  "level_append b s i idx = do {
     l \<leftarrow> level_at b s i;
     b \<leftarrow> upd_order b idx (\<lambda>ord. ord\<lparr>prev_idx := tail_idx l, next_idx := NULL_IDX\<rparr>);
     ord \<leftarrow> order_at b idx;
     let price_idx = oprice ord;
     b \<leftarrow> (if level_empty l
          then do {
            b \<leftarrow> upd_level b s i (\<lambda>l. l\<lparr>head_idx := idx\<rparr>);
            (if is_bid_level s i price_idx then set_level_bit b BUY price_idx
             else set_level_bit b SELL price_idx)
          }
          else upd_order b (tail_idx l) (\<lambda>ord. ord\<lparr>next_idx := idx\<rparr>));
     upd_level b s i (\<lambda>l. l\<lparr>tail_idx := idx, total_volume := total_volume l + oqty ord,
       order_count := order_count l + 1\<rparr>)
   }"

definition level_remove :: "order_book \<Rightarrow> side \<Rightarrow> price \<Rightarrow> u32 \<Rightarrow> order_book option" where
  "level_remove b s i idx = do {
     ord \<leftarrow> order_at b idx;
     b \<leftarrow> (if prev_idx ord = NULL_IDX
          then upd_level b s i (\<lambda>l. l\<lparr>head_idx := next_idx ord\<rparr>)
          else upd_order b (prev_idx ord) (\<lambda>p. p\<lparr>next_idx := next_idx ord\<rparr>));
     ord \<leftarrow> order_at b idx;
     b \<leftarrow> (if next_idx ord = NULL_IDX
          then upd_level b s i (\<lambda>l. l\<lparr>tail_idx := prev_idx ord\<rparr>)
          else upd_order b (next_idx ord) (\<lambda>n. n\<lparr>prev_idx := prev_idx ord\<rparr>));
     ord \<leftarrow> order_at b idx;
     b \<leftarrow> upd_level b s i (\<lambda>l. l\<lparr>total_volume := total_volume l - oqty ord,
       order_count := order_count l - 1\<rparr>);
     l \<leftarrow> level_at b s i;
     b \<leftarrow> (if level_empty l
          then (if is_bid_level s i (oprice ord) then clear_level_bit b BUY (oprice ord)
                else clear_level_bit b SELL (oprice ord))
          else Some b);
     upd_order b idx (\<lambda>ord. ord\<lparr>next_idx := NULL_IDX, prev_idx := NULL_IDX\<rparr>)
   }"

section \<open>Top of book\<close>

definition set_best :: "order_book \<Rightarrow> side \<Rightarrow> price \<Rightarrow> quantity \<Rightarrow> order_book" where
  "set_best b s p v = b\<lparr>best := (best b)(s := p), best_qty := (best_qty b)(s := v)\<rparr>"

definition update_best_bid :: "order_book \<Rightarrow> order_book option" where
  "update_best_bid b = do {
     let start = (if best b BUY = NULL_IDX then of_nat (length (levels b BUY)) - 1 else best b BUY);
     nx \<leftarrow> find_prev_set_bit (bitmap b BUY) start;
     (if nx \<noteq> NULL_IDX
      then do { l \<leftarrow> level_at b BUY nx; Some (set_best b BUY nx (total_volume l)) }
      else Some (set_best b BUY NULL_IDX 0))
   }"

definition update_best_ask :: "order_book \<Rightarrow> order_book option" where
  "update_best_ask b = do {
     let start = (if unat (best b SELL) \<ge> length (levels b SELL) then 0 else best b SELL);
     nx \<leftarrow> find_next_set_bit (bitmap b SELL) start;
     (if nx \<noteq> NULL_IDX
      then do { l \<leftarrow> level_at b SELL nx; Some (set_best b SELL nx (total_volume l)) }
      else Some (set_best b SELL NULL_IDX 0))
   }"

section \<open>Id table, pool and counter\<close>

definition erase_id :: "order_book \<Rightarrow> order_id \<Rightarrow> order_book option" where
  "erase_id b k = do { m \<leftarrow> id_erase (ids b) k; Some (b\<lparr>ids := m\<rparr>) }"

definition free_slot :: "order_book \<Rightarrow> u32 \<Rightarrow> order_book option" where
  "free_slot b idx = do { p \<leftarrow> deallocate (pool b) idx; Some (b\<lparr>pool := p\<rparr>) }"

definition dec_live :: "order_book \<Rightarrow> order_book" where
  "dec_live b = (if live_order_count b > 0
     then b\<lparr>live_order_count := live_order_count b - 1\<rparr> else b)"

end
