(* ===== verification/Book_Links.thy ===== *)
theory Book_Links
  imports Book_State
begin

text \<open>
  The representation of the book's level queues.  \<open>links b q fl L\<close> says that the intrusive
  lists of \<open>b\<close> represent the queues \<open>q s i\<close> (side, relative price index), that \<open>fl\<close> is the
  free list, that \<open>L\<close> holds the slots in transit (allocated but on no list), that these parts
  cover the pool without overlap, and that the bitmaps mark exactly the non-empty levels.
  \<open>level_append\<close>, \<open>level_remove\<close>, \<open>allocate\<close> and \<open>deallocate\<close> are then moves of one slot
  between the parts.
\<close>

section \<open>Representation\<close>

type_synonym queues = "side \<Rightarrow> nat \<Rightarrow> u32 list"

definition ord :: "order_book \<Rightarrow> u32 \<Rightarrow> order" where
  "ord b x = slot (pool b) x"

definition shape :: "order_book \<Rightarrow> bool" where
  "shape b \<longleftrightarrow> 0 < band b \<and> band b \<le> 4294967295 \<and>
     (\<forall>s. length (levels b s) = band b \<and> length (bitmap b s) = (band b + 63) div 64)"

definition level_rep :: "order_pool \<Rightarrow> price_level \<Rightarrow> side \<Rightarrow> nat \<Rightarrow> u32 list \<Rightarrow> bool" where
  "level_rep p l s i xs \<longleftrightarrow>
     dseg (nxt p) (prv p) NULL_IDX (head_idx l) xs (tail_idx l) NULL_IDX \<and> distinct xs \<and>
     (\<forall>x \<in> set xs. unat x < pool_size p \<and> oside (slot p x) = s \<and> unat (oprice (slot p x)) = i) \<and>
     order_count l = of_nat (length xs)"

definition links :: "order_book \<Rightarrow> queues \<Rightarrow> u32 list \<Rightarrow> u32 set \<Rightarrow> bool" where
  "links b q fl L \<longleftrightarrow> shape b \<and> free_rep (pool b) fl \<and>
     (\<forall>s. \<forall>i < band b. level_rep (pool b) (levels b s ! i) s i (q s i)) \<and>
     (\<forall>s i. band b \<le> i \<longrightarrow> q s i = []) \<and>
     (\<forall>s i x. x \<in> set (q s i) \<longrightarrow> x \<notin> set fl \<and> x \<notin> L) \<and> set fl \<inter> L = {} \<and>
     (\<forall>x. unat x < pool_size (pool b) \<longleftrightarrow> x \<in> set fl \<or> x \<in> L \<or> (\<exists>s i. x \<in> set (q s i))) \<and>
     (\<forall>s. marked (bitmap b s) = (\<lambda>i. q s i \<noteq> []))"

definition qput :: "(side \<Rightarrow> nat \<Rightarrow> 'a) \<Rightarrow> side \<Rightarrow> nat \<Rightarrow> 'a \<Rightarrow> (side \<Rightarrow> nat \<Rightarrow> 'a)" where
  "qput q s i xs = q(s := (q s)(i := xs))"

lemma qput_at [simp]: "qput q s i xs s' i' = (if s' = s \<and> i' = i then xs else q s' i')"
  by (simp add: qput_def)

lemma qput_same [simp]: "qput q s i (q s i) = q"
  by (simp add: qput_def)

lemma qput_qput [simp]: "qput (qput q s i xs) s i ys = qput q s i ys"
  by (simp add: qput_def)

subsection \<open>Consequences\<close>

lemma shapeD:
  assumes "shape b"
  shows "length (levels b s) = band b" "length (bitmap b s) = (band b + 63) div 64"
    "0 < band b" "band b \<le> 4294967295" "length (bitmap b s) \<le> 67108864"
    "i < band b \<Longrightarrow> i < 64 * length (bitmap b s)"
  using assms by (auto simp: shape_def)

lemma linksD:
  assumes "links b q fl L"
  shows "shape b" "free_rep (pool b) fl" "pool_size (pool b) \<le> 4294967295"
    "i < band b \<Longrightarrow> level_rep (pool b) (levels b s ! i) s i (q s i)"
    "band b \<le> i \<Longrightarrow> q s i = []" "marked (bitmap b s) = (\<lambda>i. q s i \<noteq> [])"
  using assms by (auto simp: links_def free_rep_def)

lemma links_member:
  assumes "links b q fl L" and "x \<in> set (q s i)"
  shows "i < band b" "unat x < pool_size (pool b)" "x \<noteq> NULL_IDX" "oside (ord b x) = s"
    "unat (oprice (ord b x)) = i" "x \<notin> set fl" "x \<notin> L"
proof -
  show i: "i < band b" using linksD(5) [OF assms(1)] assms(2) by (metis empty_iff list.set(1) not_le)
  show x: "unat x < pool_size (pool b)" "oside (ord b x) = s" "unat (oprice (ord b x)) = i"
    using linksD(4) [OF assms(1) i, of s] assms(2) by (auto simp: level_rep_def ord_def)
  show "x \<noteq> NULL_IDX" using x(1) linksD(3) [OF assms(1)] by (auto simp: index_simps)
  show "x \<notin> set fl" "x \<notin> L" using assms unfolding links_def by blast+
qed

lemma links_unique_queue:
  assumes "links b q fl L" and "x \<in> set (q s i)" and "x \<in> set (q s' i')"
  shows "s' = s" "i' = i"
  using links_member [OF assms(1,2)] links_member [OF assms(1,3)] by auto

lemma links_limbo: "links b q fl L \<Longrightarrow> x \<in> L \<Longrightarrow> unat x < pool_size (pool b) \<and> x \<noteq> NULL_IDX"
  by (auto simp: links_def free_rep_def index_simps)

lemma links_head_empty:
  "links b q fl L \<Longrightarrow> i < band b \<Longrightarrow> level_empty (levels b s ! i) \<longleftrightarrow> q s i = []"
  using linksD(4) [of b q fl L i s] by (auto simp: level_rep_def level_empty_def dest: dseg_empty_iff)

section \<open>Frames\<close>

text \<open>The part of an order that is not a link.\<close>

definition data :: "order \<Rightarrow> order_id \<times> price \<times> quantity \<times> side" where
  "data ordr = (oid ordr, oprice ordr, oqty ordr, oside ordr)"

definition same_data :: "order_pool \<Rightarrow> order_pool \<Rightarrow> bool" where
  "same_data p p' \<longleftrightarrow> pool_size p' = pool_size p \<and> (\<forall>x. data (slot p' x) = data (slot p x))"

lemma same_dataD:
  assumes "same_data p p'"
  shows "pool_size p' = pool_size p" "oid (slot p' x) = oid (slot p x)"
    "oprice (slot p' x) = oprice (slot p x)" "oqty (slot p' x) = oqty (slot p x)"
    "oside (slot p' x) = oside (slot p x)"
  using assms by (auto simp: same_data_def data_def)

lemma same_data_refl [simp]: "same_data p p"
  by (simp add: same_data_def)

lemma same_data_trans: "same_data p p' \<Longrightarrow> same_data p' p'' \<Longrightarrow> same_data p p''"
  by (simp add: same_data_def)

lemma same_data_set_slot:
  "unat x < pool_size p \<Longrightarrow> data ordr = data (slot p x) \<Longrightarrow> same_data p (set_slot p x ordr)"
  by (simp add: same_data_def slot_set_slot)

lemma free_rep_frame:
  assumes "free_rep p fl" and "pool_size p' = pool_size p" and "free_head p' = free_head p"
    and "\<And>x. x \<in> set fl \<Longrightarrow> nxt p' x = nxt p x"
  shows "free_rep p' fl"
  using assms chain_frame [of fl "nxt p'" "nxt p"] by (simp add: free_rep_def)

lemma level_rep_frame:
  assumes "level_rep p l s i xs" and "same_data p p'"
    and "\<And>x. x \<in> set xs \<Longrightarrow> nxt p' x = nxt p x \<and> prv p' x = prv p x"
  shows "level_rep p' l s i xs"
  using assms dseg_frame [of xs "nxt p'" "nxt p" "prv p'" "prv p"]
  by (simp add: level_rep_def same_dataD)

text \<open>
  A step that rebuilds one level: it may write the links of that level's nodes and of slots
  in transit, and replaces the level record and the level's bit.
\<close>

lemma links_relink:
  assumes ln: "links b q fl L" and i: "i < band b"
    and fields: "b' = b\<lparr>pool := p', levels := (levels b)(s := (levels b s)[i := l']),
        bitmap := (bitmap b)(s := bm)\<rparr>"
    and pool: "same_data (pool b) p'" "free_head p' = free_head (pool b)"
    and other: "\<And>y. y \<notin> set (q s i) \<Longrightarrow> y \<notin> L \<Longrightarrow> nxt p' y = nxt (pool b) y \<and> prv p' y = prv (pool b) y"
    and lev: "level_rep p' l' s i xs" and bits: "length bm = length (bitmap b s)"
      "marked bm = (marked (bitmap b s))(i := xs \<noteq> [])"
    and parts: "set xs \<union> L' = set (q s i) \<union> L" "set xs \<inter> L' = {}"
  shows "links b' (qput q s i xs) fl L'"
proof -
  have sh: "shape b" by (rule linksD(1) [OF ln])
  have sz: "pool_size p' = pool_size (pool b)" using pool(1) by (simp add: same_dataD)
  have bd: "band b' = band b" by (simp add: fields band_def)
  have disj_fl: "y \<notin> set (q s i) \<and> y \<notin> L" if "y \<in> set fl" for y
    using that ln links_member(6) [OF ln, of y s i] by (auto simp: links_def)
  have disj_q: "y \<notin> set (q s i) \<and> y \<notin> L \<and> y \<notin> set fl"
    if "y \<in> set (q s' i')" "\<not> (s' = s \<and> i' = i)" for y s' i'
  proof -
    have "y \<notin> set (q s i)" using links_unique_queue [OF ln that(1), of s i] that(2) by metis
    then show ?thesis using links_member(6,7) [OF ln that(1)] by simp
  qed
  have "shape b'"
    using sh bits(1) unfolding shape_def bd by (simp add: fields)
  moreover have "free_rep p' fl"
    by (rule free_rep_frame [OF linksD(2) [OF ln] sz pool(2)]) (simp add: other disj_fl)
  moreover have "level_rep p' (levels b' s' ! i') s' i' (qput q s i xs s' i')" if "i' < band b" for s' i'
  proof (cases "s' = s \<and> i' = i")
    case True
    then show ?thesis using lev i shapeD(1) [OF sh] by (simp add: fields)
  next
    case False
    then have "levels b' s' ! i' = levels b s' ! i'"
      by (auto simp: fields)
    moreover have "level_rep p' (levels b s' ! i') s' i' (q s' i')"
      by (rule level_rep_frame [OF linksD(4) [OF ln that] pool(1)]) (use disj_q [OF _ False] in \<open>simp add: other\<close>)
    ultimately show ?thesis using False by auto
  qed
  moreover have "\<forall>s' i'. band b \<le> i' \<longrightarrow> qput q s i xs s' i' = []"
    using linksD(5) [OF ln] i by auto
  moreover have fl: "set fl \<inter> L' = {}" "set fl \<inter> set xs = {}"
    using parts(1) disj_fl by blast+
  moreover have "x \<notin> set fl \<and> x \<notin> L'" if "x \<in> set (qput q s i xs s' i')" for x s' i'
    using that fl parts disj_q [of x s' i'] by (auto split: if_splits)
  moreover have "unat x < pool_size (pool b) \<longleftrightarrow>
      x \<in> set fl \<or> x \<in> L' \<or> (\<exists>s' i'. x \<in> set (qput q s i xs s' i'))" for x
  proof -
    have "(\<exists>s' i'. x \<in> set (qput q s i xs s' i')) \<longleftrightarrow>
        x \<in> set xs \<or> (\<exists>s' i'. \<not> (s' = s \<and> i' = i) \<and> x \<in> set (q s' i'))"
      by auto
    moreover have "(\<exists>s' i'. x \<in> set (q s' i')) \<longleftrightarrow>
        x \<in> set (q s i) \<or> (\<exists>s' i'. \<not> (s' = s \<and> i' = i) \<and> x \<in> set (q s' i'))"
      by auto
    moreover have "unat x < pool_size (pool b) \<longleftrightarrow>
        x \<in> set fl \<or> x \<in> L \<or> (\<exists>s' i'. x \<in> set (q s' i'))"
      using ln by (simp add: links_def)
    ultimately show ?thesis using parts(1) by blast
  qed
  moreover have "marked (bitmap b' s') = (\<lambda>i'. qput q s i xs s' i' \<noteq> [])" for s'
    using bits(2) linksD(6) [OF ln] by (cases "s' = s") (auto simp: fields fun_eq_iff)
  ultimately show ?thesis
    unfolding links_def bd by (simp add: fields sz)
qed

section \<open>Primitive accesses under the representation\<close>

lemma order_at_in [access_simps]:
  "unat x < pool_size (pool b) \<Longrightarrow> order_at b x = Some (ord b x)"
  by (simp add: order_at_def ord_def access_simps)

lemma upd_order_in [access_simps]:
  "unat x < pool_size (pool b) \<Longrightarrow>
     upd_order b x f = Some (b\<lparr>pool := set_slot (pool b) x (f (ord b x))\<rparr>)"
  by (simp add: upd_order_def ord_def access_simps)

lemma level_at_in [access_simps]:
  "unat i < length (levels b s) \<Longrightarrow> level_at b s i = Some (levels b s ! unat i)"
  by (simp add: level_at_def access_simps)

lemma upd_level_in [access_simps]:
  "unat i < length (levels b s) \<Longrightarrow> upd_level b s i f =
     Some (b\<lparr>levels := (levels b)(s := (levels b s)[unat i := f (levels b s ! unat i)])\<rparr>)"
  by (simp add: upd_level_def access_simps)

text \<open>
  The visible effect of rebuilding a level: links, the level record and a bitmap change; the
  data of the orders, the level's price and everything else stay.
\<close>

definition relevel :: "order_book \<Rightarrow> side \<Rightarrow> nat \<Rightarrow> quantity \<Rightarrow> order_book \<Rightarrow> bool" where
  "relevel b s i v b' \<longleftrightarrow> (\<exists>p l bm. b' = b\<lparr>pool := p, levels := (levels b)(s := (levels b s)[i := l]),
       bitmap := bm\<rparr> \<and> same_data (pool b) p \<and> free_head p = free_head (pool b) \<and>
     lprice l = lprice (levels b s ! i) \<and> total_volume l = v)"

lemma relevelI:
  "b' = b\<lparr>pool := p, levels := (levels b)(s := (levels b s)[i := l]), bitmap := bm\<rparr> \<Longrightarrow>
     same_data (pool b) p \<Longrightarrow> free_head p = free_head (pool b) \<Longrightarrow>
     lprice l = lprice (levels b s ! i) \<Longrightarrow> total_volume l = v \<Longrightarrow> relevel b s i v b'"
  unfolding relevel_def by blast

lemma relevelD:
  assumes "relevel b s i v b'"
  shows "best b' = best b" "best_qty b' = best_qty b" "ids b' = ids b" "fills b' = fills b"
    "base b' = base b" "base_set b' = base_set b" "live_order_count b' = live_order_count b"
    "same_data (pool b) (pool b')" "band b' = band b" "length (levels b' s') = length (levels b s')"
    "i < length (levels b s) \<Longrightarrow> lprice (levels b' s' ! j) = lprice (levels b s' ! j)"
    "i < length (levels b s) \<Longrightarrow> total_volume (levels b' s' ! j) =
       (if s' = s \<and> j = i then v else total_volume (levels b s' ! j))"
  using assms unfolding relevel_def band_def by (auto simp: nth_list_update)

lemma relevel_ord:
  assumes "relevel b s i v b'"
  shows "oid (ord b' x) = oid (ord b x)" "oprice (ord b' x) = oprice (ord b x)"
    "oqty (ord b' x) = oqty (ord b x)" "oside (ord b' x) = oside (ord b x)"
  using same_dataD [OF relevelD(8) [OF assms]] by (simp_all add: ord_def)

section \<open>Appending\<close>

lemma level_rep_snoc_empty:
  assumes "unat x < pool_size p" and "oside (slot p x) = s" and "unat (oprice (slot p x)) = i"
    and "x \<noteq> NULL_IDX" and "order_count l = 0"
  shows "level_rep (set_slot p x ((slot p x)\<lparr>prev_idx := NULL_IDX, next_idx := NULL_IDX\<rparr>))
    (l\<lparr>head_idx := x, tail_idx := x, total_volume := v, order_count := order_count l + 1\<rparr>) s i [x]"
  using assms by (simp add: level_rep_def pool_simps dseg_snoc_empty)

lemma level_rep_snoc:
  assumes rep: "level_rep p l s i xs" and ne: "xs \<noteq> []"
    and x: "unat x < pool_size p" "oside (slot p x) = s" "unat (oprice (slot p x)) = i"
      "x \<noteq> NULL_IDX" "x \<notin> set xs"
  defines "p1 \<equiv> set_slot p x ((slot p x)\<lparr>prev_idx := tail_idx l, next_idx := NULL_IDX\<rparr>)"
  shows "level_rep (set_slot p1 (tail_idx l) ((slot p1 (tail_idx l))\<lparr>next_idx := x\<rparr>))
    (l\<lparr>tail_idx := x, total_volume := v, order_count := order_count l + 1\<rparr>) s i (xs @ [x])"
proof -
  let ?t = "tail_idx l"
  have seg: "dseg (nxt p) (prv p) NULL_IDX (head_idx l) xs ?t NULL_IDX" and d: "distinct xs"
    using rep by (auto simp: level_rep_def)
  have t: "?t \<in> set xs" using dseg_last_in [OF seg ne] ne by simp
  then have tp: "unat ?t < pool_size p" "?t \<noteq> x" using rep x by (auto simp: level_rep_def)
  have "dseg ((nxt p)(x := NULL_IDX, ?t := x)) ((prv p)(x := ?t)) NULL_IDX (head_idx l) (xs @ [x]) x NULL_IDX"
    by (rule dseg_snoc [OF seg ne x(5,4) d])
  moreover have "((prv p)(x := ?t))(?t := prv p ?t) = (prv p)(x := ?t)"
    using tp by (auto simp: fun_eq_iff)
  ultimately show ?thesis
    using rep x tp t unfolding level_rep_def p1_def
    by (simp add: pool_simps) (auto simp: prv_def)
qed

lemma level_append_links:
  assumes ln: "links b q fl L" and x: "x \<in> L" and o: "oside (ord b x) = s" "oprice (ord b x) = i"
    and i: "unat i < band b"
  obtains b' where "level_append b s i x = Some b'"
    "links b' (qput q s (unat i) (q s (unat i) @ [x])) fl (L - {x})"
    "relevel b s (unat i) (total_volume (levels b s ! unat i) + oqty (ord b x)) b'"
proof -
  let ?p = "pool b" and ?j = "unat i" and ?xs = "q s (unat i)"
  let ?l = "levels b s ! ?j"
  let ?p1 = "set_slot ?p x ((slot ?p x)\<lparr>prev_idx := tail_idx ?l, next_idx := NULL_IDX\<rparr>)"
  let ?v = "total_volume ?l + oqty (ord b x)"
  have sh: "shape b" by (rule linksD(1) [OF ln])
  have len: "?j < length (levels b s)" using i shapeD(1) [OF sh] by simp
  have xp: "unat x < pool_size ?p" "x \<noteq> NULL_IDX" using links_limbo [OF ln x] by auto
  have rep: "level_rep ?p ?l s ?j ?xs" by (rule linksD(4) [OF ln i])
  have xq: "x \<notin> set ?xs" using links_member(7) [OF ln] x by blast
  have em: "level_empty ?l \<longleftrightarrow> ?xs = []" by (rule links_head_empty [OF ln i])
  have os: "oside (slot ?p x) = s" "unat (oprice (slot ?p x)) = ?j" using o by (simp_all add: ord_def)
  have parts: "set (?xs @ [x]) \<union> (L - {x}) = set ?xs \<union> L" "set (?xs @ [x]) \<inter> (L - {x}) = {}"
    using x links_member(7) [OF ln] by auto
  show ?thesis
  proof (cases "?xs = []")
    case True
    have t: "tail_idx ?l = NULL_IDX" "order_count ?l = 0"
      using rep True by (auto simp: level_rep_def)
    obtain bm where bm: "bit_set (bitmap b s) i = Some bm" "length bm = length (bitmap b s)"
      "marked bm = (marked (bitmap b s))(?j := True)"
      using bit_set_in shapeD(6) [OF sh i] by blast
    let ?l' = "?l\<lparr>head_idx := x, tail_idx := x, total_volume := ?v, order_count := order_count ?l + 1\<rparr>"
    let ?b = "b\<lparr>pool := ?p1, levels := (levels b)(s := (levels b s)[?j := ?l']), bitmap := (bitmap b)(s := bm)\<rparr>"
    have same: "same_data ?p ?p1" by (rule same_data_set_slot [OF xp(1)]) (simp add: data_def)
    have "level_append b s i x = Some ?b"
      using len xp em True o bm(1) same_dataD(4) [OF same, of x] i
      by (cases s) (simp_all add: level_append_def access_simps ord_def pool_simps Let_def
          is_bid_level_def set_level_bit_def)
    moreover have "links ?b (qput q s ?j (?xs @ [x])) fl (L - {x})"
    proof (rule links_relink [OF ln i refl same])
      show "level_rep ?p1 ?l' s ?j (?xs @ [x])"
        using level_rep_snoc_empty [OF xp(1) os xp(2) t(2)] True t(1) by simp
    qed (use xp x bm parts in \<open>auto simp: pool_simps\<close>)
    moreover have "relevel b s ?j ?v ?b" by (rule relevelI [OF refl same]) simp_all
    ultimately show ?thesis using that by blast
  next
    case False
    let ?t = "tail_idx ?l"
    let ?p2 = "set_slot ?p1 ?t ((slot ?p1 ?t)\<lparr>next_idx := x\<rparr>)"
    let ?l' = "?l\<lparr>tail_idx := x, total_volume := ?v, order_count := order_count ?l + 1\<rparr>"
    let ?b = "b\<lparr>pool := ?p2, levels := (levels b)(s := (levels b s)[?j := ?l'])\<rparr>"
    have t: "?t \<in> set ?xs" using rep False dseg_last_in [of "nxt ?p"] by (fastforce simp: level_rep_def)
    then have tp: "unat ?t < pool_size ?p" using rep by (auto simp: level_rep_def)
    have "same_data ?p ?p1" by (rule same_data_set_slot [OF xp(1)]) (simp add: data_def)
    moreover have "same_data ?p1 ?p2" by (rule same_data_set_slot) (use tp in \<open>auto simp: data_def\<close>)
    ultimately have same: "same_data ?p ?p2" by (rule same_data_trans)
    have tx: "?t \<noteq> x" using t xq by auto
    have "level_append b s i x = Some ?b"
      using len xp em False o tp tx i
      by (simp add: level_append_def access_simps ord_def pool_simps Let_def)
    moreover have "links ?b (qput q s ?j (?xs @ [x])) fl (L - {x})"
    proof (rule links_relink [OF ln i _ same])
      show "?b = b\<lparr>pool := ?p2, levels := (levels b)(s := (levels b s)[?j := ?l']),
          bitmap := (bitmap b)(s := bitmap b s)\<rparr>" by simp
      show "level_rep ?p2 ?l' s ?j (?xs @ [x])"
        by (rule level_rep_snoc [OF rep False xp(1) os xp(2) xq])
      show "marked (bitmap b s) = (marked (bitmap b s))(?j := ?xs @ [x] \<noteq> [])"
        using linksD(6) [OF ln] False by (auto simp: fun_eq_iff)
    qed (use xp x tp t parts in \<open>auto simp: pool_simps\<close>)
    moreover have "relevel b s ?j ?v ?b"
      by (rule relevelI [where p = ?p2 and l = ?l' and bm = "bitmap b"]) (simp_all add: same)
    ultimately show ?thesis using that by blast
  qed
qed

section \<open>Removing\<close>

text \<open>
  The pool after \<open>level_remove\<close> has redirected the neighbours of \<open>x\<close> and reset its links,
  and the level record after the redirections.
\<close>

definition unlinked_pool :: "order_pool \<Rightarrow> u32 \<Rightarrow> order_pool" where
  "unlinked_pool p x =
     (let p1 = (if prv p x = NULL_IDX then p
                else set_slot p (prv p x) ((slot p (prv p x))\<lparr>next_idx := nxt p x\<rparr>));
          p2 = (if nxt p x = NULL_IDX then p1
                else set_slot p1 (nxt p x) ((slot p1 (nxt p x))\<lparr>prev_idx := prv p x\<rparr>))
      in set_slot p2 x ((slot p2 x)\<lparr>next_idx := NULL_IDX, prev_idx := NULL_IDX\<rparr>))"

definition unlinked_level :: "order_pool \<Rightarrow> u32 \<Rightarrow> price_level \<Rightarrow> price_level" where
  "unlinked_level p x l = l\<lparr>head_idx := unlink_head (nxt p) (prv p) (head_idx l) x,
     tail_idx := unlink_tail (nxt p) (prv p) (tail_idx l) x,
     total_volume := total_volume l - oqty (slot p x), order_count := order_count l - 1\<rparr>"

lemma dseg_neighbours:
  assumes "dseg nx pv NULL_IDX h (as @ x # bs) t NULL_IDX" and "distinct (as @ x # bs)"
  shows "pv x = NULL_IDX \<or> pv x \<in> set as" "nx x = NULL_IDX \<or> nx x \<in> set bs"
    "pv x \<noteq> x" "nx x \<noteq> x" "nx x \<noteq> NULL_IDX \<Longrightarrow> nx x \<noteq> pv x"
proof -
  obtain m where L: "dseg nx pv NULL_IDX h as m x" and x: "x \<noteq> NULL_IDX" "pv x = m"
    and R: "dseg nx pv x (nx x) bs t NULL_IDX"
    using assms(1) by (auto simp: dseg_append)
  have m: "as = [] \<and> m = NULL_IDX \<or> as \<noteq> [] \<and> m = last as"
    using L by (cases "as = []") (auto dest: dseg_last_in)
  then show p: "pv x = NULL_IDX \<or> pv x \<in> set as" using x by auto
  have n: "bs = [] \<and> nx x = NULL_IDX \<or> bs \<noteq> [] \<and> nx x = hd bs"
    using R by (cases bs) auto
  then show nn: "nx x = NULL_IDX \<or> nx x \<in> set bs" by auto
  show "pv x \<noteq> x" "nx x \<noteq> x" using p nn assms(2) x by auto
  show "nx x \<noteq> pv x" if "nx x \<noteq> NULL_IDX"
    using p nn assms(2) that by auto
qed

lemma set_link_views:
  assumes "unat y < pool_size p"
  shows "nxt (set_slot p y ((slot p y)\<lparr>prev_idx := v\<rparr>)) = nxt p"
    "prv (set_slot p y ((slot p y)\<lparr>prev_idx := v\<rparr>)) = (prv p)(y := v)"
    "nxt (set_slot p y ((slot p y)\<lparr>next_idx := v\<rparr>)) = (nxt p)(y := v)"
    "prv (set_slot p y ((slot p y)\<lparr>next_idx := v\<rparr>)) = prv p"
  using assms by (auto simp: pool_simps) (auto simp: nxt_def prv_def fun_eq_iff)

lemma unlinked_pool_views:
  assumes "unat x < pool_size p" and "prv p x = NULL_IDX \<or> unat (prv p x) < pool_size p"
    and "nxt p x = NULL_IDX \<or> unat (nxt p x) < pool_size p"
    and "prv p x \<noteq> x" and "nxt p x \<noteq> x" and "nxt p x \<noteq> NULL_IDX \<Longrightarrow> nxt p x \<noteq> prv p x"
  shows "same_data p (unlinked_pool p x)" "free_head (unlinked_pool p x) = free_head p"
    "nxt (unlinked_pool p x) = (unlink_next (nxt p) (prv p) x)(x := NULL_IDX)"
    "prv (unlinked_pool p x) = (unlink_prev (nxt p) (prv p) x)(x := NULL_IDX)"
proof -
  let ?p1 = "if prv p x = NULL_IDX then p
    else set_slot p (prv p x) ((slot p (prv p x))\<lparr>next_idx := nxt p x\<rparr>)"
  let ?p2 = "if nxt p x = NULL_IDX then ?p1
    else set_slot ?p1 (nxt p x) ((slot ?p1 (nxt p x))\<lparr>prev_idx := prv p x\<rparr>)"
  have s1: "same_data p ?p1"
    using assms(2) by (auto intro!: same_data_set_slot simp: data_def)
  have s2: "same_data ?p1 ?p2"
    using assms(3) same_dataD(1) [OF s1] by (auto intro!: same_data_set_slot simp: data_def)
  have up: "unlinked_pool p x = set_slot ?p2 x ((slot ?p2 x)\<lparr>next_idx := NULL_IDX, prev_idx := NULL_IDX\<rparr>)"
    by (simp add: unlinked_pool_def Let_def)
  have sz: "pool_size ?p1 = pool_size p" "pool_size ?p2 = pool_size p"
    using same_dataD(1) [OF s1] same_dataD(1) [OF s2] by simp_all
  have "same_data ?p2 (unlinked_pool p x)"
    unfolding up using assms(1) sz by (intro same_data_set_slot) (auto simp: data_def)
  then show "same_data p (unlinked_pool p x)"
    using s1 s2 same_data_trans by blast
  show "free_head (unlinked_pool p x) = free_head p" by (simp add: up)
  have n1: "nxt ?p1 = unlink_next (nxt p) (prv p) x" "prv ?p1 = prv p"
    using assms(2) by (auto simp: set_link_views unlink_next_def)
  have n2: "nxt ?p2 = unlink_next (nxt p) (prv p) x \<and> prv ?p2 = unlink_prev (nxt p) (prv p) x"
  proof (cases "nxt p x = NULL_IDX")
    case False
    then have "unat (nxt p x) < pool_size ?p1" using assms(3) sz(1) by simp
    from set_link_views [OF this, of "prv p x"] n1 False
    show ?thesis by (simp only: if_False if_True unlink_prev_def simp_thms)
  qed (simp_all add: n1 unlink_prev_def)
  show "nxt (unlinked_pool p x) = (unlink_next (nxt p) (prv p) x)(x := NULL_IDX)"
    "prv (unlinked_pool p x) = (unlink_prev (nxt p) (prv p) x)(x := NULL_IDX)"
    unfolding up using assms(1) sz(2) n2 by (simp_all add: pool_simps del: free_head_set_slot)
qed

lemma level_rep_unlink:
  assumes rep: "level_rep p l s i (as @ x # bs)"
    and bnd: "unat x < pool_size p" "pool_size p \<le> 4294967295"
  shows "level_rep (unlinked_pool p x) (unlinked_level p x l) s i (as @ bs)"
    and "prv p x = NULL_IDX \<or> prv p x \<in> set as" and "nxt p x = NULL_IDX \<or> nxt p x \<in> set bs"
    and "same_data p (unlinked_pool p x)" and "free_head (unlinked_pool p x) = free_head p"
    and "y \<notin> set (as @ x # bs) \<Longrightarrow>
      nxt (unlinked_pool p x) y = nxt p y \<and> prv (unlinked_pool p x) y = prv p y"
proof -
  have seg: "dseg (nxt p) (prv p) NULL_IDX (head_idx l) (as @ x # bs) (tail_idx l) NULL_IDX"
    and d: "distinct (as @ x # bs)" and mem: "\<forall>x \<in> set (as @ x # bs). unat x < pool_size p"
    and cnt: "order_count l = of_nat (length (as @ x # bs))"
    using rep by (auto simp: level_rep_def)
  note nb = dseg_neighbours [OF seg d]
  show nb1: "prv p x = NULL_IDX \<or> prv p x \<in> set as" and nb2: "nxt p x = NULL_IDX \<or> nxt p x \<in> set bs"
    using nb by auto
  have views: "same_data p (unlinked_pool p x)" "free_head (unlinked_pool p x) = free_head p"
    "nxt (unlinked_pool p x) = (unlink_next (nxt p) (prv p) x)(x := NULL_IDX)"
    "prv (unlinked_pool p x) = (unlink_prev (nxt p) (prv p) x)(x := NULL_IDX)"
    using unlinked_pool_views [OF bnd(1)] nb mem by auto
  then show "same_data p (unlinked_pool p x)" "free_head (unlinked_pool p x) = free_head p" by auto
  have "dseg (nxt (unlinked_pool p x)) (prv (unlinked_pool p x)) NULL_IDX
      (unlink_head (nxt p) (prv p) (head_idx l) x) (as @ bs)
      (unlink_tail (nxt p) (prv p) (tail_idx l) x) NULL_IDX"
    unfolding views using dseg_unlink [OF seg d] d by (subst dseg_frame) auto
  then show "level_rep (unlinked_pool p x) (unlinked_level p x l) s i (as @ bs)"
    using rep same_dataD [OF views(1)] cnt by (auto simp: level_rep_def unlinked_level_def)
  show "nxt (unlinked_pool p x) y = nxt p y \<and> prv (unlinked_pool p x) y = prv p y"
    if "y \<notin> set (as @ x # bs)"
    using that nb1 nb2 views(3,4) by (auto simp: unlink_next_def unlink_prev_def)
qed

lemma level_remove_links:
  assumes ln: "links b q fl L" and qx: "q s (unat i) = as @ x # bs" and o: "oprice (ord b x) = i"
  obtains b' where "level_remove b s i x = Some b'"
    "links b' (qput q s (unat i) (as @ bs)) fl (insert x L)"
    "relevel b s (unat i) (total_volume (levels b s ! unat i) - oqty (ord b x)) b'"
proof -
  let ?p = "pool b" and ?j = "unat i"
  let ?l = "levels b s ! ?j"
  let ?p' = "unlinked_pool ?p x" and ?l' = "unlinked_level ?p x ?l"
  have sh: "shape b" by (rule linksD(1) [OF ln])
  have xq: "x \<in> set (q s ?j)" using qx by simp
  note mx = links_member [OF ln xq]
  have i: "?j < band b" by (rule mx(1))
  have len: "?j < length (levels b s)" using i shapeD(1) [OF sh] by simp
  have rep: "level_rep ?p ?l s ?j (as @ x # bs)" using linksD(4) [OF ln i, of s] qx by simp
  note un = level_rep_unlink [OF rep mx(2) linksD(3) [OF ln]]
  have bnd: "unat (prv ?p x) < pool_size ?p" if "prv ?p x \<noteq> NULL_IDX"
    using un(2) that rep by (auto simp: level_rep_def)
  have bnd': "unat (nxt ?p x) < pool_size ?p" if "nxt ?p x \<noteq> NULL_IDX"
    using un(3) that rep by (auto simp: level_rep_def)
  have d: "distinct (as @ x # bs)" using rep by (simp add: level_rep_def)
  have nx: "prv ?p x \<noteq> x" "nxt ?p x \<noteq> x" "nxt ?p x \<noteq> NULL_IDX \<Longrightarrow> nxt ?p x \<noteq> prv ?p x"
    using dseg_neighbours(3-5) [of "nxt ?p" "prv ?p" "head_idx ?l" as x bs "tail_idx ?l"] rep
    by (auto simp: level_rep_def)
  have seg': "dseg (nxt ?p') (prv ?p') NULL_IDX (head_idx ?l') (as @ bs) (tail_idx ?l') NULL_IDX"
    using un(1) by (simp add: level_rep_def)
  have em: "level_empty ?l' \<longleftrightarrow> as @ bs = []"
    using dseg_empty_iff [OF seg'] by (simp add: level_empty_def)
  obtain bm where bm: "bit_clear (bitmap b s) i = Some bm" "length bm = length (bitmap b s)"
    "marked bm = (marked (bitmap b s))(?j := False)"
    using bit_clear_in shapeD(6) [OF sh i] by blast
  let ?bm = "if as @ bs = [] then bm else bitmap b s"
  let ?b = "b\<lparr>pool := ?p', levels := (levels b)(s := (levels b s)[?j := ?l']),
      bitmap := (bitmap b)(s := ?bm)\<rparr>"
  have f: "prev_idx (slot ?p x) = prv ?p x" "next_idx (slot ?p x) = nxt ?p x"
    by (simp_all add: prv_def nxt_def)
  have run: "level_remove b s i x = Some ?b"
  proof -
    have em': "level_empty (?l\<lparr>head_idx := h, tail_idx := t, total_volume := v, order_count := c\<rparr>) \<longleftrightarrow>
        h = NULL_IDX" for h t v c by (simp add: level_empty_def)
    have hd: "unlink_head (nxt ?p) (prv ?p) (head_idx ?l) x = NULL_IDX \<longleftrightarrow> as @ bs = []"
      using em by (simp add: level_empty_def unlinked_level_def)
    have clr: "is_bid_level s i i \<Longrightarrow> clear_level_bit B BUY i = Some (B\<lparr>bitmap := (bitmap b)(s := bm)\<rparr>)"
      "\<not> is_bid_level s i i \<Longrightarrow> clear_level_bit B SELL i = Some (B\<lparr>bitmap := (bitmap b)(s := bm)\<rparr>)"
      if "bitmap B = bitmap b" for B
      using bm(1) that by (cases s; simp add: is_bid_level_def clear_level_bit_def)+
    have o': "oprice (slot ?p x) = i" using o by (simp add: ord_def)
    note s0 = level_remove_def access_simps ord_def f o' Let_def pool_simps len mx(2)
      unlinked_pool_def unlinked_level_def
    consider "prv ?p x = NULL_IDX" "nxt ?p x = NULL_IDX" | "prv ?p x = NULL_IDX" "nxt ?p x \<noteq> NULL_IDX"
      | "prv ?p x \<noteq> NULL_IDX" "nxt ?p x = NULL_IDX" | "prv ?p x \<noteq> NULL_IDX" "nxt ?p x \<noteq> NULL_IDX"
      by blast
    then show ?thesis
    proof cases
      case 1
      then show ?thesis using hd
        by (simp add: s0 clr level_empty_def unlink_head_def unlink_tail_def)
    next
      case 2
      then have ne: "as @ bs \<noteq> []" using un(2,3) by auto
      with 2 show ?thesis unfolding if_not_P [OF ne] using nx bnd'
        by (simp add: s0 clr level_empty_def unlink_head_def unlink_tail_def)
    next
      case 3
      then have ne: "as @ bs \<noteq> []" using un(2,3) by auto
      then have "head_idx ?l \<noteq> NULL_IDX" using hd 3 by (simp add: unlink_head_def)
      with 3 show ?thesis unfolding if_not_P [OF ne] using nx bnd
        by (simp add: s0 clr level_empty_def unlink_head_def unlink_tail_def)
    next
      case 4
      then have ne: "as @ bs \<noteq> []" using un(2,3) by auto
      then have "head_idx ?l \<noteq> NULL_IDX" using hd 4 by (simp add: unlink_head_def)
      with 4 show ?thesis unfolding if_not_P [OF ne] using nx bnd bnd'
        by (simp add: s0 clr level_empty_def unlink_head_def unlink_tail_def)
    qed
  qed
  have "links ?b (qput q s ?j (as @ bs)) fl (insert x L)"
  proof (rule links_relink [OF ln i refl un(4,5)])
    show "level_rep ?p' ?l' s ?j (as @ bs)" by (rule un(1))
    show "set (as @ bs) \<union> insert x L = set (q s ?j) \<union> L" using qx by auto
    have "\<forall>y \<in> set (q s ?j). y \<notin> L" using links_member(7) [OF ln] by blast
    then show "set (as @ bs) \<inter> insert x L = {}" using d qx by auto
    show "marked ?bm = (marked (bitmap b s))(?j := as @ bs \<noteq> [])"
      using bm(3) linksD(6) [OF ln] qx by (auto simp: fun_eq_iff)
  qed (use un(6) bm(2) qx in auto)
  moreover have "relevel b s ?j (total_volume ?l - oqty (ord b x)) ?b"
    by (rule relevelI [OF refl un(4,5)]) (simp_all add: unlinked_level_def ord_def)
  ultimately show ?thesis using that run by blast
qed

section \<open>Allocation, release and data updates\<close>

lemma same_data_taken: "unat x < pool_size p \<Longrightarrow> same_data p (taken p x)"
  by (simp add: same_data_def taken_def pool_simps data_def)

lemma same_data_returned: "unat x < pool_size p \<Longrightarrow> same_data p (returned p x)"
  by (simp add: same_data_def returned_def pool_simps data_def)

lemma links_repool:
  assumes ln: "links b q fl L" and "same_data (pool b) p'" and "free_rep p' fl'"
    and "\<And>x s i. x \<in> set (q s i) \<Longrightarrow> nxt p' x = nxt (pool b) x \<and> prv p' x = prv (pool b) x"
    and "set fl' \<union> L' = set fl \<union> L" and "set fl' \<inter> L' = {}"
  shows "links (b\<lparr>pool := p'\<rparr>) q fl' L'"
proof -
  have sz: "pool_size p' = pool_size (pool b)" using assms(2) by (rule same_dataD)
  have lv: "level_rep p' (levels b s ! i) s i (q s i)" if "i < band b" for s i
    by (rule level_rep_frame [OF linksD(4) [OF ln that] assms(2)]) (use assms(4) in blast)
  have mem: "x \<notin> set fl' \<and> x \<notin> L'" if "x \<in> set (q s i)" for x s i
    using links_member(6,7) [OF ln that] assms(5) by blast
  have cov: "unat x < pool_size (pool b) \<longleftrightarrow> x \<in> set fl' \<or> x \<in> L' \<or> (\<exists>s i. x \<in> set (q s i))" for x
  proof -
    have "unat x < pool_size (pool b) \<longleftrightarrow> x \<in> set fl \<or> x \<in> L \<or> (\<exists>s i. x \<in> set (q s i))"
      using ln by (simp add: links_def)
    then show ?thesis using assms(5) by blast
  qed
  show ?thesis
    using ln lv assms(3,6) mem cov
    by (simp add: links_def shape_def band_def sz)
qed

lemma allocate_links:
  assumes ln: "links b q (x # fl) L"
  shows "allocate (pool b) = Some (x, taken (pool b) x)"
    and "links (b\<lparr>pool := taken (pool b) x\<rparr>) q fl (insert x L)"
    and "same_data (pool b) (taken (pool b) x)"
proof -
  have fr: "free_rep (pool b) (x # fl)" by (rule linksD(2) [OF ln])
  then have xp: "unat x < pool_size (pool b)" "x \<notin> set fl" by (auto simp: free_rep_def)
  show "allocate (pool b) = Some (x, taken (pool b) x)" by (rule allocate_Cons [OF fr])
  show sd: "same_data (pool b) (taken (pool b) x)" by (rule same_data_taken [OF xp(1)])
  show "links (b\<lparr>pool := taken (pool b) x\<rparr>) q fl (insert x L)"
  proof (rule links_repool [OF ln sd allocate_Cons(2) [OF fr]])
    show "nxt (taken (pool b) x) y = nxt (pool b) y \<and> prv (taken (pool b) x) y = prv (pool b) y"
      if "y \<in> set (q s i)" for y s i
      using links_member(6) [OF ln that] xp(1) by (auto simp: taken_def pool_simps)
    show "set fl \<inter> insert x L = {}" using ln xp(2) by (auto simp: links_def)
  qed simp
qed

lemma deallocate_links:
  assumes ln: "links b q fl L" and x: "x \<in> L"
  shows "deallocate (pool b) x = Some (returned (pool b) x)"
    and "links (b\<lparr>pool := returned (pool b) x\<rparr>) q (x # fl) (L - {x})"
    and "same_data (pool b) (returned (pool b) x)"
proof -
  have xp: "unat x < pool_size (pool b)" using links_limbo [OF ln x] by simp
  have xf: "x \<notin> set fl" using ln x by (auto simp: links_def)
  show "deallocate (pool b) x = Some (returned (pool b) x)" by (rule deallocate_in [OF xp])
  show sd: "same_data (pool b) (returned (pool b) x)" by (rule same_data_returned [OF xp])
  show "links (b\<lparr>pool := returned (pool b) x\<rparr>) q (x # fl) (L - {x})"
  proof (rule links_repool [OF ln sd free_rep_returned [OF linksD(2) [OF ln] xp xf]])
    show "nxt (returned (pool b) x) y = nxt (pool b) y \<and> prv (returned (pool b) x) y = prv (pool b) y"
      if "y \<in> set (q s i)" for y s i
      using links_member(7) [OF ln that] x xp by (auto simp: returned_def pool_simps prv_def)
    show "set (x # fl) \<inter> (L - {x}) = {}" using ln by (auto simp: links_def)
  qed (use x in auto)
qed

text \<open>Writes to ids, quantities, volumes and to slots in transit are not seen by \<open>links\<close>.\<close>

lemma links_data:
  assumes ln: "links b q fl L"
    and "pool_size (pool b') = pool_size (pool b)" "free_head (pool b') = free_head (pool b)"
    and "nxt (pool b') = nxt (pool b)" "prv (pool b') = prv (pool b)"
    and "\<And>x. x \<notin> L \<Longrightarrow> oprice (ord b' x) = oprice (ord b x) \<and> oside (ord b' x) = oside (ord b x)"
    and "bitmap b' = bitmap b" "\<And>s. length (levels b' s) = length (levels b s)"
    and "\<And>s i. i < band b \<Longrightarrow> head_idx (levels b' s ! i) = head_idx (levels b s ! i) \<and>
      tail_idx (levels b' s ! i) = tail_idx (levels b s ! i) \<and>
      order_count (levels b' s ! i) = order_count (levels b s ! i)"
  shows "links b' q fl L"
proof -
  have bd: "band b' = band b" using assms(8) by (simp add: band_def)
  have lv: "level_rep (pool b') (levels b' s ! i) s i (q s i)" if "i < band b" for s i
  proof -
    have "\<forall>x \<in> set (q s i). oprice (slot (pool b') x) = oprice (slot (pool b) x) \<and>
        oside (slot (pool b') x) = oside (slot (pool b) x)"
      using links_member(7) [OF ln] assms(6) by (auto simp: ord_def)
    then show ?thesis
      using linksD(4) [OF ln that, of s] assms(2,4,5) assms(9) [OF that, of s]
      by (simp add: level_rep_def)
  qed
  have fr: "free_rep (pool b') fl"
    using linksD(2) [OF ln] assms(2-4) by (simp add: free_rep_def)
  show ?thesis
    using ln lv fr assms(7,8) unfolding links_def shape_def bd assms(2) by simp
qed

end
