(* ===== verification/Book_Invariant.thy ===== *)
theory Book_Invariant
  imports Book_Links
begin

text \<open>
  The invariant of the book and its abstraction.  \<open>queue_of\<close> reads a level's queue off the
  pool, \<open>depth\<close> turns it into order ids with open quantities, and \<open>book_ok\<close> says that the
  links are sound, that every level's volume is the sum of its orders, that no resting order
  is empty, that an
  occupied level carries its absolute price, which fits 32 bits, and that the id table has the
  shape its loops rely on.  The top of book has three properties of its own, of different
  strength: \<open>tob_live\<close>, \<open>tob_exact\<close> and \<open>tob_fresh\<close>.
\<close>

section \<open>Abstraction\<close>

text \<open>A side's depth: for each level the order ids with their open quantities, oldest first.\<close>

type_synonym depth = "side \<Rightarrow> nat \<Rightarrow> (order_id \<times> quantity) list"

definition view :: "order_book \<Rightarrow> queues \<Rightarrow> depth" where
  "view b q = (\<lambda>s i. map (\<lambda>x. (oid (ord b x), oqty (ord b x))) (q s i))"

definition queue_of :: "order_book \<Rightarrow> queues" where
  "queue_of b s i = (if i < band b
     then walk (nxt (pool b)) (pool_size (pool b)) (head_idx (levels b s ! i)) else [])"

definition depth :: "order_book \<Rightarrow> depth" where
  "depth b = view b (queue_of b)"

definition volume :: "(order_id \<times> quantity) list \<Rightarrow> quantity" where
  "volume os = sum_list (map snd os)"

section \<open>Invariant\<close>

definition sound :: "order_book \<Rightarrow> queues \<Rightarrow> u32 list \<Rightarrow> u32 set \<Rightarrow> bool" where
  "sound b q fl L \<longleftrightarrow> links b q fl L \<and> table_ok (ids b) \<and>
     (\<forall>s. \<forall>i < band b. total_volume (levels b s ! i) = volume (view b q s i)) \<and>
     (\<forall>s i. q s i \<noteq> [] \<longrightarrow> lprice (levels b s ! i) = base b + of_nat i) \<and>
     (\<forall>s i. q s i \<noteq> [] \<longrightarrow> unat (base b) + i < 4294967296)"

definition core :: "order_book \<Rightarrow> queues \<Rightarrow> u32 list \<Rightarrow> u32 set \<Rightarrow> bool" where
  "core b q fl L \<longleftrightarrow> sound b q fl L \<and> (\<forall>s i. \<forall>kv \<in> set (view b q s i). snd kv \<noteq> 0)"

definition book_ok :: "order_book \<Rightarrow> bool" where
  "book_ok b \<longleftrightarrow> core b (queue_of b) (free_list (pool b)) {}"

definition better :: "side \<Rightarrow> nat \<Rightarrow> nat \<Rightarrow> bool" where
  "better s i j \<longleftrightarrow> (case s of BUY \<Rightarrow> j < i | SELL \<Rightarrow> i < j)"

text \<open>The cached best price of a side is null or an occupied level.\<close>

definition tob_live :: "order_book \<Rightarrow> side \<Rightarrow> bool" where
  "tob_live b s \<longleftrightarrow> best b s = NULL_IDX \<or> depth b s (unat (best b s)) \<noteq> []"

text \<open>It is the best occupied level, and null only when the side is empty.\<close>

definition tob_exact :: "order_book \<Rightarrow> side \<Rightarrow> bool" where
  "tob_exact b s \<longleftrightarrow> tob_live b s \<and>
     (\<forall>i. best b s = NULL_IDX \<or> better s i (unat (best b s)) \<longrightarrow> depth b s i = [])"

text \<open>The cached quantity is that level's volume.\<close>

definition tob_fresh :: "order_book \<Rightarrow> side \<Rightarrow> bool" where
  "tob_fresh b s \<longleftrightarrow> best_qty b s =
     (if best b s = NULL_IDX then 0 else volume (depth b s (unat (best b s))))"

section \<open>Consequences\<close>

lemma volume_simps [simp]: "volume [] = 0" "volume (kv # os) = snd kv + volume os"
  "volume (os @ ps) = volume os + volume ps"
  by (simp_all add: volume_def)

lemma soundD:
  assumes "sound b q fl L"
  shows "links b q fl L" "table_ok (ids b)" "shape b"
    "i < band b \<Longrightarrow> total_volume (levels b s ! i) = volume (view b q s i)"
    "q s i \<noteq> [] \<Longrightarrow> lprice (levels b s ! i) = base b + of_nat i"
    "q s i \<noteq> [] \<Longrightarrow> unat (base b) + i < 4294967296"
  using assms by (auto simp: sound_def links_def)

lemma coreD:
  assumes "core b q fl L"
  shows "links b q fl L" "table_ok (ids b)" "shape b"
    "i < band b \<Longrightarrow> total_volume (levels b s ! i) = volume (view b q s i)"
    "kv \<in> set (view b q s i) \<Longrightarrow> snd kv \<noteq> 0"
    "q s i \<noteq> [] \<Longrightarrow> lprice (levels b s ! i) = base b + of_nat i"
    "q s i \<noteq> [] \<Longrightarrow> unat (base b) + i < 4294967296"
  using assms by (auto simp: core_def sound_def links_def)

lemma links_queue_of:
  assumes "links b q fl L"
  shows "queue_of b = q" "free_list (pool b) = fl"
proof -
  show "free_list (pool b) = fl" by (rule free_rep_free_list [OF linksD(2) [OF assms]])
  have "queue_of b s i = q s i" for s i
  proof (cases "i < band b")
    case True
    then have "chain (nxt (pool b)) (head_idx (levels b s ! i)) (q s i)"
      and "distinct (q s i)" and "\<forall>x \<in> set (q s i). unat x < pool_size (pool b)"
      using linksD(4) [OF assms True, of s] by (auto simp: level_rep_def dest: dseg_chain)
    then show ?thesis using True by (simp add: queue_of_def walk_chain bounded_length)
  qed (use linksD(5) [OF assms] in \<open>simp add: queue_of_def\<close>)
  then show "queue_of b = q" by (intro ext)
qed

lemma core_book_ok:
  assumes "core b q fl {}"
  shows "book_ok b" "queue_of b = q" "free_list (pool b) = fl" "depth b = view b q"
  using assms links_queue_of [OF coreD(1) [OF assms]] by (simp_all add: book_ok_def depth_def)

lemma view_Nil_iff [simp]: "view b q s i = [] \<longleftrightarrow> q s i = []"
  by (simp add: view_def)

lemma book_okD:
  assumes "book_ok b"
  shows "core b (queue_of b) (free_list (pool b)) {}"
    "links b (queue_of b) (free_list (pool b)) {}" "table_ok (ids b)" "shape b"
    "band b \<le> i \<Longrightarrow> depth b s i = []" "i < band b \<Longrightarrow> i < length (levels b s)"
    "i < band b \<Longrightarrow> level_empty (levels b s ! i) \<longleftrightarrow> depth b s i = []"
    "i < band b \<Longrightarrow> total_volume (levels b s ! i) = volume (depth b s i)"
    "marked (bitmap b s) = (\<lambda>i. depth b s i \<noteq> [])"
    "kv \<in> set (depth b s i) \<Longrightarrow> snd kv \<noteq> 0"
proof -
  show c: "core b (queue_of b) (free_list (pool b)) {}" using assms by (simp add: book_ok_def)
  note k = coreD [OF c]
  show l: "links b (queue_of b) (free_list (pool b)) {}" and sh: "shape b"
    and "table_ok (ids b)" using k by auto
  show "band b \<le> i \<Longrightarrow> depth b s i = []" using linksD(5) [OF l] by (simp add: depth_def)
  show "i < band b \<Longrightarrow> i < length (levels b s)" using shapeD(1) [OF sh] by simp
  show "i < band b \<Longrightarrow> level_empty (levels b s ! i) \<longleftrightarrow> depth b s i = []"
    using links_head_empty [OF l] by (simp add: depth_def)
  show "i < band b \<Longrightarrow> total_volume (levels b s ! i) = volume (depth b s i)"
    using k(4) by (simp add: depth_def)
  show "marked (bitmap b s) = (\<lambda>i. depth b s i \<noteq> [])"
    using linksD(6) [OF l] by (simp add: depth_def)
  show "kv \<in> set (depth b s i) \<Longrightarrow> snd kv \<noteq> 0" using k(5) by (simp add: depth_def)
qed

lemma depth_in_band: "book_ok b \<Longrightarrow> depth b s i \<noteq> [] \<Longrightarrow> i < band b"
  using book_okD(5) not_le by blast

lemma tob_live_in_band: "book_ok b \<Longrightarrow> tob_live b s \<Longrightarrow> best b s \<noteq> NULL_IDX \<Longrightarrow> unat (best b s) < band b"
  by (auto simp: tob_live_def depth_in_band)

lemma head_of_queue:
  assumes "book_ok b" and "i < band b"
  shows "head_idx (levels b s ! i) = (case queue_of b s i of [] \<Rightarrow> NULL_IDX | x # xs \<Rightarrow> x)"
  using linksD(4) [OF book_okD(2) [OF assms(1)] assms(2), of s]
  by (auto simp: level_rep_def split: list.split)

lemma next_of_head:
  assumes "book_ok b" and "queue_of b s i = x # xs"
  shows "nxt (pool b) x = (case xs of [] \<Rightarrow> NULL_IDX | y # ys \<Rightarrow> y)"
proof -
  have "i < band b" using links_member(1) [OF book_okD(2) [OF assms(1)], of x s i] assms(2) by simp
  then show ?thesis
    using linksD(4) [OF book_okD(2) [OF assms(1)], of i s] assms(2)
    by (auto simp: level_rep_def split: list.split)
qed

section \<open>What matching and cancelling leave alone\<close>

definition steady :: "order_book \<Rightarrow> order_book \<Rightarrow> bool" where
  "steady b b' \<longleftrightarrow> best b' = best b \<and> best_qty b' = best_qty b \<and> base b' = base b \<and>
     base_set b' = base_set b \<and> band b' = band b \<and> pool_size (pool b') = pool_size (pool b)"

lemma steady_refl [simp]: "steady b b"
  by (simp add: steady_def)

lemma steady_trans: "steady b b' \<Longrightarrow> steady b' b'' \<Longrightarrow> steady b b''"
  by (simp add: steady_def)

lemma relevel_steady: "relevel b s i v b' \<Longrightarrow> steady b b'"
  using relevelD [of b s i v b'] by (simp add: steady_def same_dataD)

section \<open>The id table and the queues\<close>

text \<open>The id table maps exactly the ids of the resting orders to their slots.\<close>

definition index_ok :: "order_book \<Rightarrow> bool" where
  "index_ok b \<longleftrightarrow> idmap_ok (ids b) \<and> (\<forall>k x. content (ids b) k = Some x \<longleftrightarrow>
     (\<exists>s i. x \<in> set (queue_of b s i) \<and> oid (ord b x) = k))"

lemma index_okD:
  assumes "index_ok b"
  shows "idmap_ok (ids b)"
    "content (ids b) k = Some x \<longleftrightarrow> (\<exists>s i. x \<in> set (queue_of b s i) \<and> oid (ord b x) = k)"
    "x \<in> set (queue_of b s i) \<Longrightarrow> content (ids b) (oid (ord b x)) = Some x"
  using assms by (auto simp: index_ok_def)

text \<open>
  \<open>tidy_step b b'\<close>: the step keeps the id table in agreement with the queues wherever the
  table is in Robin-Hood order, and keeps it collision-free where it is so.
\<close>

definition tidy_step :: "order_book \<Rightarrow> order_book \<Rightarrow> bool" where
  "tidy_step b b' \<longleftrightarrow>
     (index_ok b \<and> ordered_ok (ids b) \<longrightarrow> index_ok b' \<and> ordered_ok (ids b')) \<and>
     (\<forall>K. index_ok b \<and> calm_on (ids b) K \<longrightarrow> index_ok b' \<and> calm_on (ids b') K)"

lemma tidy_step_refl [simp]: "tidy_step b b"
  by (simp add: tidy_step_def)

lemma tidy_step_trans: "tidy_step b b1 \<Longrightarrow> tidy_step b1 b2 \<Longrightarrow> tidy_step b b2"
  unfolding tidy_step_def by blast

lemma tidy_step_same:
  assumes "ids b' = ids b" and "queue_of b' = queue_of b" and "\<And>x. oid (ord b' x) = oid (ord b x)"
  shows "tidy_step b b'"
  using assms by (simp add: tidy_step_def index_ok_def)

lemma tidy_step_retire:
  assumes q: "queue_of b s i = as @ x # bs" "queue_of b' = qput (queue_of b) s i (as @ bs)"
    and ln: "links b (queue_of b) fl {}"
    and er: "id_erase (ids b) (oid (ord b x)) = Some (ids b')"
    and o: "\<And>y. oid (ord b' y) = oid (ord b y)"
  shows "tidy_step b b'"
proof -
  have i: "i < band b" using links_member(1) [OF ln, of x s i] q by simp
  have d: "distinct (as @ x # bs)"
    using linksD(4) [OF ln i, of s] q by (simp add: level_rep_def)
  have "y \<in> set (queue_of b' s' i') \<longleftrightarrow> y \<noteq> x \<and> y \<in> set (queue_of b s' i')" for y s' i'
  proof (cases "s' = s \<and> i' = i")
    case True
    then show ?thesis using d q by auto
  next
    case False
    then have "x \<notin> set (queue_of b s' i')"
      using links_unique_queue [OF ln, of x s i s' i'] q(1) by auto
    then show ?thesis using False q(2) by auto
  qed
  then have live: "(\<exists>s i. y \<in> set (queue_of b' s i)) \<longleftrightarrow> y \<noteq> x \<and> (\<exists>s i. y \<in> set (queue_of b s i))" for y
    by simp
  have both: "index_ok b' \<and> ordered_ok (ids b')" if ix: "index_ok b" and od: "ordered_ok (ids b)"
  proof -
    let ?k = "oid (ord b x)"
    obtain m where m: "id_erase (ids b) ?k = Some m" "idmap_ok m" "ordered_ok m"
      "content m = (content (ids b))(?k := None)"
      using erase_correct [OF index_okD(1) [OF ix] od] by metis
    then have m': "m = ids b'" using er by simp
    have "content (ids b') k = Some y \<longleftrightarrow> (\<exists>s i. y \<in> set (queue_of b' s i) \<and> oid (ord b' y) = k)" for k y
    proof -
      have "(\<exists>s i. y \<in> set (queue_of b' s i) \<and> oid (ord b' y) = k) \<longleftrightarrow>
          y \<noteq> x \<and> content (ids b) k = Some y"
        using live [of y] by (auto simp: o index_okD(2) [OF ix])
      moreover have "y \<noteq> x \<longleftrightarrow> k \<noteq> ?k" if "content (ids b) k = Some y"
      proof -
        have "content (ids b) ?k = Some x"
          using index_okD(3) [OF ix, of x s i] q(1) by simp
        moreover have "oid (ord b y) = k" using that unfolding index_okD(2) [OF ix] by auto
        ultimately show ?thesis using that by (metis option.inject)
      qed
      ultimately show ?thesis unfolding m' [symmetric] m(4) by auto
    qed
    then show ?thesis using m m' by (simp add: index_ok_def)
  qed
  moreover have "calm_on (ids b') K" if "index_ok b" "calm_on (ids b) K" for K
    by (rule calm_on_remove [OF index_okD(1) [OF that(1)] that(2) er])
  moreover have "ordered_ok (ids b)" if "calm_on (ids b) K" for K
    using that at_home_ordered by (simp add: calm_on_def)
  ultimately show ?thesis unfolding tidy_step_def by blast
qed

end
