(* ===== verification/Matching_Spec.thy ===== *)
theory Matching_Spec
  imports Book_Invariant
begin

text \<open>
  Price-time priority without the data structures: \<open>fifo\<close> fills one queue in arrival order,
  \<open>sweep\<close> fills a list of levels one after the other, \<open>dead\<close> and \<open>sweep_dead\<close> name the orders
  that are filled completely, \<open>stamp\<close> turns the fills into log entries.  The lemmas say that
  quantity is conserved, that no other order is touched and that fills are never empty.
\<close>

section \<open>Filling queues\<close>

text \<open>Filling one queue: what is traded, what stays, what is left of the taker.\<close>

fun fifo :: "quantity \<Rightarrow> (order_id \<times> quantity) list \<Rightarrow>
    (order_id \<times> quantity) list \<times> (order_id \<times> quantity) list \<times> quantity" where
  "fifo r [] = ([], [], r)"
| "fifo r ((k, v) # os) =
     (if r = 0 then ([], (k, v) # os, 0)
      else if v \<le> r then (case fifo (r - v) os of (fs, rest, r') \<Rightarrow> ((k, v) # fs, rest, r'))
      else ([(k, r)], (k, v - r) # os, 0))"

text \<open>The ids of the orders that are filled completely.\<close>

fun dead :: "quantity \<Rightarrow> (order_id \<times> quantity) list \<Rightarrow> order_id list" where
  "dead r [] = []"
| "dead r ((k, v) # os) = (if r \<noteq> 0 \<and> v \<le> r then k # dead (r - v) os else [])"

text \<open>Filling levels in the given order; a fill records the level it happened at.\<close>

primrec sweep :: "side \<Rightarrow> nat list \<Rightarrow> quantity \<Rightarrow> depth \<Rightarrow>
    (nat \<times> order_id \<times> quantity) list \<times> depth \<times> quantity" where
  "sweep s [] r V = ([], V, r)"
| "sweep s (i # is) r V = (case fifo r (V s i) of (fs, rest, r1) \<Rightarrow>
     (case sweep s is r1 (qput V s i rest) of (gs, V', r2) \<Rightarrow> (map (Pair i) fs @ gs, V', r2)))"

primrec sweep_dead :: "side \<Rightarrow> nat list \<Rightarrow> quantity \<Rightarrow> depth \<Rightarrow> order_id list" where
  "sweep_dead s [] r V = []"
| "sweep_dead s (i # is) r V = dead r (V s i) @
     (case fifo r (V s i) of (fs, rest, r1) \<Rightarrow> sweep_dead s is r1 (qput V s i rest))"

text \<open>The trades that a list of fills leaves in the log.\<close>

primrec stamp :: "(nat \<Rightarrow> u64) \<Rightarrow> order_id \<Rightarrow> price \<Rightarrow> nat \<Rightarrow>
    (nat \<times> order_id \<times> quantity) list \<Rightarrow> trade list" where
  "stamp clk taker bs n [] = []"
| "stamp clk taker bs n (f # fs) = (case f of (i, k, v) \<Rightarrow> \<lparr>maker_id = k, taker_id = taker,
     tprice = bs + of_nat i, tqty = v, timestamp = clk n\<rparr>) # stamp clk taker bs (Suc n) fs"

primrec erase_all :: "id_map \<Rightarrow> order_id list \<Rightarrow> id_map option" where
  "erase_all m [] = Some m"
| "erase_all m (k # ks) = do { m \<leftarrow> id_erase m k; erase_all m ks }"

lemma erase_all_append: "erase_all m (ks @ ls) = do { m \<leftarrow> erase_all m ks; erase_all m ls }"
  by (induction ks arbitrary: m) (auto split: Option.bind_splits)

lemma stamp_append: "stamp clk taker bs n (fs @ gs) =
    stamp clk taker bs n fs @ stamp clk taker bs (n + length fs) gs"
  by (induction fs arbitrary: n) auto

lemma length_stamp [simp]: "length (stamp clk taker bs n fs) = length fs"
  by (induction fs arbitrary: n) auto

lemma fifo_0 [simp]: "fifo 0 os = ([], os, 0)"
  by (cases os) auto

lemma dead_0 [simp]: "dead 0 os = []"
  by (cases os) auto

lemma fifo_rest: "fst (snd (fifo r os)) \<noteq> [] \<Longrightarrow> snd (snd (fifo r os)) = 0"
  by (induction r os rule: fifo.induct) (auto split: if_splits prod.splits)

lemma qput_Nil_same: "V s i = [] \<Longrightarrow> qput V s i [] = V"
  by (metis qput_same)

lemma sweep_0 [simp]: "sweep s is 0 V = ([], V, 0)" "sweep_dead s is 0 V = []"
  by (induction "is" arbitrary: V) auto

lemma sweep_empty:
  assumes "\<forall>i \<in> set is. V s i = []"
  shows "sweep s (is @ js) r V = sweep s js r V" "sweep_dead s (is @ js) r V = sweep_dead s js r V"
  using assms by (induction "is") (auto simp: qput_Nil_same split: prod.split)

lemma sweep_skip_up:
  assumes "a \<le> c" and "\<forall>i. a \<le> i \<and> i < c \<longrightarrow> V s i = []"
  shows "sweep s [a..<n] r V = sweep s [c..<n] r V"
    "sweep_dead s [a..<n] r V = sweep_dead s [c..<n] r V"
proof -
  have e: "[a..<n] = [a..<min c n] @ [c..<n]"
    using assms(1) upt_add_eq_append [of a c "n - c"] by (cases "c \<le> n") (auto simp: min_def)
  show "sweep s [a..<n] r V = sweep s [c..<n] r V"
    "sweep_dead s [a..<n] r V = sweep_dead s [c..<n] r V"
    unfolding e by (rule sweep_empty; use assms(2) in simp)+
qed

lemma sweep_skip_down:
  assumes "c \<le> a" and "\<forall>i. c \<le> i \<and> i < a \<longrightarrow> V s i = []"
  shows "sweep s (rev [n..<a]) r V = sweep s (rev [n..<c]) r V"
    "sweep_dead s (rev [n..<a]) r V = sweep_dead s (rev [n..<c]) r V"
proof -
  have e: "rev [n..<a] = rev [max c n..<a] @ rev [n..<c]"
    using assms(1) upt_add_eq_append [of n c "a - c"] by (cases "n \<le> c") (auto simp: max_def)
  show "sweep s (rev [n..<a]) r V = sweep s (rev [n..<c]) r V"
    "sweep_dead s (rev [n..<a]) r V = sweep_dead s (rev [n..<c]) r V"
    unfolding e by (rule sweep_empty; use assms(2) in simp)+
qed
section \<open>Conservation and priority\<close>

text \<open>Quantities as natural numbers.\<close>

definition open_total :: "(order_id \<times> quantity) list \<Rightarrow> nat" where
  "open_total os = sum_list (map (\<lambda>kv. unat (snd kv)) os)"

lemma open_total_simps [simp]: "open_total [] = 0" "open_total (kv # os) = unat (snd kv) + open_total os" "open_total (os @ ps) = open_total os + open_total ps"
  by (simp_all add: open_total_def)

lemma fifo_taker: "unat r = open_total (fst (fifo r os)) + unat (snd (snd (fifo r os)))"
proof (induction r os rule: fifo.induct)
  case (2 r k v os)
  then show ?case
    by (auto simp: word_le_nat_alt unat_sub split: prod.splits)
qed simp

lemma fifo_makers: "open_total os = open_total (fst (fifo r os)) + open_total (fst (snd (fifo r os)))"
proof (induction r os rule: fifo.induct)
  case (2 r k v os)
  then show ?case
    by (auto simp: word_le_nat_alt unat_sub split: prod.splits)
qed simp

lemma fifo_fills_pos:
  "\<forall>kv \<in> set os. snd kv \<noteq> 0 \<Longrightarrow> kv \<in> set (fst (fifo r os)) \<Longrightarrow> snd kv \<noteq> 0"
  by (induction r os rule: fifo.induct) (auto split: if_splits prod.splits)

lemma fifo_rest_ids: "(k, v) \<in> set (fst (snd (fifo r os))) \<Longrightarrow> \<exists>v'. (k, v') \<in> set os"
  by (induction r os rule: fifo.induct) (auto split: if_splits prod.splits)

lemma fifo_rest_pos:
  "\<forall>kv \<in> set os. snd kv \<noteq> 0 \<Longrightarrow> kv \<in> set (fst (snd (fifo r os))) \<Longrightarrow> snd kv \<noteq> 0"
  by (induction r os rule: fifo.induct) (auto split: if_splits prod.splits)

text \<open>Time priority: what is filled is a prefix of the queue, completely but for the last order.\<close>

lemma fifo_prefix:
  "\<exists>n. map fst (fst (fifo r os)) = map fst (take n os) \<and>
     (\<forall>j < n - 1. fst (fifo r os) ! j = os ! j) \<and> n = length (fst (fifo r os)) \<and>
     drop n os = drop (n - length (dead r os)) (fst (snd (fifo r os)))"
proof (induction r os rule: fifo.induct)
  case (2 r k v os)
  show ?case
  proof (cases "r \<noteq> 0 \<and> v \<le> r")
    case True
    then obtain n where n: "map fst (fst (fifo (r - v) os)) = map fst (take n os)"
      "\<forall>j < n - 1. fst (fifo (r - v) os) ! j = os ! j" "n = length (fst (fifo (r - v) os))"
      "drop n os = drop (n - length (dead (r - v) os)) (fst (snd (fifo (r - v) os)))"
      using 2 by blast
    then show ?thesis using True
      by (intro exI [of _ "Suc n"]) (auto split: prod.splits simp: nth_Cons' less_Suc_eq_0_disj)
  next
    case False
    then show ?thesis
      by (cases "r = 0") (auto intro!: exI [of _ 0] exI [of _ "Suc 0"])
  qed
qed simp

text \<open>One level of a sweep, with the intermediate depth named.\<close>

lemma sweep_Cons_cases:
  obtains fs rest r1 W where "fifo r (V s j) = (fs, rest, r1)"
    "sweep s (j # is) r V = (map (Pair j) fs @ fst (sweep s is r1 W), snd (sweep s is r1 W))"
    "\<And>s' i. W s' i = (if s' = s \<and> i = j then rest else V s' i)"
    "sweep_dead s (j # is) r V = dead r (V s j) @ sweep_dead s is r1 W"
proof -
  obtain fs rest r1 where f: "fifo r (V s j) = (fs, rest, r1)" by (metis surj_pair)
  show ?thesis
    by (rule that [OF f, of "qput V s j rest"]) (simp_all add: f split_beta)
qed

lemma sweep_other_side: "s' \<noteq> s \<Longrightarrow> fst (snd (sweep s is r V)) s' i = V s' i"
proof (induction "is" arbitrary: r V)
  case (Cons j "is")
  show ?case
  proof (rule sweep_Cons_cases [of r V s j "is"])
    fix fs rest r1 W
    assume sw: "sweep s (j # is) r V = (map (Pair j) fs @ fst (sweep s is r1 W), snd (sweep s is r1 W))"
      and W: "\<And>s' i. W s' i = (if s' = s \<and> i = j then rest else V s' i)"
    show ?thesis using Cons.IH [of r1 W] Cons.prems by (simp only: sw W [of s' i]) simp
  qed
qed simp

lemma sweep_other_level: "i \<notin> set is \<Longrightarrow> fst (snd (sweep s is r V)) s i = V s i"
proof (induction "is" arbitrary: r V)
  case (Cons j "is")
  show ?case
  proof (rule sweep_Cons_cases [of r V s j "is"])
    fix fs rest r1 W
    assume sw: "sweep s (j # is) r V = (map (Pair j) fs @ fst (sweep s is r1 W), snd (sweep s is r1 W))"
      and W: "\<And>s' i. W s' i = (if s' = s \<and> i = j then rest else V s' i)"
    show ?thesis using Cons.IH [of r1 W] Cons.prems by (simp only: sw W [of s i]) simp
  qed
qed simp

lemma sweep_ids:
  "(k, v) \<in> set (fst (snd (sweep s is r V)) s' i) \<Longrightarrow> \<exists>v'. (k, v') \<in> set (V s' i)"
proof (induction "is" arbitrary: r V v)
  case (Cons j "is")
  show ?case
  proof (rule sweep_Cons_cases [of r V s j "is"])
    fix fs rest r1 W
    assume f: "fifo r (V s j) = (fs, rest, r1)"
      and sw: "sweep s (j # is) r V = (map (Pair j) fs @ fst (sweep s is r1 W), snd (sweep s is r1 W))"
      and W: "\<And>s' i. W s' i = (if s' = s \<and> i = j then rest else V s' i)"
    have "\<exists>v'. (k, v') \<in> set (W s' i)" using Cons.IH [of v r1 W] Cons.prems unfolding sw by simp
    then show ?thesis using fifo_rest_ids [of k _ r "V s j"] f unfolding W by (auto split: if_splits)
  qed
qed auto

lemma sweep_rest: "snd (snd (sweep s is r V)) \<noteq> 0 \<Longrightarrow> i \<in> set is \<Longrightarrow> fst (snd (sweep s is r V)) s i = []"
proof (induction "is" arbitrary: r V)
  case (Cons j "is")
  show ?case
  proof (rule sweep_Cons_cases [of r V s j "is"])
    fix fs rest r1 W
    assume f: "fifo r (V s j) = (fs, rest, r1)"
      and sw: "sweep s (j # is) r V = (map (Pair j) fs @ fst (sweep s is r1 W), snd (sweep s is r1 W))"
      and W: "\<And>s' i. W s' i = (if s' = s \<and> i = j then rest else V s' i)"
    have r: "snd (snd (sweep s is r1 W)) \<noteq> 0" using Cons.prems(1) unfolding sw by simp
    then have "r1 \<noteq> 0" by auto
    then have "rest = []" using fifo_rest [of r "V s j"] f by auto
    then show ?thesis
      using Cons.IH [OF r] sweep_other_level [of i "is" s r1 W] Cons.prems(2)
      unfolding sw W [of s i] by (cases "i \<in> set is") auto
  qed
qed simp

definition filled :: "(nat \<times> order_id \<times> quantity) list \<Rightarrow> nat" where
  "filled fs = sum_list (map (\<lambda>(i, k, v). unat v) fs)"

definition filled_at :: "nat \<Rightarrow> (nat \<times> order_id \<times> quantity) list \<Rightarrow> nat" where
  "filled_at i fs = sum_list (map (\<lambda>(j, k, v). if j = i then unat v else 0) fs)"

lemma filled_simps [simp]:
  "filled [] = 0" "filled (fs @ gs) = filled fs + filled gs" "filled (map (Pair j) os) = open_total os"
  "filled_at i [] = 0" "filled_at i (fs @ gs) = filled_at i fs + filled_at i gs"
  "filled_at i (map (Pair j) os) = (if j = i then open_total os else 0)"
  by (simp_all add: filled_def filled_at_def open_total_def comp_def split_beta)

lemma sweep_taker: "unat r = filled (fst (sweep s is r V)) + unat (snd (snd (sweep s is r V)))"
proof (induction "is" arbitrary: r V)
  case (Cons j "is")
  show ?case
  proof (rule sweep_Cons_cases [of r V s j "is"])
    fix fs rest r1 W
    assume f: "fifo r (V s j) = (fs, rest, r1)"
      and sw: "sweep s (j # is) r V = (map (Pair j) fs @ fst (sweep s is r1 W), snd (sweep s is r1 W))"
    show ?thesis using fifo_taker [of r "V s j"] Cons.IH [of r1 W] f unfolding sw by simp
  qed
qed simp

text \<open>Per level, what was on the queue is what was filled there and what is left.\<close>

lemma sweep_makers:
  assumes "distinct is"
  shows "open_total (V s i) = filled_at i (fst (sweep s is r V)) + open_total (fst (snd (sweep s is r V)) s i)"
  using assms
proof (induction "is" arbitrary: r V)
  case (Cons j "is")
  show ?case
  proof (rule sweep_Cons_cases [of r V s j "is"])
    fix fs rest r1 W
    assume f: "fifo r (V s j) = (fs, rest, r1)"
      and sw: "sweep s (j # is) r V = (map (Pair j) fs @ fst (sweep s is r1 W), snd (sweep s is r1 W))"
      and W: "\<And>s' i. W s' i = (if s' = s \<and> i = j then rest else V s' i)"
    have "open_total (V s i) = (if j = i then open_total fs else 0) + open_total (W s i)"
      using fifo_makers [of "V s j" r] f unfolding W by auto
    then show ?thesis using Cons.IH [of W r1] Cons.prems unfolding sw by simp
  qed
qed simp

lemma sweep_fills_pos:
  "\<forall>i. \<forall>kv \<in> set (V s i). snd kv \<noteq> 0 \<Longrightarrow> (i, k, v) \<in> set (fst (sweep s is r V)) \<Longrightarrow> v \<noteq> 0 \<and> i \<in> set is"
proof (induction "is" arbitrary: r V)
  case (Cons j "is")
  show ?case
  proof (rule sweep_Cons_cases [of r V s j "is"])
    fix fs rest r1 W
    assume f: "fifo r (V s j) = (fs, rest, r1)"
      and sw: "sweep s (j # is) r V = (map (Pair j) fs @ fst (sweep s is r1 W), snd (sweep s is r1 W))"
      and W: "\<And>s' i. W s' i = (if s' = s \<and> i = j then rest else V s' i)"
    have "\<forall>i. \<forall>kv \<in> set (W s i). snd kv \<noteq> 0"
      using Cons.prems(1) fifo_rest_pos [of "V s j" _ r] f unfolding W by auto
    moreover have "(i, k, v) \<in> Pair j ` set fs \<or> (i, k, v) \<in> set (fst (sweep s is r1 W))"
      using Cons.prems(2) unfolding sw by auto
    ultimately show ?thesis
      using Cons.IH [of W r1] fifo_fills_pos [of "V s j" "(k, v)" r] f Cons.prems(1) by auto
  qed
qed simp

lemma length_dead_le: "length (dead r os) \<le> length os"
  by (induction r os rule: dead.induct) auto

end
