(* ===== verification/Book_Moves.thy ===== *)
theory Book_Moves
  imports Book_Invariant
begin

text \<open>
  The moves that the book's operations are made of, each with its effect on the invariant and
  on the depth: taking quantity off a resting order (\<open>shrunk\<close>), taking an order off its level
  and out of the id table (\<open>retire_sound\<close>), and resting a new order (\<open>rest_sound\<close>).
\<close>

section \<open>The live-order counter\<close>

lemma dec_live_count: "live_order_count (dec_live b) = of_nat (unat (live_order_count b) - 1)"
proof (cases "live_order_count b = 0")
  case False
  then have "0 < unat (live_order_count b)" by (simp add: unat_gt_0)
  then have "(of_nat (unat (live_order_count b) - 1) :: u32) = live_order_count b - 1"
    by (simp add: of_nat_diff)
  then show ?thesis using False by (simp add: dec_live_def word_gt_0)
qed (simp add: dec_live_def)

lemma dec_live_set: "dec_live b = b\<lparr>live_order_count := of_nat (unat (live_order_count b) - 1)\<rparr>"
proof -
  have "dec_live b = b\<lparr>live_order_count := live_order_count (dec_live b)\<rparr>" by (simp add: dec_live_def)
  then show ?thesis by (simp add: dec_live_count)
qed

lemma dec_live_other [simp]:
  "pool (dec_live b) = pool b" "levels (dec_live b) = levels b" "bitmap (dec_live b) = bitmap b"
  "ids (dec_live b) = ids b" "fills (dec_live b) = fills b" "best (dec_live b) = best b"
  "best_qty (dec_live b) = best_qty b" "base (dec_live b) = base b"
  "base_set (dec_live b) = base_set b" "band (dec_live b) = band b"
  "ord (dec_live b) = ord b" "view (dec_live b) = view b"
  by (auto simp: dec_live_def band_def ord_def view_def fun_eq_iff)

lemma dec_live_sound [simp]: "sound (dec_live b) = sound b" "core (dec_live b) = core b"
  "links (dec_live b) = links b"
  by (auto simp: sound_def core_def links_def shape_def fun_eq_iff)

section \<open>Taking quantity off an order\<close>

definition order_view :: "order_book \<Rightarrow> u32 \<Rightarrow> order_id \<times> quantity" where
  "order_view b x = (oid (ord b x), oqty (ord b x))"

lemma view_alt: "view b q s i = map (order_view b) (q s i)"
  by (simp add: view_def order_view_def)

definition shrunk :: "order_book \<Rightarrow> side \<Rightarrow> nat \<Rightarrow> u32 \<Rightarrow> quantity \<Rightarrow> order_book" where
  "shrunk b s i x m = b\<lparr>pool := set_slot (pool b) x ((ord b x)\<lparr>oqty := oqty (ord b x) - m\<rparr>),
     levels := (levels b)(s := (levels b s)[i :=
       (levels b s ! i)\<lparr>total_volume := total_volume (levels b s ! i) - m\<rparr>])\<rparr>"

lemma shrunk_frame [simp]:
  "best (shrunk b s i x m) = best b" "best_qty (shrunk b s i x m) = best_qty b"
  "ids (shrunk b s i x m) = ids b" "fills (shrunk b s i x m) = fills b"
  "base (shrunk b s i x m) = base b" "base_set (shrunk b s i x m) = base_set b"
  "live_order_count (shrunk b s i x m) = live_order_count b"
  "bitmap (shrunk b s i x m) = bitmap b" "band (shrunk b s i x m) = band b"
  "pool_size (pool (shrunk b s i x m)) = pool_size (pool b)"
  "free_head (pool (shrunk b s i x m)) = free_head (pool b)"
  "length (levels (shrunk b s i x m) s') = length (levels b s')"
  by (auto simp: shrunk_def band_def)

lemma shrunk_ord:
  assumes "unat x < pool_size (pool b)"
  shows "ord (shrunk b s i x m) y = (if y = x then (ord b x)\<lparr>oqty := oqty (ord b x) - m\<rparr> else ord b y)"
  using assms by (simp add: shrunk_def ord_def pool_simps)

lemma shrunk_links_of:
  assumes "unat x < pool_size (pool b)"
  shows "nxt (pool (shrunk b s i x m)) = nxt (pool b)" "prv (pool (shrunk b s i x m)) = prv (pool b)"
  using assms by (auto simp: shrunk_def pool_simps ord_def nxt_def prv_def fun_eq_iff)

lemma shrunk_level:
  assumes "i < length (levels b s)"
  shows "levels (shrunk b s i x m) s' ! j = (if s' = s \<and> j = i
    then (levels b s ! i)\<lparr>total_volume := total_volume (levels b s ! i) - m\<rparr> else levels b s' ! j)"
  using assms by (auto simp: shrunk_def nth_list_update)

lemma shrink_sound:
  assumes so: "sound b q fl L" and qx: "q s i = as @ x # bs"
  shows "sound (shrunk b s i x m) q fl L"
    and "view (shrunk b s i x m) q = qput (view b q) s i
      (map (order_view b) as @ (oid (ord b x), oqty (ord b x) - m) # map (order_view b) bs)"
proof -
  let ?b = "shrunk b s i x m"
  have ln: "links b q fl L" and sh: "shape b" using soundD [OF so] by auto
  have xq: "x \<in> set (q s i)" using qx by simp
  note mx = links_member [OF ln xq]
  have i: "i < band b" "i < length (levels b s)" using mx(1) shapeD(1) [OF sh] by auto
  note o = shrunk_ord [OF mx(2), of s i m] and l = shrunk_level [OF i(2), of x m]
  have d: "distinct (as @ x # bs)" using linksD(4) [OF ln i(1), of s] qx by (simp add: level_rep_def)
  have ln': "links ?b q fl L"
    by (rule links_data [OF ln]) (use mx(2) in \<open>simp_all add: shrunk_links_of l o\<close>)
  have v: "view ?b q s' j = qput (view b q) s i (map (order_view b) as @
      (oid (ord b x), oqty (ord b x) - m) # map (order_view b) bs) s' j" for s' j
  proof (cases "s' = s \<and> j = i")
    case True
    then show ?thesis using qx d by (auto simp: view_alt order_view_def o)
  next
    case False
    then have "x \<notin> set (q s' j)" using links_unique_queue [OF ln xq] by metis
    then show ?thesis using False by (auto simp: view_alt order_view_def o)
  qed
  then show "view ?b q = qput (view b q) s i (map (order_view b) as @
      (oid (ord b x), oqty (ord b x) - m) # map (order_view b) bs)" by (intro ext)
  have "total_volume (levels b s ! i) = volume (view b q s i)" using soundD(4) [OF so i(1)] .
  then have "total_volume (levels b s ! i) - m = volume (view ?b q s i)"
    unfolding v by (simp add: qx view_alt order_view_def)
  then have vol: "total_volume (levels ?b s' ! j) = volume (view ?b q s' j)" if "j < band b" for s' j
    using soundD(4) [OF so that, of s'] by (simp add: l v)
  have "lprice (levels ?b s' ! j) = lprice (levels b s' ! j)" for s' j by (simp add: l)
  then show "sound ?b q fl L"
    using ln' vol so by (simp add: sound_def)
qed

section \<open>Taking an order off the book\<close>

lemma erase_id_sound:
  assumes "sound b q fl L"
  obtains b' where "erase_id b k = Some b'" "sound b' q fl L" "id_erase (ids b) k = Some (ids b')"
    "b' = b\<lparr>ids := ids b'\<rparr>"
proof -
  obtain m where m: "id_erase (ids b) k = Some m" "table_ok m"
    using erase_gen [OF soundD(2) [OF assms], of k] by metis
  have "view (b\<lparr>ids := m\<rparr>) q = view b q" by (simp add: view_def ord_def)
  moreover have "links (b\<lparr>ids := m\<rparr>) q fl L"
    using soundD(1) [OF assms] by (simp add: links_def shape_def band_def)
  ultimately have "sound (b\<lparr>ids := m\<rparr>) q fl L"
    using assms m(2) by (simp add: sound_def band_def)
  then show ?thesis using that [of "b\<lparr>ids := m\<rparr>"] m(1) by (simp add: erase_id_def)
qed

lemma free_slot_sound:
  assumes so: "sound b q fl L" and x: "x \<in> L"
  obtains b' where "free_slot b x = Some b'" "sound b' q (x # fl) (L - {x})" "view b' = view b"
    "b' = b\<lparr>pool := pool b'\<rparr>" "same_data (pool b) (pool b')"
proof -
  note d = deallocate_links [OF soundD(1) [OF so] x]
  let ?b = "b\<lparr>pool := returned (pool b) x\<rparr>"
  have v: "view ?b = view b"
    using same_dataD [OF d(3)] by (simp add: view_def ord_def fun_eq_iff)
  have "sound ?b q (x # fl) (L - {x})"
    using so d(2) by (simp add: sound_def v band_def)
  then show ?thesis using that [of ?b] d(1,3) v by (simp add: free_slot_def)
qed

text \<open>Unlinking, erasing the id and releasing the slot, as three steps of the code.\<close>

lemma retire_sound:
  assumes so: "sound b q fl {}" and qx: "q s (unat i) = as @ x # bs"
  obtains b1 b2 b' where "level_remove b s i x = Some b1" "unat x < pool_size (pool b1)"
    "oid (ord b1 x) = oid (ord b x)" "erase_id b1 k = Some b2" "free_slot b2 x = Some b'"
    "sound b' (qput q s (unat i) (as @ bs)) (x # fl) {}"
    "view b' (qput q s (unat i) (as @ bs)) = qput (view b q) s (unat i) (map (order_view b) (as @ bs))"
    "id_erase (ids b) k = Some (ids b')" "fills b' = fills b"
    "live_order_count b' = live_order_count b" "steady b b'" "same_data (pool b) (pool b')"
proof -
  have ln: "links b q fl {}" and sh: "shape b" using soundD [OF so] by auto
  have xq: "x \<in> set (q s (unat i))" using qx by simp
  note mx = links_member [OF ln xq]
  have i: "unat i < length (levels b s)" using mx(1) shapeD(1) [OF sh] by simp
  have o: "oprice (ord b x) = i" using mx(5) by simp
  let ?q = "qput q s (unat i) (as @ bs)"
  obtain b1 where b1: "level_remove b s i x = Some b1" "links b1 ?q fl {x}"
    "relevel b s (unat i) (total_volume (levels b s ! unat i) - oqty (ord b x)) b1"
    using level_remove_links [OF ln qx o] by blast
  note r = relevelD [OF b1(3)] and ro = relevel_ord [OF b1(3)]
  have v: "view b1 ?q = qput (view b q) s (unat i) (map (order_view b) (as @ bs))"
    by (intro ext) (auto simp: view_alt order_view_def ro)
  have vol: "total_volume (levels b1 s' ! j) = volume (view b1 ?q s' j)" if "j < band b" for s' j
    using soundD(4) [OF so that, of s'] soundD(4) [OF so mx(1), of s]
    unfolding v r(12) [OF i] by (simp add: qx view_alt order_view_def)
  have so1: "sound b1 ?q fl {x}"
    using b1(2) so vol qx soundD(6) [OF so, of s "unat i"]
    by (auto simp: sound_def r(3,5,9) r(11) [OF i])
  obtain b2 where b2: "erase_id b1 k = Some b2" "sound b2 ?q fl {x}"
    "id_erase (ids b1) k = Some (ids b2)" "b2 = b1\<lparr>ids := ids b2\<rparr>"
    using erase_id_sound [OF so1] by blast
  obtain b3 where b3: "free_slot b2 x = Some b3" "sound b3 ?q (x # fl) ({x} - {x})"
    "view b3 = view b2" "b3 = b2\<lparr>pool := pool b3\<rparr>" "same_data (pool b2) (pool b3)"
    using free_slot_sound [OF b2(2)] by blast
  obtain m where m: "b2 = b1\<lparr>ids := m\<rparr>" using b2(4) by blast
  obtain p where p: "b3 = b2\<lparr>pool := p\<rparr>" using b3(4) by blast
  have "view b2 = view b1" by (simp add: m view_def ord_def fun_eq_iff)
  moreover have "steady b b3"
    using r same_dataD(1) [OF b3(5)] same_dataD(1) [OF r(8)] by (simp add: steady_def p m band_def)
  moreover have "unat x < pool_size (pool b1)" using mx(2) same_dataD(1) [OF r(8)] by simp
  moreover have "ids b3 = ids b2" "fills b3 = fills b" "live_order_count b3 = live_order_count b"
    using r by (simp_all add: p m)
  moreover have "same_data (pool b) (pool b3)"
    using same_data_trans [OF r(8)] b3(5) by (simp add: m)
  ultimately show ?thesis
    using that [OF b1(1) _ ro(1) b2(1) b3(1)] b3(2,3) b2(3) r v by simp
qed

section \<open>Resting an order\<close>

text \<open>The slot's data and the level's price are written before the slot is linked.\<close>

definition dressed :: "order_book \<Rightarrow> side \<Rightarrow> nat \<Rightarrow> u32 \<Rightarrow> order \<Rightarrow> price \<Rightarrow> order_book" where
  "dressed b s i x ordr p = b\<lparr>pool := set_slot (pool b) x ordr,
     levels := (levels b)(s := (levels b s)[i := (levels b s ! i)\<lparr>lprice := p\<rparr>])\<rparr>"

lemma dress_sound:
  assumes so: "sound b q fl {x}" and i: "i < band b" and p: "p = base b + of_nat i"
    and lk: "next_idx ordr = nxt (pool b) x" "prev_idx ordr = prv (pool b) x"
  shows "sound (dressed b s i x ordr p) q fl {x}" "view (dressed b s i x ordr p) q = view b q"
    "ord (dressed b s i x ordr p) x = ordr"
    "y \<noteq> x \<Longrightarrow> ord (dressed b s i x ordr p) y = ord b y"
proof -
  let ?b = "dressed b s i x ordr p"
  have ln: "links b q fl {x}" using soundD [OF so] by simp
  have xp: "unat x < pool_size (pool b)" using links_limbo [OF ln] by simp
  have il: "i < length (levels b s)" using i shapeD(1) [OF soundD(3) [OF so]] by simp
  have o: "ord ?b y = (if y = x then ordr else ord b y)" for y
    using xp by (simp add: dressed_def ord_def pool_simps)
  then show "ord ?b x = ordr" "y \<noteq> x \<Longrightarrow> ord ?b y = ord b y" by auto
  have l: "levels ?b s' ! j = (if s' = s \<and> j = i then (levels b s ! i)\<lparr>lprice := p\<rparr> else levels b s' ! j)"
    for s' j using il by (auto simp: dressed_def nth_list_update)
  have notx: "x \<notin> set (q s' j)" for s' j using links_member(7) [OF ln, of x s' j] by auto
  then show v: "view ?b q = view b q" by (auto simp: view_def o fun_eq_iff)
  have nx: "nxt (pool ?b) = nxt (pool b)" "prv (pool ?b) = prv (pool b)"
    using xp lk by (auto simp: dressed_def pool_simps fun_eq_iff)
  have "links ?b q fl {x}"
    by (rule links_data [OF ln])
       (use nx o l in \<open>auto simp: dressed_def pool_size_def set_slot_def\<close>)
  moreover have "band ?b = band b" by (simp add: dressed_def band_def)
  moreover have "ids ?b = ids b" "base ?b = base b" by (simp_all add: dressed_def)
  ultimately show "sound ?b q fl {x}" using so by (simp add: sound_def v l p [symmetric])
qed

lemma rest_sound:
  assumes so: "sound b q fl {x}" and o: "oside (ord b x) = s" "oprice (ord b x) = i"
    and i: "unat i < band b" and lp: "lprice (levels b s ! unat i) = base b + i"
    and fit: "unat (base b) + unat i < 4294967296"
  obtains b' where "level_append b s i x = Some b'"
    "sound b' (qput q s (unat i) (q s (unat i) @ [x])) fl {}"
    "view b' (qput q s (unat i) (q s (unat i) @ [x])) =
       qput (view b q) s (unat i) (view b q s (unat i) @ [order_view b x])"
    "ids b' = ids b" "fills b' = fills b" "live_order_count b' = live_order_count b"
    "steady b b'" "same_data (pool b) (pool b')"
proof -
  have ln: "links b q fl {x}" and sh: "shape b" using soundD [OF so] by auto
  have il: "unat i < length (levels b s)" using i shapeD(1) [OF sh] by simp
  let ?q = "qput q s (unat i) (q s (unat i) @ [x])"
  obtain b1 where b1: "level_append b s i x = Some b1" "links b1 ?q fl ({x} - {x})"
    "relevel b s (unat i) (total_volume (levels b s ! unat i) + oqty (ord b x)) b1"
    using level_append_links [OF ln _ o i] by blast
  note r = relevelD [OF b1(3)] and ro = relevel_ord [OF b1(3)]
  have v: "view b1 ?q = qput (view b q) s (unat i) (view b q s (unat i) @ [order_view b x])"
    by (intro ext) (auto simp: view_alt order_view_def ro)
  have vol: "total_volume (levels b1 s' ! j) = volume (view b1 ?q s' j)" if "j < band b" for s' j
    using soundD(4) [OF so that, of s'] soundD(4) [OF so i, of s]
    unfolding v r(12) [OF il] by (simp add: order_view_def)
  have "sound b1 ?q fl {}"
    using b1(2) so vol lp fit by (auto simp: sound_def r(3,5,9) r(11) [OF il])
  then show ?thesis
    using that [OF b1(1)] v r relevel_steady [OF b1(3)] by simp
qed

end
