(* ===== verification/Matching.thy ===== *)
theory Matching
  imports Matching_Spec Book_Moves
begin

text \<open>
  The matching engine of \<open>src/core/OrderBook.cpp\<close>: \<open>match_against_asks\<close> and
  \<open>match_against_bids\<close>, with the loop over one level's queue (the same text in both) as
  \<open>fill_level\<close>.  Trades carry a time stamp read from the processor; the \<open>k\<close>-th trade of the
  book gets \<open>clk k\<close>, for an arbitrary function \<open>clk\<close>.

  Each function is shown to produce the fills, the depth and the remainder that \<open>fifo\<close> and
  \<open>sweep\<close> of \<open>Matching_Spec\<close> give for the book's depth.
\<close>

section \<open>The code\<close>

definition emit_trade ::
  "(nat \<Rightarrow> u64) \<Rightarrow> order_id \<Rightarrow> order_id \<Rightarrow> price \<Rightarrow> quantity \<Rightarrow> order_book \<Rightarrow> order_book" where
  "emit_trade clk maker taker p v b = b\<lparr>fills := fills b @ [\<lparr>maker_id = maker, taker_id = taker,
     tprice = p, tqty = v, timestamp = clk (length (fills b))\<rparr>]\<rparr>"

definition fill_step :: "(nat \<Rightarrow> u64) \<Rightarrow> order_id \<Rightarrow> side \<Rightarrow> price \<Rightarrow> order_book \<Rightarrow> u32 \<Rightarrow> quantity \<Rightarrow>
    (order_book \<times> u32 \<times> quantity) option" where
  "fill_step clk taker s i b idx remaining = do {
     ord \<leftarrow> order_at b idx;
     let nx = next_idx ord;
     let match_qty = min remaining (oqty ord);
     l \<leftarrow> level_at b s i;
     let b = emit_trade clk (oid ord) taker (lprice l) match_qty b;
     b \<leftarrow> upd_order b idx (\<lambda>ord. ord\<lparr>oqty := oqty ord - match_qty\<rparr>);
     b \<leftarrow> upd_level b s i (\<lambda>l. l\<lparr>total_volume := total_volume l - match_qty\<rparr>);
     ord \<leftarrow> order_at b idx;
     b \<leftarrow> (if oqty ord = 0
          then do {
            b \<leftarrow> level_remove b s i idx;
            ord \<leftarrow> order_at b idx;
            b \<leftarrow> erase_id b (oid ord);
            b \<leftarrow> free_slot b idx;
            Some (dec_live b)
          }
          else Some b);
     Some (b, nx, remaining - match_qty)
   }"

partial_function (option) fill_level ::
  "(nat \<Rightarrow> u64) \<Rightarrow> order_id \<Rightarrow> side \<Rightarrow> price \<Rightarrow> order_book \<Rightarrow> u32 \<Rightarrow> quantity \<Rightarrow>
    (order_book \<times> quantity) option" where
  "fill_level clk taker s i b idx remaining =
     (if idx \<noteq> NULL_IDX \<and> remaining > 0
      then do {
        (b, nx, remaining) \<leftarrow> fill_step clk taker s i b idx remaining;
        fill_level clk taker s i b nx remaining
      }
      else Some (b, remaining))"

partial_function (option) match_against_asks ::
  "(nat \<Rightarrow> u64) \<Rightarrow> order_id \<Rightarrow> price \<Rightarrow> quantity \<Rightarrow> order_book \<Rightarrow> (order_book \<times> quantity) option" where
  "match_against_asks clk taker limit remaining b =
     (if remaining > 0
      then do {
        let bst = best b SELL;
        (if bst > limit then Some (b, remaining)
         else do {
           l \<leftarrow> level_at b SELL bst;
           (b, remaining) \<leftarrow> fill_level clk taker SELL bst b (head_idx l) remaining;
           l \<leftarrow> level_at b SELL bst;
           b \<leftarrow> (if level_empty l then update_best_ask b
                else Some (b\<lparr>best_qty := (best_qty b)(SELL := total_volume l)\<rparr>));
           match_against_asks clk taker limit remaining b
         })
      }
      else Some (b, remaining))"

partial_function (option) match_against_bids ::
  "(nat \<Rightarrow> u64) \<Rightarrow> order_id \<Rightarrow> price \<Rightarrow> quantity \<Rightarrow> order_book \<Rightarrow> (order_book \<times> quantity) option" where
  "match_against_bids clk taker limit remaining b =
     (if remaining > 0
      then do {
        let bst = best b BUY;
        (if bst = NULL_IDX \<or> bst < limit then Some (b, remaining)
         else do {
           l \<leftarrow> level_at b BUY bst;
           (if level_empty l then Some (b, remaining)
            else do {
              (b, remaining) \<leftarrow> fill_level clk taker BUY bst b (head_idx l) remaining;
              l \<leftarrow> level_at b BUY bst;
              b \<leftarrow> (if level_empty l then update_best_bid b
                   else Some (b\<lparr>best_qty := (best_qty b)(BUY := total_volume l)\<rparr>));
              match_against_bids clk taker limit remaining b
            })
         })
      }
      else Some (b, remaining))"

declare fill_level.simps [code] match_against_asks.simps [code] match_against_bids.simps [code]

section \<open>One order\<close>

text \<open>
  \<open>outcome clk taker b fs V ks b'\<close>: from \<open>b\<close> the run reached the sound book \<open>b'\<close> whose depth
  is \<open>V\<close>, logged the fills \<open>fs\<close>, and removed the orders \<open>ks\<close> from the id table and the count.
\<close>

definition outcome :: "(nat \<Rightarrow> u64) \<Rightarrow> order_id \<Rightarrow> order_book \<Rightarrow> (nat \<times> order_id \<times> quantity) list \<Rightarrow>
    depth \<Rightarrow> order_id list \<Rightarrow> order_book \<Rightarrow> bool" where
  "outcome clk taker b fs V ks b' \<longleftrightarrow> book_ok b' \<and> depth b' = V \<and>
     fills b' = fills b @ stamp clk taker (base b) (length (fills b)) fs \<and>
     erase_all (ids b) ks = Some (ids b') \<and>
     live_order_count b' = of_nat (unat (live_order_count b) - length ks) \<and>
     base b' = base b \<and> base_set b' = base_set b \<and> band b' = band b \<and>
     pool_size (pool b') = pool_size (pool b) \<and> tidy_step b b' \<and>
     length (free_list (pool b')) = length (free_list (pool b)) + length ks"

lemma outcomeD:
  assumes "outcome clk taker b fs V ks b'"
  shows "book_ok b'" "depth b' = V"
    "fills b' = fills b @ stamp clk taker (base b) (length (fills b)) fs"
    "erase_all (ids b) ks = Some (ids b')"
    "live_order_count b' = of_nat (unat (live_order_count b) - length ks)"
    "base b' = base b" "base_set b' = base_set b" "band b' = band b"
    "pool_size (pool b') = pool_size (pool b)" "tidy_step b b'"
    "length (free_list (pool b')) = length (free_list (pool b)) + length ks"
  using assms by (simp_all add: outcome_def)

lemma outcome_refl: "book_ok b \<Longrightarrow> outcome clk taker b [] (depth b) [] b"
  by (simp add: outcome_def)

lemma outcome_trans:
  assumes "outcome clk taker b fs V ks b1" and "outcome clk taker b1 gs W ls b2"
  shows "outcome clk taker b (fs @ gs) W (ks @ ls) b2"
proof -
  have "unat (of_nat (unat (live_order_count b) - length ks) :: u32) = unat (live_order_count b) - length ks"
    using unat_lt_max [of "live_order_count b"] by (intro unat_of_nat_u32) simp
  then show ?thesis
    using assms tidy_step_trans [of b b1 b2] by (simp add: outcome_def stamp_append erase_all_append)
qed

lemma view_hd: "q s i = x # xs \<Longrightarrow> view b q s i = order_view b x # map (order_view b) xs"
  by (simp add: view_alt)

lemma fill_step_correct:
  assumes ok: "book_ok b" and dp: "depth b s (unat i) = (k, v) # os" and r: "0 < r"
  obtains b' nx where
    "fill_step clk taker s i b (head_idx (levels b s ! unat i)) r = Some (b', nx, r - min r v)"
    "v \<le> r \<Longrightarrow> nx = head_idx (levels b' s ! unat i) \<and>
       outcome clk taker b [(unat i, k, v)] (qput (depth b) s (unat i) os) [k] b'"
    "\<not> v \<le> r \<Longrightarrow>
       outcome clk taker b [(unat i, k, r)] (qput (depth b) s (unat i) ((k, v - r) # os)) [] b'"
    "best b' = best b" "best_qty b' = best_qty b"
proof -
  let ?j = "unat i" and ?q = "queue_of b" and ?fl = "free_list (pool b)"
  let ?l = "levels b s ! ?j"
  have co: "core b ?q ?fl {}" by (rule book_okD(1) [OF ok])
  then have so: "sound b ?q ?fl {}" by (simp add: core_def)
  have j: "?j < band b" using depth_in_band [OF ok, of s ?j] dp by simp
  have jl: "?j < length (levels b s)" by (rule book_okD(6) [OF ok j])
  obtain x xs where qx: "?q s ?j = [] @ x # xs" and kv: "k = oid (ord b x)" "v = oqty (ord b x)"
    and os: "os = map (order_view b) xs"
    using dp by (cases "?q s ?j") (auto simp: depth_def view_alt order_view_def)
  have xq: "x \<in> set (?q s ?j)" using qx by simp
  note mx = links_member [OF soundD(1) [OF so] xq]
  have hd: "head_idx ?l = x" using head_of_queue [OF ok j, of s] qx by simp
  have lp: "lprice ?l = base b + i" using coreD(6) [OF co, of s ?j] qx by simp
  define m where "m = min r v"
  define t where "t = \<lparr>maker_id = k, taker_id = taker, tprice = base b + i, tqty = m,
    timestamp = clk (length (fills b))\<rparr>"
  define e where "e = b\<lparr>fills := fills b @ [t]\<rparr>"
  let ?b = "shrunk e s ?j x m"
  have ee: "ord e = ord b" "view e = view b" "order_view e = order_view b"
    "pool e = pool b" "levels e = levels b" "ids e = ids b" "live_order_count e = live_order_count b"
    "base e = base b" "base_set e = base_set b" "best e = best b" "best_qty e = best_qty b"
    "band e = band b" "fills e = fills b @ [t]"
    by (simp_all add: e_def ord_def view_def order_view_def band_def fun_eq_iff)
  have se: "sound e ?q ?fl {}"
    using so by (simp add: sound_def ee) (simp add: e_def links_def shape_def band_def)
  have xe: "unat x < pool_size (pool e)" using mx(2) by (simp add: ee)
  note sh = shrink_sound [OF se qx, of m] and o = shrunk_ord [OF xe, of s ?j m]
  have ob: "oid (ord ?b x) = k" "oqty (ord ?b x) = v - m" using kv by (simp_all add: o ee)
  have vb: "view ?b ?q = qput (view b ?q) s ?j ((k, v - m) # os)"
    using sh(2) kv os by (simp add: ee)
  have nz: "v \<noteq> 0" using book_okD(10) [OF ok, of "(k, v)" s ?j] dp by simp
  have zero: "v - m = 0 \<longleftrightarrow> v \<le> r" by (auto simp: m_def min_def)
  have acc: "order_at b x = Some (ord b x)" "level_at b s i = Some ?l"
    "order_at ?b x = Some (ord ?b x)" "min r (oqty (ord b x)) = m" "oid (ord b x) = k"
    "emit_trade clk k taker (lprice ?l) m b = e"
    using mx(2) xe jl kv by (simp_all add: access_simps m_def e_def emit_trade_def lp t_def)
  have upd: "do { b \<leftarrow> upd_order e x (\<lambda>ord. ord\<lparr>oqty := oqty ord - m\<rparr>);
      b \<leftarrow> upd_level b s i (\<lambda>l. l\<lparr>total_volume := total_volume l - m\<rparr>); F b } = F ?b" for F :: "_ \<Rightarrow> 'z option"
    using xe jl by (simp add: access_simps shrunk_def ee)
  have run: "fill_step clk taker s i b x r = do {
      b' \<leftarrow> (if v \<le> r then do {
          b \<leftarrow> level_remove ?b s i x; ord \<leftarrow> order_at b x; b \<leftarrow> erase_id b (oid ord);
          b \<leftarrow> free_slot b x; Some (dec_live b) } else Some ?b);
      Some (b', nxt (pool b) x, r - m) }"
    unfolding fill_step_def acc(1) bind.bind_lunit Let_def acc(2,4-6) upd acc(3) ob(2) zero
    by (simp add: nxt_def ord_def)
  show ?thesis
  proof (cases "v \<le> r")
    case True
    then have m: "m = v" by (simp add: m_def min_def)
    obtain b1 b2 b3 where st: "level_remove ?b s i x = Some b1" "unat x < pool_size (pool b1)"
      "oid (ord b1 x) = oid (ord ?b x)" "erase_id b1 k = Some b2" "free_slot b2 x = Some b3"
      and s3: "sound b3 (qput ?q s ?j ([] @ xs)) (x # ?fl) {}"
      and v3: "view b3 (qput ?q s ?j ([] @ xs)) = qput (view ?b ?q) s ?j (map (order_view ?b) ([] @ xs))"
      and er: "id_erase (ids ?b) k = Some (ids b3)" and f3: "fills b3 = fills ?b"
      and c3: "live_order_count b3 = live_order_count ?b" and sd: "steady ?b b3"
      and da: "same_data (pool ?b) (pool b3)"
      using retire_sound [OF sh(1) qx, of k] by metis
    have "map (order_view ?b) xs = os"
    proof -
      have "x \<notin> set xs"
        using linksD(4) [OF soundD(1) [OF so] j, of s] qx by (simp add: level_rep_def)
      then show ?thesis unfolding os using o ee by (auto simp: order_view_def)
    qed
    then have v3': "view b3 (qput ?q s ?j xs) = qput (view b ?q) s ?j os"
      using v3 vb by simp
    have "kv' \<in> set (view b3 (qput ?q s ?j xs) s' j') \<Longrightarrow> snd kv' \<noteq> 0" for kv' s' j'
      using coreD(5) [OF co, of kv' s' j'] coreD(5) [OF co, of kv' s ?j] dp
      unfolding v3' by (auto simp: depth_def split: if_splits)
    then have "core (dec_live b3) (qput ?q s ?j xs) (x # ?fl) {}"
      using s3 by (auto simp: core_def)
    note k3 = core_book_ok [OF this]
    have "nxt (pool b) x = head_idx (levels (dec_live b3) s ! ?j)"
    proof -
      have "?j < band (dec_live b3)" using j sd by (simp add: steady_def ee)
      then show ?thesis
        using head_of_queue [OF k3(1), of ?j s] k3(2) next_of_head [OF ok, of s ?j x xs] qx by simp
    qed
    moreover have "tidy_step b (dec_live b3)"
    proof (rule tidy_step_retire [OF qx _ book_okD(2) [OF ok]])
      show "oid (ord (dec_live b3) y) = oid (ord b y)" for y
        using same_dataD(2) [OF da, of y] o [of y] by (simp add: ord_def ee split: if_splits)
    qed (use k3(2) er kv in \<open>simp_all add: ee\<close>)
    ultimately have "nxt (pool b) x = head_idx (levels (dec_live b3) s ! ?j)"
      and td: "tidy_step b (dec_live b3)" by auto
    moreover have "outcome clk taker b [(?j, k, v)] (qput (depth b) s ?j os) [k] (dec_live b3)"
      using k3 v3' er f3 c3 sd td
      by (simp add: outcome_def depth_def t_def m dec_live_count steady_def ee)
    moreover have "fill_step clk taker s i b x r = Some (dec_live b3, nxt (pool b) x, r - m)"
      unfolding run using True st ob by (simp add: access_simps)
    ultimately show ?thesis using that True sd hd by (simp add: m_def steady_def ee)
  next
    case False
    then have m: "m = r" by (simp add: m_def min_def not_le less_imp_le)
    have "kv' \<in> set (view ?b ?q s' j') \<Longrightarrow> snd kv' \<noteq> 0" for kv' s' j'
      using coreD(5) [OF co, of kv' s' j'] coreD(5) [OF co, of kv' s ?j] dp False zero
      unfolding vb by (auto simp: depth_def split: if_splits)
    then have "core ?b ?q ?fl {}" using sh(1) by (auto simp: core_def)
    note kb = core_book_ok [OF this]
    have "tidy_step b ?b"
      by (rule tidy_step_same) (simp_all add: kb(2) ee o)
    then have "outcome clk taker b [(?j, k, r)] (qput (depth b) s ?j ((k, v - r) # os)) [] ?b"
      using kb vb by (simp add: outcome_def depth_def t_def m ee)
    then show ?thesis using that False run hd by (simp add: m_def ee)
  qed
qed

section \<open>One level\<close>

lemma fill_level_correct:
  assumes "book_ok b" and "unat i < band b"
  shows "\<exists>b'. fill_level clk taker s i b (head_idx (levels b s ! unat i)) r =
      Some (b', snd (snd (fifo r (depth b s (unat i))))) \<and>
    outcome clk taker b (map (Pair (unat i)) (fst (fifo r (depth b s (unat i)))))
      (qput (depth b) s (unat i) (fst (snd (fifo r (depth b s (unat i)))))) (dead r (depth b s (unat i))) b' \<and>
    best b' = best b \<and> best_qty b' = best_qty b"
  using assms
proof (induction "depth b s (unat i)" arbitrary: b r)
  case Nil
  have "qput (depth b) s (unat i) [] = depth b" by (simp add: Nil(1))
  moreover have "head_idx (levels b s ! unat i) = NULL_IDX"
    using book_okD(7) [OF Nil(2,3), of s] Nil(1) by (simp add: level_empty_def)
  ultimately show ?case
    using outcome_refl [OF Nil(2)] by (subst fill_level.simps) (simp flip: Nil(1))
next
  case (Cons kv os)
  obtain k v where kv: "kv = (k, v)" by fastforce
  note dp = Cons(2) [symmetric, unfolded kv]
  have hd: "head_idx (levels b s ! unat i) \<noteq> NULL_IDX"
    using book_okD(7) [OF Cons(3,4), of s] dp by (simp add: level_empty_def)
  show ?case
  proof (cases "r = 0")
    case True
    then show ?thesis
      using outcome_refl [OF Cons(3)] by (subst fill_level.simps) simp
  next
    case False
    then have r: "0 < r" by (simp add: word_gt_0)
    obtain b1 nx where st:
      "fill_step clk taker s i b (head_idx (levels b s ! unat i)) r = Some (b1, nx, r - min r v)"
      and full: "v \<le> r \<Longrightarrow> nx = head_idx (levels b1 s ! unat i) \<and>
       outcome clk taker b [(unat i, k, v)] (qput (depth b) s (unat i) os) [k] b1"
      and part: "\<not> v \<le> r \<Longrightarrow>
       outcome clk taker b [(unat i, k, r)] (qput (depth b) s (unat i) ((k, v - r) # os)) [] b1"
      and bb: "best b1 = best b" "best_qty b1 = best_qty b"
      using fill_step_correct [OF Cons(3) dp r, of clk taker] by metis
    have run: "fill_level clk taker s i b (head_idx (levels b s ! unat i)) r =
        fill_level clk taker s i b1 nx (r - min r v)"
      using st hd r by (subst fill_level.simps) simp
    show ?thesis
    proof (cases "v \<le> r")
      case True
      note f = full [OF True]
      then have o1: "outcome clk taker b [(unat i, k, v)] (qput (depth b) s (unat i) os) [k] b1" by simp
      have d1: "depth b1 s (unat i) = os" using outcomeD(2) [OF o1] by simp
      have i1: "unat i < band b1" using outcomeD(8) [OF o1] Cons(4) by simp
      obtain b2 where b2: "fill_level clk taker s i b1 (head_idx (levels b1 s ! unat i)) (r - v) =
          Some (b2, snd (snd (fifo (r - v) os)))"
        "outcome clk taker b1 (map (Pair (unat i)) (fst (fifo (r - v) os)))
          (qput (depth b1) s (unat i) (fst (snd (fifo (r - v) os)))) (dead (r - v) os) b2"
        "best b2 = best b1" "best_qty b2 = best_qty b1"
        using Cons(1) [OF d1 [symmetric] outcomeD(1) [OF o1] i1, of "r - v"] d1 by metis
      have m: "min r v = v" using True by (simp add: min_def)
      show ?thesis
        using run f b2 bb outcome_trans [OF o1 b2(2)] outcomeD(2) [OF o1] r True
        by (simp add: m dp word_gt_0 split_beta)
    next
      case False
      then have m: "min r v = r" by (simp add: min_def not_le less_imp_le)
      have "fill_level clk taker s i b1 nx 0 = Some (b1, 0)"
        by (subst fill_level.simps) simp
      then show ?thesis
        using run part [OF False] bb r False by (simp add: m dp word_gt_0)
    qed
  qed
qed

section \<open>The next best level\<close>

lemma set_best_simps [simp]:
  "best (set_best b s p v) = (best b)(s := p)" "best_qty (set_best b s p v) = (best_qty b)(s := v)"
  "depth (set_best b s p v) = depth b" "book_ok (set_best b s p v) = book_ok b"
  "fills (set_best b s p v) = fills b" "ids (set_best b s p v) = ids b"
  "live_order_count (set_best b s p v) = live_order_count b" "base (set_best b s p v) = base b"
  "base_set (set_best b s p v) = base_set b" "band (set_best b s p v) = band b"
  "pool (set_best b s p v) = pool b" "levels (set_best b s p v) = levels b"
  "queue_of (set_best b s p v) = queue_of b" "ord (set_best b s p v) = ord b"
proof -
  show q: "queue_of (set_best b s p v) = queue_of b"
    by (simp add: queue_of_def set_best_def band_def fun_eq_iff)
  have w: "view (set_best b s p v) = view b"
    by (simp add: view_def ord_def set_best_def fun_eq_iff)
  show "ord (set_best b s p v) = ord b" by (simp add: ord_def set_best_def fun_eq_iff)
  show "depth (set_best b s p v) = depth b" by (simp add: depth_def q w)
  show "book_ok (set_best b s p v) = book_ok b"
    unfolding book_ok_def q core_def w sound_def
    by (simp add: set_best_def links_def shape_def band_def)
qed (simp_all add: set_best_def band_def)

lemma index_ok_set_best [simp]: "index_ok (set_best b s p v) = index_ok b"
  by (simp add: index_ok_def)

lemma tidy_step_set_best [simp]: "tidy_step b (set_best b' s p v) = tidy_step b b'"
  by (simp add: tidy_step_def)

lemma set_best_outcome:
  "outcome clk taker b fs V ks (set_best b' s p v) = outcome clk taker b fs V ks b'"
  by (simp add: outcome_def)

lemma update_best_ask_correct:
  assumes ok: "book_ok b"
  defines "st \<equiv> (if best b SELL = NULL_IDX \<or> band b \<le> unat (best b SELL) then 0 else unat (best b SELL))"
  obtains p where
    "update_best_ask b = Some (set_best b SELL p
       (if p = NULL_IDX then 0 else volume (depth b SELL (unat p))))"
    "p = NULL_IDX \<longrightarrow> (\<forall>i \<ge> st. depth b SELL i = [])"
    "p \<noteq> NULL_IDX \<longrightarrow> st \<le> unat p \<and> depth b SELL (unat p) \<noteq> [] \<and>
       (\<forall>i. st \<le> i \<and> i < unat p \<longrightarrow> depth b SELL i = [])"
proof -
  let ?bm = "bitmap b SELL" and ?n = "64 * length (bitmap b SELL)"
  have sh: "shape b" by (rule book_okD(4) [OF ok])
  note D = shapeD [OF sh]
  define start where "start = (if length (levels b SELL) \<le> unat (best b SELL) then 0 else best b SELL)"
  have s: "unat start = st" "unat start < band b"
    using D(1,3,4) by (auto simp: start_def st_def unat_NULL_IDX)
  then have sn: "unat start < ?n" using D(6) by blast
  define w where "w = walk_up (marked ?bm) st (?n - st)"
  have fs: "find_next_set_bit ?bm start = Some (idx_of w)"
    using find_next_walk [OF sn D(5)] s(1) by (simp add: w_def)
  have mk: "marked ?bm = (\<lambda>i. depth b SELL i \<noteq> [])" by (rule book_okD(9) [OF ok])
  have bn: "band b \<le> ?n" using D(2) by simp
  show ?thesis
  proof (cases w)
    case None
    have "depth b SELL i = []" if "st \<le> i" for i
    proof (cases "i < ?n")
      case True
      then show ?thesis using that None walk_up_None [of "marked ?bm" st "?n - st"] s sn
        by (simp add: w_def mk)
    qed (use bn book_okD(5) [OF ok] in auto)
    then show ?thesis using that [of NULL_IDX] fs None
      by (simp add: update_best_ask_def start_def [symmetric] Let_def)
  next
    case (Some j)
    then have j: "st \<le> j" "depth b SELL j \<noteq> []" "\<forall>i. st \<le> i \<and> i < j \<longrightarrow> depth b SELL i = []"
      using walk_up_Some [of "marked ?bm" st "?n - st" j] s by (auto simp: w_def mk)
    have jb: "j < band b" by (rule depth_in_band [OF ok j(2)])
    then have ju: "unat (of_nat j :: u32) = j" using D(4) by (simp add: unat_of_nat_u32)
    then have jn: "(of_nat j :: u32) \<noteq> NULL_IDX" using jb D(4) by (intro not_null_bound) auto
    have "level_at b SELL (of_nat j) = Some (levels b SELL ! j)"
      using ju jb D(1) by (simp add: access_simps)
    then show ?thesis using that [of "of_nat j"] fs Some j ju jn book_okD(8) [OF ok jb]
      by (simp add: update_best_ask_def start_def [symmetric] Let_def)
  qed
qed

lemma update_best_bid_correct:
  assumes ok: "book_ok b" and bd: "best b BUY \<noteq> NULL_IDX \<Longrightarrow> unat (best b BUY) < band b"
  defines "st \<equiv> (if best b BUY = NULL_IDX then band b - 1 else unat (best b BUY))"
  obtains p where
    "update_best_bid b = Some (set_best b BUY p
       (if p = NULL_IDX then 0 else volume (depth b BUY (unat p))))"
    "p = NULL_IDX \<longrightarrow> (\<forall>i \<le> st. depth b BUY i = [])"
    "p \<noteq> NULL_IDX \<longrightarrow> unat p \<le> st \<and> depth b BUY (unat p) \<noteq> [] \<and>
       (\<forall>i. unat p < i \<and> i \<le> st \<longrightarrow> depth b BUY i = [])"
proof -
  let ?bm = "bitmap b BUY"
  have sh: "shape b" by (rule book_okD(4) [OF ok])
  note D = shapeD [OF sh]
  define start where
    "start = (if best b BUY = NULL_IDX then of_nat (length (levels b BUY)) - 1 else best b BUY)"
  have "(of_nat (band b) - 1 :: u32) = of_nat (band b - 1)" using D(3) by (simp add: of_nat_diff)
  then have "unat (of_nat (band b) - 1 :: u32) = band b - 1" using D(4) by (simp only: unat_of_nat_u32)
  then have s: "unat start = st" "unat start < band b"
    using D(1,3,4) bd by (auto simp: start_def st_def)
  then have sn: "unat start < 64 * length ?bm" using D(6) by blast
  define w where "w = walk_down (marked ?bm) st"
  have fs: "find_prev_set_bit ?bm start = Some (idx_of w)"
    using find_prev_walk [OF sn D(5)] s(1) by (simp add: w_def)
  have mk: "marked ?bm = (\<lambda>i. depth b BUY i \<noteq> [])" by (rule book_okD(9) [OF ok])
  show ?thesis
  proof (cases w)
    case None
    then have "\<forall>i \<le> st. depth b BUY i = []"
      using walk_down_None [of "marked ?bm" st] by (simp add: w_def mk)
    then show ?thesis using that [of NULL_IDX] fs None
      by (simp add: update_best_bid_def start_def [symmetric] Let_def)
  next
    case (Some j)
    then have j: "j \<le> st" "depth b BUY j \<noteq> []" "\<forall>i. j < i \<and> i \<le> st \<longrightarrow> depth b BUY i = []"
      using walk_down_Some [of "marked ?bm" st j] by (auto simp: w_def mk)
    have jb: "j < band b" by (rule depth_in_band [OF ok j(2)])
    then have ju: "unat (of_nat j :: u32) = j" using D(4) by (simp add: unat_of_nat_u32)
    then have jn: "(of_nat j :: u32) \<noteq> NULL_IDX" using jb D(4) by (intro not_null_bound) auto
    have "level_at b BUY (of_nat j) = Some (levels b BUY ! j)"
      using ju jb D(1) by (simp add: access_simps)
    then show ?thesis using that [of "of_nat j"] fs Some j ju jn book_okD(8) [OF ok jb]
      by (simp add: update_best_bid_def start_def [symmetric] Let_def)
  qed
qed

section \<open>The loops over levels\<close>

text \<open>
  \<open>tob_step s b b'\<close>: the top of book of side \<open>s\<close> is live afterwards, as exact and as fresh as
  it was before, and the other side's is untouched.
\<close>

definition tob_step :: "side \<Rightarrow> order_book \<Rightarrow> order_book \<Rightarrow> bool" where
  "tob_step s b b' \<longleftrightarrow> tob_live b' s \<and> (tob_exact b s \<longrightarrow> tob_exact b' s) \<and>
     (tob_fresh b s \<longrightarrow> tob_fresh b' s) \<and>
     (\<forall>s'. s' \<noteq> s \<longrightarrow> best b' s' = best b s' \<and> best_qty b' s' = best_qty b s' \<and> depth b' s' = depth b s')"

lemma tob_step_refl: "tob_live b s \<Longrightarrow> tob_step s b b"
  by (simp add: tob_step_def)

lemma tob_step_trans: "tob_step s b b1 \<Longrightarrow> tob_step s b1 b2 \<Longrightarrow> tob_step s b b2"
  by (simp add: tob_step_def)

text \<open>After a level has been worked on: it still has orders, or the next best one is looked up.\<close>

lemma tob_step_same:
  assumes "best b' = best b" and "depth b' = qput (depth b) s (unat (best b s)) os" and "os \<noteq> []"
    and "\<forall>s'. s' \<noteq> s \<longrightarrow> best_qty b' s' = best_qty b s'" and "best_qty b' s = volume os"
    and "best b s \<noteq> NULL_IDX"
  shows "tob_step s b b'"
  using assms
  by (cases s) (auto simp: tob_step_def tob_live_def tob_exact_def tob_fresh_def better_def fun_eq_iff)

lemma tob_step_ask:
  assumes ok: "book_ok b1" and "best b1 = best b" and "best_qty b1 = best_qty b"
    and d: "depth b1 = qput (depth b) SELL (unat (best b SELL)) []" and bd: "unat (best b SELL) < band b1"
  obtains b' where "update_best_ask b1 = Some b'" "book_ok b'" "tob_step SELL b b'" "depth b' = depth b1"
    "unat (best b SELL) < unat (best b' SELL)"
    "\<forall>i. unat (best b SELL) \<le> i \<and> i < unat (best b' SELL) \<longrightarrow> depth b1 SELL i = []"
    "\<exists>p v. b' = set_best b1 SELL p v"
    "\<And>fs V ks b0. outcome clk taker b0 fs V ks b1 \<Longrightarrow> outcome clk taker b0 fs V ks b'"
proof -
  have b1: "best b1 SELL \<noteq> NULL_IDX" "\<not> band b1 \<le> unat (best b1 SELL)"
    using bd assms(2) shapeD(4) [OF book_okD(4) [OF ok]] by (auto simp: unat_NULL_IDX)
  obtain p where p: "update_best_ask b1 = Some (set_best b1 SELL p
       (if p = NULL_IDX then 0 else volume (depth b1 SELL (unat p))))"
    "p = NULL_IDX \<longrightarrow> (\<forall>i \<ge> unat (best b SELL). depth b1 SELL i = [])"
    "p \<noteq> NULL_IDX \<longrightarrow> unat (best b SELL) \<le> unat p \<and> depth b1 SELL (unat p) \<noteq> [] \<and>
       (\<forall>i. unat (best b SELL) \<le> i \<and> i < unat p \<longrightarrow> depth b1 SELL i = [])"
    using update_best_ask_correct [OF ok] b1 assms(2) by auto
  have e: "depth b1 SELL (unat (best b SELL)) = []" using d by simp
  have "unat (best b SELL) < unat p"
    using p(3) e bd shapeD(4) [OF book_okD(4) [OF ok]] by (cases "p = NULL_IDX") (auto simp: unat_NULL_IDX le_less)
  moreover have z: "\<forall>i. unat (best b SELL) \<le> i \<and> i < unat p \<longrightarrow> depth b1 SELL i = []"
    using p(2,3) by (cases "p = NULL_IDX") auto
  moreover have "depth b1 SELL i = []" if "tob_exact b SELL" "p = NULL_IDX \<or> i < unat p" for i
  proof (cases "i < unat (best b SELL)")
    case True
    then show ?thesis using that(1) d by (simp add: tob_exact_def better_def)
  qed (use that(2) p(2) z in auto)
  then have "tob_step SELL b (set_best b1 SELL p
       (if p = NULL_IDX then 0 else volume (depth b1 SELL (unat p))))"
    using assms(2-3) d p(3) by (auto simp: tob_step_def tob_live_def tob_exact_def tob_fresh_def better_def)
  ultimately show ?thesis using that [OF p(1)] ok by (auto simp: set_best_outcome)
qed

lemma match_against_asks_correct:
  assumes "book_ok b" and "tob_live b SELL" and "unat limit < band b"
  shows "\<exists>b'. match_against_asks clk taker limit r b =
      Some (b', snd (snd (sweep SELL [unat (best b SELL)..<Suc (unat limit)] r (depth b)))) \<and>
    outcome clk taker b (fst (sweep SELL [unat (best b SELL)..<Suc (unat limit)] r (depth b)))
      (fst (snd (sweep SELL [unat (best b SELL)..<Suc (unat limit)] r (depth b))))
      (sweep_dead SELL [unat (best b SELL)..<Suc (unat limit)] r (depth b)) b' \<and>
    tob_step SELL b b'"
  using assms
proof (induction "4294967295 - unat (best b SELL)" arbitrary: b r rule: less_induct)
  case less
  let ?V = "depth b" and ?i = "unat (best b SELL)"
  consider "r = 0" | "best b SELL > limit" | "0 < r" "best b SELL \<le> limit"
    by (metis not_le word_gt_0)
  then show ?case
  proof cases
    case 1
    then show ?thesis
      using outcome_refl [OF less(2)] tob_step_refl [OF less(3)]
      by (subst match_against_asks.simps) simp
  next
    case 2
    then have "[?i..<Suc (unat limit)] = []" by (simp add: word_less_nat_alt)
    then show ?thesis using 2 outcome_refl [OF less(2)] tob_step_refl [OF less(3)]
      by (subst match_against_asks.simps) (simp add: Let_def)
  next
    case 3
    then have il: "?i \<le> unat limit" and nl: "\<not> limit < best b SELL"
      by (simp_all add: word_le_nat_alt not_less)
    then have ib: "?i < band b" using less(4) by simp
    then have inn: "best b SELL \<noteq> NULL_IDX"
      using shapeD(4) [OF book_okD(4) [OF less(2)]] by (auto simp: unat_NULL_IDX)
    have lv: "level_at b SELL (best b SELL) = Some (levels b SELL ! ?i)"
      using book_okD(6) [OF less(2) ib] by (simp add: access_simps)
    define rest where "rest = fst (snd (fifo r (?V SELL ?i)))"
    define r1 where "r1 = snd (snd (fifo r (?V SELL ?i)))"
    define fs where "fs = map (Pair ?i) (fst (fifo r (?V SELL ?i)))"
    define ks where "ks = dead r (?V SELL ?i)"
    have ff: "fifo r (?V SELL ?i) = (fst (fifo r (?V SELL ?i)), rest, r1)" by (simp add: rest_def r1_def)
    obtain b1 where b1: "fill_level clk taker SELL (best b SELL) b (head_idx (levels b SELL ! ?i)) r = Some (b1, r1)"
      and o1: "outcome clk taker b fs (qput ?V SELL ?i rest) ks b1"
      and bb: "best b1 = best b" "best_qty b1 = best_qty b"
      using fill_level_correct [OF less(2) ib] unfolding rest_def r1_def fs_def ks_def by blast
    note d1 = outcomeD [OF o1]
    have ib1: "?i < band b1" using ib d1 by simp
    have lv1: "level_at b1 SELL (best b SELL) = Some (levels b1 SELL ! ?i)"
      using book_okD(6) [OF d1(1) ib1] by (simp add: access_simps)
    have em: "level_empty (levels b1 SELL ! ?i) \<longleftrightarrow> rest = []"
      using book_okD(7) [OF d1(1) ib1, of SELL] d1(2) by simp
    have up: "[?i..<Suc (unat limit)] = ?i # [Suc ?i..<Suc (unat limit)]"
      using il by (intro upt_conv_Cons) simp
    have sw: "sweep SELL [?i..<Suc (unat limit)] r ?V =
        (case sweep SELL [Suc ?i..<Suc (unat limit)] r1 (depth b1) of (gs, W, r2) \<Rightarrow> (fs @ gs, W, r2))"
      "sweep_dead SELL [?i..<Suc (unat limit)] r ?V = ks @ sweep_dead SELL [Suc ?i..<Suc (unat limit)] r1 (depth b1)"
      unfolding up sweep.simps sweep_dead.simps ks_def [symmetric] by (subst ff; simp add: d1(2) fs_def)+
    show ?thesis
    proof (cases "rest = []")
      case False
      then have r1: "r1 = 0" using fifo_rest [of r "?V SELL ?i"] by (simp add: rest_def r1_def)
      let ?b2 = "b1\<lparr>best_qty := (best_qty b1)(SELL := total_volume (levels b1 SELL ! ?i))\<rparr>"
      have b2: "?b2 = set_best b1 SELL (best b SELL) (volume rest)"
        using book_okD(8) [OF d1(1) ib1, of SELL] d1(2) bb by (simp add: set_best_def)
      have "match_against_asks clk taker limit r b = match_against_asks clk taker limit 0 ?b2"
        using 3(1) nl lv b1 lv1 em False r1 by (subst match_against_asks.simps) (simp add: Let_def)
      also have "\<dots> = Some (?b2, 0)" by (subst match_against_asks.simps) simp
      finally have run: "match_against_asks clk taker limit r b = Some (?b2, 0)" .
      have "outcome clk taker b fs (qput ?V SELL ?i rest) ks ?b2"
        unfolding b2 set_best_outcome by (rule o1)
      moreover have "tob_step SELL b ?b2"
        unfolding b2 using False inn bb d1(2) by (intro tob_step_same [where os = rest]) auto
      ultimately show ?thesis using run d1(2) unfolding sw by (simp add: r1)
    next
      case True
      obtain b2 where b2: "update_best_ask b1 = Some b2" "book_ok b2" "tob_step SELL b b2"
        "depth b2 = depth b1" "?i < unat (best b2 SELL)"
        "\<forall>i. ?i \<le> i \<and> i < unat (best b2 SELL) \<longrightarrow> depth b1 SELL i = []"
        and o2: "outcome clk taker b fs (qput ?V SELL ?i rest) ks b2"
        using tob_step_ask [OF d1(1) bb, of clk taker] d1(2) ib1 True o1 by metis
      have lim: "unat limit < band b2" using outcomeD(8) [OF o2] less(4) by simp
      have me: "4294967295 - unat (best b2 SELL) < 4294967295 - ?i"
        using b2(5) unat_lt_max [of "best b2 SELL"] by linarith
      have lv2: "tob_live b2 SELL" using b2(3) by (simp add: tob_step_def)
      have "sweep SELL [Suc ?i..<Suc (unat limit)] r1 (depth b1) =
          sweep SELL [unat (best b2 SELL)..<Suc (unat limit)] r1 (depth b2)"
        "sweep_dead SELL [Suc ?i..<Suc (unat limit)] r1 (depth b1) =
          sweep_dead SELL [unat (best b2 SELL)..<Suc (unat limit)] r1 (depth b2)"
        unfolding b2(4) by (rule sweep_skip_up; use b2(5,6) in simp)+
      note sw2 = sw [unfolded this]
      obtain b3 where b3: "match_against_asks clk taker limit r1 b2 =
          Some (b3, snd (snd (sweep SELL [unat (best b2 SELL)..<Suc (unat limit)] r1 (depth b2))))"
        "outcome clk taker b2 (fst (sweep SELL [unat (best b2 SELL)..<Suc (unat limit)] r1 (depth b2)))
          (fst (snd (sweep SELL [unat (best b2 SELL)..<Suc (unat limit)] r1 (depth b2))))
          (sweep_dead SELL [unat (best b2 SELL)..<Suc (unat limit)] r1 (depth b2)) b3"
        "tob_step SELL b2 b3"
        using less(1) [OF me b2(2) lv2 lim, of r1] by blast
      have "match_against_asks clk taker limit r b = match_against_asks clk taker limit r1 b2"
        using 3(1) nl lv b1 lv1 em True b2(1) by (subst match_against_asks.simps) (simp add: Let_def)
      then show ?thesis
        using b3(1) outcome_trans [OF o2 b3(2)] tob_step_trans [OF b2(3) b3(3)]
        unfolding sw2 by (simp add: split_beta)
    qed
  qed
qed

text \<open>The same for bids, whose levels are visited from \<open>bid_top\<close> downward.\<close>

definition bid_top :: "order_book \<Rightarrow> nat" where
  "bid_top b = (if best b BUY = NULL_IDX then 0 else Suc (unat (best b BUY)))"

lemma tob_step_bid:
  assumes ok: "book_ok b1" and "best b1 = best b" and "best_qty b1 = best_qty b"
    and d: "depth b1 = qput (depth b) BUY (unat (best b BUY)) []" and bd: "unat (best b BUY) < band b1"
  obtains b' where "update_best_bid b1 = Some b'" "book_ok b'" "tob_step BUY b b'" "depth b' = depth b1"
    "bid_top b' \<le> unat (best b BUY)"
    "\<forall>i. bid_top b' \<le> i \<and> i \<le> unat (best b BUY) \<longrightarrow> depth b1 BUY i = []"
    "\<exists>p v. b' = set_best b1 BUY p v"
    "\<And>fs V ks b0. outcome clk taker b0 fs V ks b1 \<Longrightarrow> outcome clk taker b0 fs V ks b'"
proof -
  have b1: "best b1 BUY \<noteq> NULL_IDX" "unat (best b1 BUY) < band b1"
    using bd assms(2) shapeD(4) [OF book_okD(4) [OF ok]] by (auto simp: unat_NULL_IDX)
  obtain p where p: "update_best_bid b1 = Some (set_best b1 BUY p
       (if p = NULL_IDX then 0 else volume (depth b1 BUY (unat p))))"
    "p = NULL_IDX \<longrightarrow> (\<forall>i \<le> unat (best b BUY). depth b1 BUY i = [])"
    "p \<noteq> NULL_IDX \<longrightarrow> unat p \<le> unat (best b BUY) \<and> depth b1 BUY (unat p) \<noteq> [] \<and>
       (\<forall>i. unat p < i \<and> i \<le> unat (best b BUY) \<longrightarrow> depth b1 BUY i = [])"
    using update_best_bid_correct [OF ok b1(2)] b1(1) assms(2) by auto
  let ?b' = "set_best b1 BUY p (if p = NULL_IDX then 0 else volume (depth b1 BUY (unat p)))"
  have e: "depth b1 BUY (unat (best b BUY)) = []" using d by simp
  have "bid_top ?b' \<le> unat (best b BUY)"
    using p(3) e by (cases "p = NULL_IDX") (auto simp: bid_top_def Suc_le_eq le_less)
  moreover have z: "\<forall>i. bid_top ?b' \<le> i \<and> i \<le> unat (best b BUY) \<longrightarrow> depth b1 BUY i = []"
    using p(2,3) by (cases "p = NULL_IDX") (auto simp: bid_top_def Suc_le_eq)
  moreover have "depth b1 BUY i = []" if "tob_exact b BUY" "p = NULL_IDX \<or> unat p < i" for i
  proof (cases "unat (best b BUY) < i")
    case True
    then show ?thesis using that(1) d by (simp add: tob_exact_def better_def)
  next
    case False
    then show ?thesis using that(2) p(2) z by (auto simp: bid_top_def Suc_le_eq)
  qed
  then have "tob_step BUY b ?b'"
    using assms(2-3) d p(3) by (auto simp: tob_step_def tob_live_def tob_exact_def tob_fresh_def better_def)
  ultimately show ?thesis using that [OF p(1)] ok by (auto simp: set_best_outcome)
qed

lemma match_against_bids_correct:
  assumes "book_ok b" and "tob_live b BUY"
  shows "\<exists>b'. match_against_bids clk taker limit r b =
      Some (b', snd (snd (sweep BUY (rev [unat limit..<bid_top b]) r (depth b)))) \<and>
    outcome clk taker b (fst (sweep BUY (rev [unat limit..<bid_top b]) r (depth b)))
      (fst (snd (sweep BUY (rev [unat limit..<bid_top b]) r (depth b))))
      (sweep_dead BUY (rev [unat limit..<bid_top b]) r (depth b)) b' \<and>
    tob_step BUY b b'"
  using assms
proof (induction "bid_top b" arbitrary: b r rule: less_induct)
  case less
  let ?V = "depth b" and ?i = "unat (best b BUY)" and ?n = "unat limit"
  consider "r = 0" | "best b BUY = NULL_IDX \<or> best b BUY < limit"
    | "0 < r" "best b BUY \<noteq> NULL_IDX" "\<not> best b BUY < limit"
    by (metis word_gt_0)
  then show ?case
  proof cases
    case 1
    then show ?thesis
      using outcome_refl [OF less(2)] tob_step_refl [OF less(3)]
      by (subst match_against_bids.simps) simp
  next
    case 2
    then have "[?n..<bid_top b] = []" by (auto simp: word_less_nat_alt bid_top_def)
    then show ?thesis using 2 outcome_refl [OF less(2)] tob_step_refl [OF less(3)]
      by (subst match_against_bids.simps) (auto simp: Let_def)
  next
    case 3
    then have il: "?n \<le> ?i" and inn: "best b BUY \<noteq> NULL_IDX" and bt: "bid_top b = Suc ?i"
      by (simp_all add: word_less_nat_alt not_less bid_top_def)
    have ib: "?i < band b" using tob_live_in_band [OF less(2,3) inn] .
    have lv: "level_at b BUY (best b BUY) = Some (levels b BUY ! ?i)"
      using book_okD(6) [OF less(2) ib] by (simp add: access_simps)
    have em0: "\<not> level_empty (levels b BUY ! ?i)"
      using book_okD(7) [OF less(2) ib, of BUY] less(3) inn by (simp add: tob_live_def)
    define rest where "rest = fst (snd (fifo r (?V BUY ?i)))"
    define r1 where "r1 = snd (snd (fifo r (?V BUY ?i)))"
    define fs where "fs = map (Pair ?i) (fst (fifo r (?V BUY ?i)))"
    define ks where "ks = dead r (?V BUY ?i)"
    have ff: "fifo r (?V BUY ?i) = (fst (fifo r (?V BUY ?i)), rest, r1)" by (simp add: rest_def r1_def)
    obtain b1 where b1: "fill_level clk taker BUY (best b BUY) b (head_idx (levels b BUY ! ?i)) r = Some (b1, r1)"
      and o1: "outcome clk taker b fs (qput ?V BUY ?i rest) ks b1"
      and bb: "best b1 = best b" "best_qty b1 = best_qty b"
      using fill_level_correct [OF less(2) ib] unfolding rest_def r1_def fs_def ks_def by blast
    note d1 = outcomeD [OF o1]
    have ib1: "?i < band b1" using ib d1 by simp
    have lv1: "level_at b1 BUY (best b BUY) = Some (levels b1 BUY ! ?i)"
      using book_okD(6) [OF d1(1) ib1] by (simp add: access_simps)
    have em: "level_empty (levels b1 BUY ! ?i) \<longleftrightarrow> rest = []"
      using book_okD(7) [OF d1(1) ib1, of BUY] d1(2) by simp
    have dn: "rev [?n..<bid_top b] = ?i # rev [?n..<?i]" using il bt by simp
    have sw: "sweep BUY (rev [?n..<bid_top b]) r ?V =
        (case sweep BUY (rev [?n..<?i]) r1 (depth b1) of (gs, W, r2) \<Rightarrow> (fs @ gs, W, r2))"
      "sweep_dead BUY (rev [?n..<bid_top b]) r ?V = ks @ sweep_dead BUY (rev [?n..<?i]) r1 (depth b1)"
      unfolding dn sweep.simps sweep_dead.simps ks_def [symmetric] by (subst ff; simp add: d1(2) fs_def)+
    show ?thesis
    proof (cases "rest = []")
      case False
      then have r1: "r1 = 0" using fifo_rest [of r "?V BUY ?i"] by (simp add: rest_def r1_def)
      let ?b2 = "b1\<lparr>best_qty := (best_qty b1)(BUY := total_volume (levels b1 BUY ! ?i))\<rparr>"
      have b2: "?b2 = set_best b1 BUY (best b BUY) (volume rest)"
        using book_okD(8) [OF d1(1) ib1, of BUY] d1(2) bb by (simp add: set_best_def)
      have "match_against_bids clk taker limit r b = match_against_bids clk taker limit 0 ?b2"
        using 3 lv em0 b1 lv1 em False r1 by (subst match_against_bids.simps) (simp add: Let_def)
      also have "\<dots> = Some (?b2, 0)" by (subst match_against_bids.simps) simp
      finally have run: "match_against_bids clk taker limit r b = Some (?b2, 0)" .
      have "outcome clk taker b fs (qput ?V BUY ?i rest) ks ?b2"
        unfolding b2 set_best_outcome by (rule o1)
      moreover have "tob_step BUY b ?b2"
        unfolding b2 using False inn bb d1(2) by (intro tob_step_same [where os = rest]) auto
      ultimately show ?thesis using run d1(2) unfolding sw by (simp add: r1)
    next
      case True
      obtain b2 where b2: "update_best_bid b1 = Some b2" "book_ok b2" "tob_step BUY b b2"
        "depth b2 = depth b1" "bid_top b2 \<le> ?i"
        "\<forall>i. bid_top b2 \<le> i \<and> i \<le> ?i \<longrightarrow> depth b1 BUY i = []"
        and o2: "outcome clk taker b fs (qput ?V BUY ?i rest) ks b2"
        using tob_step_bid [OF d1(1) bb, of clk taker] d1(2) ib1 True o1 by metis
      have me: "bid_top b2 < bid_top b" using b2(5) bt by simp
      have lv2: "tob_live b2 BUY" using b2(3) by (simp add: tob_step_def)
      have "sweep BUY (rev [?n..<?i]) r1 (depth b1) = sweep BUY (rev [?n..<bid_top b2]) r1 (depth b2)"
        "sweep_dead BUY (rev [?n..<?i]) r1 (depth b1) = sweep_dead BUY (rev [?n..<bid_top b2]) r1 (depth b2)"
        unfolding b2(4) by (rule sweep_skip_down; use b2(5,6) in simp)+
      note sw2 = sw [unfolded this]
      obtain b3 where b3: "match_against_bids clk taker limit r1 b2 =
          Some (b3, snd (snd (sweep BUY (rev [?n..<bid_top b2]) r1 (depth b2))))"
        "outcome clk taker b2 (fst (sweep BUY (rev [?n..<bid_top b2]) r1 (depth b2)))
          (fst (snd (sweep BUY (rev [?n..<bid_top b2]) r1 (depth b2))))
          (sweep_dead BUY (rev [?n..<bid_top b2]) r1 (depth b2)) b3"
        "tob_step BUY b2 b3"
        using less(1) [OF me b2(2) lv2, of r1] by blast
      have "match_against_bids clk taker limit r b = match_against_bids clk taker limit r1 b2"
        using 3 lv em0 b1 lv1 em True b2(1) by (subst match_against_bids.simps) (simp add: Let_def)
      then show ?thesis
        using b3(1) outcome_trans [OF o2 b3(2)] tob_step_trans [OF b2(3) b3(3)]
        unfolding sw2 by (simp add: split_beta)
    qed
  qed
qed

end
