(* ===== verification/Rebase.thy ===== *)
theory Rebase
  imports Matching
begin

text \<open>
  \<open>rebase_base\<close> of \<open>src/core/OrderBook.cpp\<close>: moving the price window of a small book.  Every
  level is rebuilt at its new relative index in fresh arrays (\<open>move_queue\<close>), levels that fall
  outside the window are dropped with their orders (\<open>drop_queue\<close>), the arrays are swapped in,
  and both best prices are recomputed.
\<close>

section \<open>The code\<close>

partial_function (option) move_queue ::
  "order_pool \<Rightarrow> u32 \<Rightarrow> price_level \<Rightarrow> u32 \<Rightarrow> (order_pool \<times> price_level) option" where
  "move_queue p nr dst j =
     (if j = NULL_IDX then Some (p, dst)
      else do {
        p \<leftarrow> pool_upd p j (\<lambda>ord. ord\<lparr>oprice := nr\<rparr>);
        ord \<leftarrow> pool_at p j;
        let nx = next_idx ord;
        (p, dst) \<leftarrow> (if head_idx dst = NULL_IDX
           then do {
             p \<leftarrow> pool_upd p j (\<lambda>ord. ord\<lparr>prev_idx := NULL_IDX\<rparr>);
             Some (p, dst\<lparr>head_idx := j\<rparr>)
           }
           else do {
             p \<leftarrow> pool_upd p (tail_idx dst) (\<lambda>ord. ord\<lparr>next_idx := j\<rparr>);
             p \<leftarrow> pool_upd p j (\<lambda>ord. ord\<lparr>prev_idx := tail_idx dst\<rparr>);
             Some (p, dst)
           });
        p \<leftarrow> pool_upd p j (\<lambda>ord. ord\<lparr>next_idx := NULL_IDX\<rparr>);
        ord \<leftarrow> pool_at p j;
        let dst = dst\<lparr>tail_idx := j, total_volume := total_volume dst + oqty ord,
          order_count := order_count dst + 1\<rparr>;
        move_queue p nr dst nx
      })"

partial_function (option) drop_queue :: "order_book \<Rightarrow> u32 \<Rightarrow> order_book option" where
  "drop_queue b j =
     (if j = NULL_IDX then Some b
      else do {
        ord \<leftarrow> order_at b j;
        let nx = next_idx ord;
        b \<leftarrow> erase_id b (oid ord);
        b \<leftarrow> free_slot b j;
        drop_queue (dec_live b) nx
      })"

declare move_queue.simps [code] drop_queue.simps [code]

text \<open>One iteration of the loop over a side's array: the book with the old arrays, and the new
  array and bitmap of the side.\<close>

definition rebase_level :: "side \<Rightarrow> price \<Rightarrow> nat \<Rightarrow> order_book \<times> price_level list \<times> u64 list \<Rightarrow>
    (order_book \<times> price_level list \<times> u64 list) option" where
  "rebase_level s new_base idx st = (case st of (b, new_levels, new_bitmap) \<Rightarrow> do {
     lvl \<leftarrow> vget (levels b s) idx;
     (if level_empty lvl then Some (b, new_levels, new_bitmap)
      else do {
        let abs_price = base b + of_nat idx;
        let new_rel = int (unat abs_price) - int (unat new_base);
        (if new_rel < 0 \<or> new_rel \<ge> int (band b)
         then do { b \<leftarrow> drop_queue b (head_idx lvl); Some (b, new_levels, new_bitmap) }
         else do {
           let nr = of_int new_rel;
           dst \<leftarrow> vget new_levels (unat nr);
           (p, dst) \<leftarrow> move_queue (pool b) nr (dst\<lparr>lprice := abs_price\<rparr>) (head_idx lvl);
           new_levels \<leftarrow> vset new_levels (unat nr) dst;
           new_bitmap \<leftarrow> bit_set new_bitmap nr;
           Some (b\<lparr>pool := p\<rparr>, new_levels, new_bitmap)
         })
      })
   })"

primrec rebase_levels :: "side \<Rightarrow> price \<Rightarrow> nat list \<Rightarrow> order_book \<times> price_level list \<times> u64 list \<Rightarrow>
    (order_book \<times> price_level list \<times> u64 list) option" where
  "rebase_levels s new_base [] st = Some st"
| "rebase_levels s new_base (idx # is) st = do {
     st \<leftarrow> rebase_level s new_base idx st;
     rebase_levels s new_base is st
   }"

definition rebase_base :: "order_book \<Rightarrow> price \<Rightarrow> order_book option" where
  "rebase_base b new_base =
     (if new_base = base b then Some b
      else do {
        let n = band b;
        let fresh_levels = replicate n new_level;
        let fresh_bitmap = replicate ((n + 63) div 64) 0;
        (b, new_bids, new_bid_bitmap) \<leftarrow>
          rebase_levels BUY new_base [0..<n] (b, fresh_levels, fresh_bitmap);
        (b, new_asks, new_ask_bitmap) \<leftarrow>
          rebase_levels SELL new_base [0..<n] (b, fresh_levels, fresh_bitmap);
        let b = b\<lparr>levels := (levels b)(BUY := new_bids, SELL := new_asks),
          bitmap := (bitmap b)(BUY := new_bid_bitmap, SELL := new_ask_bitmap),
          base := new_base\<rparr>;
        b \<leftarrow> update_best_bid b;
        update_best_ask b
      })"

section \<open>Moving one queue\<close>

lemma set_slot_commute:
  assumes "x \<noteq> y"
  shows "set_slot (set_slot p x o1) y o2 = set_slot (set_slot p y o2) x o1"
proof -
  have "unat x \<noteq> unat y" using assms by simp
  then show ?thesis by (simp add: set_slot_def list_update_swap)
qed

lemma set_slot_twice [simp]: "set_slot (set_slot p x o1) x o2 = set_slot p x o2"
  by (simp add: set_slot_def)

lemma level_rep_slots:
  assumes "level_rep p l s i xs" and "pool_size p' = pool_size p" and "\<And>x. x \<in> set xs \<Longrightarrow> slot p' x = slot p x"
  shows "level_rep p' l s i xs"
proof -
  have "nxt p' x = nxt p x \<and> prv p' x = prv p x" if "x \<in> set xs" for x
    using assms(3) [OF that] by (simp add: nxt_def prv_def)
  then show ?thesis
    using assms dseg_frame [of xs "nxt p'" "nxt p" "prv p'" "prv p"] by (simp add: level_rep_def)
qed

text \<open>One iteration: the order is re-indexed and appended to the new level.\<close>

lemma move_step:
  assumes rep: "level_rep p dst s nr ys" and x: "unat x < pool_size p" "oside (slot p x) = s"
    "x \<noteq> NULL_IDX" "x \<notin> set ys" and w: "unat w = nr" and ps: "pool_size p \<le> 4294967295"
  obtains p' dst' where
    "\<And>nx. nx = nxt p x \<Longrightarrow> move_queue p w dst x = move_queue p' w dst' nx"
    "level_rep p' dst' s nr (ys @ [x])" "lprice dst' = lprice dst"
    "total_volume dst' = total_volume dst + oqty (slot p x)"
    "pool_size p' = pool_size p" "free_head p' = free_head p"
    "\<And>y. y \<notin> set (ys @ [x]) \<Longrightarrow> slot p' y = slot p y"
    "\<And>y. oid (slot p' y) = oid (slot p y) \<and> oqty (slot p' y) = oqty (slot p y) \<and> oside (slot p' y) = oside (slot p y)"
proof -
  define p1 where "p1 = set_slot p x ((slot p x)\<lparr>oprice := w\<rparr>)"
  have s1: "pool_size p1 = pool_size p" "slot p1 = (slot p)(x := (slot p x)\<lparr>oprice := w\<rparr>)"
    "free_head p1 = free_head p"
    using x by (simp_all add: p1_def pool_simps)
  have rep1: "level_rep p1 dst s nr ys"
    by (rule level_rep_slots [OF rep]) (use x s1 in auto)
  have x1: "unat x < pool_size p1" "oside (slot p1 x) = s" "unat (oprice (slot p1 x)) = nr"
    using x w s1 by simp_all
  have nx1: "next_idx (slot p1 x) = nxt p x" using s1(2) by (simp add: nxt_def)
  let ?t = "tail_idx dst"
  let ?v = "total_volume dst + oqty (slot p x)"
  show ?thesis
  proof (cases "ys = []")
    case True
    have hd: "head_idx dst = NULL_IDX" "order_count dst = 0"
      using rep True by (simp_all add: level_rep_def)
    let ?p = "set_slot p1 x ((slot p1 x)\<lparr>prev_idx := NULL_IDX, next_idx := NULL_IDX\<rparr>)"
    let ?d = "dst\<lparr>head_idx := x, tail_idx := x, total_volume := ?v, order_count := order_count dst + 1\<rparr>"
    have "move_queue p w dst x = move_queue ?p w ?d (nxt p x)"
      using x x1 hd nx1 s1 by (subst move_queue.simps) (simp add: access_simps pool_simps p1_def [symmetric])
    moreover have "level_rep ?p ?d s nr [x]"
      by (rule level_rep_snoc_empty [OF x1 x(3) hd(2)])
    ultimately show ?thesis
      using that [of ?p ?d] True x1 s1 by (simp add: pool_simps)
  next
    case False
    have seg: "dseg (nxt p1) (prv p1) NULL_IDX (head_idx dst) ys ?t NULL_IDX"
      using rep1 by (simp add: level_rep_def)
    have hd: "head_idx dst \<noteq> NULL_IDX" using dseg_empty_iff [OF seg] False by simp
    have t: "?t \<in> set ys" using dseg_last_in [OF seg False] False by simp
    then have tp: "unat ?t < pool_size p1" "?t \<noteq> x" using rep1 x by (auto simp: level_rep_def)
    define q where "q = set_slot p1 x ((slot p1 x)\<lparr>prev_idx := ?t, next_idx := NULL_IDX\<rparr>)"
    let ?p = "set_slot q ?t ((slot q ?t)\<lparr>next_idx := x\<rparr>)"
    let ?d = "dst\<lparr>tail_idx := x, total_volume := ?v, order_count := order_count dst + 1\<rparr>"
    have sq: "slot q = (slot p1)(x := (slot p1 x)\<lparr>prev_idx := ?t, next_idx := NULL_IDX\<rparr>)"
      "pool_size q = pool_size p1" "free_head q = free_head p1"
      using x1 by (simp_all add: q_def pool_simps)
    have "set_slot (set_slot p1 ?t ((slot p1 ?t)\<lparr>next_idx := x\<rparr>)) x
        ((slot p1 x)\<lparr>prev_idx := ?t, next_idx := NULL_IDX\<rparr>) = ?p"
      using tp(2) sq(1) by (simp add: q_def set_slot_commute)
    moreover have "pool_at ?p x = Some (slot ?p x)" "oqty (slot ?p x) = oqty (slot p x)"
      using x tp sq s1 by (simp_all add: access_simps pool_simps)
    ultimately have "move_queue p w dst x = move_queue ?p w ?d (nxt p x)"
      using x x1 hd nx1 s1 tp
      by (subst move_queue.simps) (simp add: access_simps pool_simps p1_def [symmetric])
    moreover have "level_rep ?p ?d s nr (ys @ [x])"
      unfolding q_def by (rule level_rep_snoc [OF rep1 False x1 x(3,4)])
    moreover have "slot ?p y = slot p y" if "y \<notin> set (ys @ [x])" for y
      using that t tp sq s1 by (auto simp: pool_simps)
    moreover have "oid (slot ?p y) = oid (slot p y) \<and> oqty (slot ?p y) = oqty (slot p y) \<and>
        oside (slot ?p y) = oside (slot p y)" for y
      using tp sq s1 by (auto simp: pool_simps)
    ultimately show ?thesis using that [of ?p ?d] sq s1 by simp
  qed
qed

lemma move_queue_correct:
  assumes "level_rep p dst s nr ys" and "chain (nxt p) j xs" and "distinct xs" and "set ys \<inter> set xs = {}"
    and "\<forall>x \<in> set xs. unat x < pool_size p \<and> oside (slot p x) = s" and "unat w = nr"
    and "pool_size p \<le> 4294967295"
  shows "\<exists>p' dst'. move_queue p w dst j = Some (p', dst') \<and> level_rep p' dst' s nr (ys @ xs) \<and>
    lprice dst' = lprice dst \<and>
    total_volume dst' = total_volume dst + sum_list (map (\<lambda>x. oqty (slot p x)) xs) \<and>
    pool_size p' = pool_size p \<and> free_head p' = free_head p \<and>
    (\<forall>y. y \<notin> set (ys @ xs) \<longrightarrow> slot p' y = slot p y) \<and>
    (\<forall>y. oid (slot p' y) = oid (slot p y) \<and> oqty (slot p' y) = oqty (slot p y) \<and> oside (slot p' y) = oside (slot p y))"
  using assms
proof (induction xs arbitrary: p dst j ys)
  case Nil
  then show ?case by (subst move_queue.simps) simp
next
  case (Cons x xs)
  have j: "j = x" "x \<noteq> NULL_IDX" "chain (nxt p) (nxt p x) xs" using Cons.prems(2) by auto
  have x: "unat x < pool_size p" "oside (slot p x) = s" "x \<notin> set ys" using Cons.prems by auto
  obtain p1 d1 where st: "move_queue p w dst x = move_queue p1 w d1 (nxt p x)"
    and rep: "level_rep p1 d1 s nr (ys @ [x])" and lp: "lprice d1 = lprice dst"
    and vol: "total_volume d1 = total_volume dst + oqty (slot p x)"
    and sz: "pool_size p1 = pool_size p" "free_head p1 = free_head p"
    and fr: "\<And>y. y \<notin> set (ys @ [x]) \<Longrightarrow> slot p1 y = slot p y"
    and da: "\<And>y. oid (slot p1 y) = oid (slot p y) \<and> oqty (slot p1 y) = oqty (slot p y) \<and> oside (slot p1 y) = oside (slot p y)"
    using move_step [OF Cons.prems(1) x(1,2) j(2) x(3) Cons.prems(6,7)] by metis
  have fx: "slot p1 y = slot p y" if "y \<in> set xs" for y
    using that Cons.prems(3,4) by (intro fr) auto
  have "chain (nxt p1) (nxt p x) xs"
    using j(3) chain_frame [of xs "nxt p1" "nxt p"] fx by (simp add: nxt_def)
  moreover have "\<forall>y \<in> set xs. unat y < pool_size p1 \<and> oside (slot p1 y) = s"
    using Cons.prems(5) sz fx by simp
  moreover have "set (ys @ [x]) \<inter> set xs = {}" using Cons.prems(3,4) by auto
  ultimately obtain p' d' where r: "move_queue p1 w d1 (nxt p x) = Some (p', d')"
    "level_rep p' d' s nr ((ys @ [x]) @ xs)" "lprice d' = lprice d1"
    "total_volume d' = total_volume d1 + sum_list (map (\<lambda>x. oqty (slot p1 x)) xs)"
    "pool_size p' = pool_size p1" "free_head p' = free_head p1"
    "\<forall>y. y \<notin> set ((ys @ [x]) @ xs) \<longrightarrow> slot p' y = slot p1 y"
    "\<forall>y. oid (slot p' y) = oid (slot p1 y) \<and> oqty (slot p' y) = oqty (slot p1 y) \<and> oside (slot p' y) = oside (slot p1 y)"
    using Cons.IH [of p1 d1 "ys @ [x]" "nxt p x"] rep Cons.prems(3,6,7) sz by auto
  have "map (\<lambda>x. oqty (slot p1 x)) xs = map (\<lambda>x. oqty (slot p x)) xs" using da by simp
  then show ?case using r st j(1) lp vol sz fr da by (simp add: ac_simps)
qed

section \<open>Dropping one queue\<close>

lemma drop_queue_correct:
  assumes "table_ok (ids b)" and "free_rep (pool b) fl" and "chain (nxt (pool b)) j xs" and "distinct xs"
    and "set fl \<inter> set xs = {}" and "\<forall>x \<in> set xs. unat x < pool_size (pool b)"
  shows "\<exists>p m. drop_queue b j = Some (b\<lparr>pool := p, ids := m,
      live_order_count := of_nat (unat (live_order_count b) - length xs)\<rparr>) \<and>
    free_rep p (rev xs @ fl) \<and> table_ok m \<and> erase_all (ids b) (map (\<lambda>x. oid (slot (pool b) x)) xs) = Some m \<and>
    pool_size p = pool_size (pool b) \<and> (\<forall>y. y \<notin> set xs \<longrightarrow> slot p y = slot (pool b) y) \<and>
    (\<forall>y. data (slot p y) = data (slot (pool b) y))"
  using assms
proof (induction xs arbitrary: b j fl)
  case Nil
  then show ?case by (subst drop_queue.simps) (auto intro!: exI [of _ "pool b"] exI [of _ "ids b"])
next
  case (Cons x xs)
  let ?p = "pool b"
  have j: "j = x" "x \<noteq> NULL_IDX" "chain (nxt ?p) (nxt ?p x) xs" using Cons.prems(3) by auto
  have x: "unat x < pool_size ?p" "x \<notin> set fl" "x \<notin> set xs" using Cons.prems by auto
  obtain m where m: "id_erase (ids b) (oid (slot ?p x)) = Some m" "table_ok m"
    using erase_gen [OF Cons.prems(1)] by metis
  define c where "c = (of_nat (unat (live_order_count b) - 1) :: u32)"
  have uc: "unat c = unat (live_order_count b) - 1"
    unfolding c_def using unat_lt_max [of "live_order_count b"] by (intro unat_of_nat_u32) simp
  let ?b1 = "b\<lparr>pool := returned ?p x, ids := m, live_order_count := c\<rparr>"
  have st: "drop_queue b x = drop_queue ?b1 (nxt ?p x)"
  proof -
    have "erase_id b (oid (slot ?p x)) = Some (b\<lparr>ids := m\<rparr>)" using m by (simp add: erase_id_def)
    moreover have "free_slot (b\<lparr>ids := m\<rparr>) x = Some (b\<lparr>ids := m, pool := returned ?p x\<rparr>)"
      using x by (simp add: free_slot_def deallocate_in)
    moreover have "dec_live (b\<lparr>ids := m, pool := returned ?p x\<rparr>) = ?b1"
      by (simp add: dec_live_set c_def)
    ultimately show ?thesis
      using x j by (subst drop_queue.simps) (simp add: access_simps ord_def nxt_def)
  qed
  have sl: "slot (returned ?p x) y = slot ?p y" if "y \<noteq> x" for y
    using that x by (simp add: returned_def pool_simps)
  have da: "data (slot (returned ?p x) y) = data (slot ?p y)" for y
    using same_data_returned [OF x(1)] by (simp add: same_data_def)
  have "chain (nxt (returned ?p x)) (nxt ?p x) xs"
  proof -
    have "nxt (returned ?p x) y = nxt ?p y" if "y \<in> set xs" for y
      using sl [of y] that x(3) unfolding nxt_def by metis
    then show ?thesis using j(3) chain_frame [of xs "nxt (returned ?p x)" "nxt ?p"] by simp
  qed
  moreover have "free_rep (returned ?p x) (x # fl)"
    by (rule free_rep_returned [OF Cons.prems(2) x(1,2)])
  moreover have "set (x # fl) \<inter> set xs = {}" using Cons.prems(4,5) by auto
  ultimately obtain p' m' where r: "drop_queue ?b1 (nxt ?p x) = Some (?b1\<lparr>pool := p', ids := m',
      live_order_count := of_nat (unat c - length xs)\<rparr>)"
    "free_rep p' (rev xs @ (x # fl))" "table_ok m'"
    and er: "erase_all m (map (\<lambda>y. oid (slot (returned ?p x) y)) xs) = Some m'"
    and sz: "pool_size p' = pool_size (returned ?p x)"
    and s': "\<forall>y. y \<notin> set xs \<longrightarrow> slot p' y = slot (returned ?p x) y"
    and d': "\<forall>y. data (slot p' y) = data (slot (returned ?p x) y)"
    using Cons.IH [of ?b1 "x # fl" "nxt ?p x"] m(2) Cons.prems(4,6) by auto
  have "(\<lambda>y. oid (slot (returned ?p x) y)) = (\<lambda>y. oid (slot ?p y))"
    using da by (simp add: data_def fun_eq_iff)
  then have "erase_all (ids b) (map (\<lambda>y. oid (slot ?p y)) (x # xs)) = Some m'"
    using er m(1) by (simp del: map_eq_conv)
  then show ?case
    using r st j(1) sz s' sl d' da uc
    by (intro exI [of _ p'] exI [of _ m']) simp
qed

section \<open>The window and the intermediate states\<close>

text \<open>Where the level at index \<open>i\<close> goes, and the levels of \<open>V\<close> seen through the new window.\<close>

definition new_rel :: "nat \<Rightarrow> nat \<Rightarrow> nat \<Rightarrow> int" where
  "new_rel ob nb i = int i + int ob - int nb"

definition fits :: "nat \<Rightarrow> nat \<Rightarrow> nat \<Rightarrow> nat \<Rightarrow> bool" where
  "fits ob nb n i \<longleftrightarrow> 0 \<le> new_rel ob nb i \<and> new_rel ob nb i < int n"

definition reframed :: "nat \<Rightarrow> nat \<Rightarrow> nat \<Rightarrow> (side \<Rightarrow> nat \<Rightarrow> 'a list) \<Rightarrow> (side \<Rightarrow> nat \<Rightarrow> 'a list)" where
  "reframed ob nb n V = (\<lambda>s j. let i = int j + int nb - int ob in
     if j < n \<and> 0 \<le> i \<and> i < int n then V s (nat i) else [])"

lemma reframed_fits:
  assumes "i < n" and "fits ob nb n i"
  shows "reframed ob nb n V s (nat (new_rel ob nb i)) = V s i"
  using assms by (simp add: reframed_def fits_def new_rel_def nat_less_iff)

lemma reframed_source:
  assumes "reframed ob nb n V s j \<noteq> []"
  obtains i where "i < n" "fits ob nb n i" "j = nat (new_rel ob nb i)" "reframed ob nb n V s j = V s i"
    "nb + j = ob + i"
proof -
  let ?i = "int j + int nb - int ob"
  have i: "j < n" "0 \<le> ?i" "?i < int n" "reframed ob nb n V s j = V s (nat ?i)"
    using assms by (auto simp: reframed_def Let_def split: if_splits)
  show ?thesis
    by (rule that [of "nat ?i"]) (use i in \<open>auto simp: fits_def new_rel_def\<close>)
qed

lemma reframed_other:
  assumes "\<And>i. i < n \<Longrightarrow> fits ob nb n i \<Longrightarrow> nat (new_rel ob nb i) = j \<Longrightarrow> V s i = W s i"
  shows "reframed ob nb n V s j = reframed ob nb n W s j"
proof -
  let ?i = "int j + int nb - int ob"
  show ?thesis
  proof (cases "j < n \<and> 0 \<le> ?i \<and> ?i < int n")
    case True
    then have "V s (nat ?i) = W s (nat ?i)" by (intro assms) (auto simp: fits_def new_rel_def)
    then show ?thesis using True by (simp add: reframed_def)
  next
    case False
    then show ?thesis by (auto simp: reframed_def Let_def)
  qed
qed

lemma new_rel_inj: "fits ob nb n i \<Longrightarrow> fits ob nb n i' \<Longrightarrow>
    nat (new_rel ob nb i) = nat (new_rel ob nb i') \<Longrightarrow> i = i'"
  by (auto simp: fits_def new_rel_def eq_nat_nat_iff)

lemma reframed_map: "reframed ob nb n (\<lambda>s i. map f (V s i)) s j = map f (reframed ob nb n V s j)"
  by (simp add: reframed_def Let_def)

text \<open>
  The loops in mid-flight.  \<open>T s\<close> are the indices of side \<open>s\<close> that are still to come; the
  levels before them have been moved (into \<open>nl\<close>, \<open>bm\<close>) or dropped (\<open>D\<close>, in order).
\<close>

definition done_q :: "queues \<Rightarrow> (side \<Rightarrow> nat set) \<Rightarrow> queues" where
  "done_q q T = (\<lambda>s i. if i \<in> T s then [] else q s i)"

definition moved :: "order_book \<Rightarrow> price \<Rightarrow> queues \<Rightarrow> (side \<Rightarrow> nat set) \<Rightarrow> queues" where
  "moved b nb q T = reframed (unat (base b)) (unat nb) (band b) (done_q q T)"

definition stage :: "order_book \<Rightarrow> price \<Rightarrow> queues \<Rightarrow> u32 list \<Rightarrow> (side \<Rightarrow> nat set) \<Rightarrow>
    (side \<Rightarrow> price_level list) \<Rightarrow> (side \<Rightarrow> u64 list) \<Rightarrow> u32 list \<Rightarrow> order_book \<Rightarrow> bool" where
  "stage b0 nb q fl T nl bm D b \<longleftrightarrow>
     b = b0\<lparr>pool := pool b, ids := ids b, live_order_count := live_order_count b\<rparr> \<and>
     erase_all (ids b0) (map (\<lambda>x. oid (ord b0 x)) D) = Some (ids b) \<and> table_ok (ids b) \<and>
     live_order_count b = of_nat (unat (live_order_count b0) - length D) \<and>
     free_rep (pool b) (rev D @ fl) \<and> pool_size (pool b) = pool_size (pool b0) \<and>
     (\<forall>x. oid (ord b x) = oid (ord b0 x) \<and> oqty (ord b x) = oqty (ord b0 x) \<and> oside (ord b x) = oside (ord b0 x)) \<and>
     (\<forall>s. T s \<subseteq> {..<band b0}) \<and>
     (\<forall>s. \<forall>i \<in> T s. level_rep (pool b) (levels b0 s ! i) s i (q s i)) \<and>
     (\<forall>s. length (nl s) = band b0 \<and> length (bm s) = (band b0 + 63) div 64 \<and>
        marked (bm s) = (\<lambda>j. moved b0 nb q T s j \<noteq> [])) \<and>
     (\<forall>s. \<forall>j < band b0. level_rep (pool b) (nl s ! j) s j (moved b0 nb q T s j) \<and>
        total_volume (nl s ! j) = volume (view b0 (moved b0 nb q T) s j) \<and>
        (moved b0 nb q T s j \<noteq> [] \<longrightarrow> lprice (nl s ! j) = nb + of_nat j)) \<and>
     (\<forall>x. x \<in> set D \<longleftrightarrow> (\<exists>s i. x \<in> set (q s i) \<and> i \<notin> T s \<and> \<not> fits (unat (base b0)) (unat nb) (band b0) i))"

lemma stageD:
  assumes "stage b0 nb q fl T nl bm D b"
  shows "b = b0\<lparr>pool := pool b, ids := ids b, live_order_count := live_order_count b\<rparr>"
    "erase_all (ids b0) (map (\<lambda>x. oid (ord b0 x)) D) = Some (ids b)" "table_ok (ids b)"
    "live_order_count b = of_nat (unat (live_order_count b0) - length D)"
    "free_rep (pool b) (rev D @ fl)" "pool_size (pool b) = pool_size (pool b0)"
    "oid (ord b x) = oid (ord b0 x) \<and> oqty (ord b x) = oqty (ord b0 x) \<and> oside (ord b x) = oside (ord b0 x)"
    "T s \<subseteq> {..<band b0}" "i \<in> T s \<Longrightarrow> level_rep (pool b) (levels b0 s ! i) s i (q s i)"
    "length (nl s) = band b0" "length (bm s) = (band b0 + 63) div 64"
    "marked (bm s) = (\<lambda>j. moved b0 nb q T s j \<noteq> [])"
    "j < band b0 \<Longrightarrow> level_rep (pool b) (nl s ! j) s j (moved b0 nb q T s j)"
    "j < band b0 \<Longrightarrow> total_volume (nl s ! j) = volume (view b0 (moved b0 nb q T) s j)"
    "moved b0 nb q T s j \<noteq> [] \<Longrightarrow> j < band b0 \<Longrightarrow> lprice (nl s ! j) = nb + of_nat j"
    "x \<in> set D \<longleftrightarrow> (\<exists>s i. x \<in> set (q s i) \<and> i \<notin> T s \<and> \<not> fits (unat (base b0)) (unat nb) (band b0) i)"
  using assms unfolding stage_def by blast+

lemma level_rep_lprice [simp]: "level_rep p (l\<lparr>lprice := v\<rparr>) = level_rep p l"
  by (simp add: level_rep_def fun_eq_iff)

text \<open>The slots of the pending, the moved and the dropped levels are disjoint.\<close>

lemma moved_source:
  assumes "x \<in> set (moved b0 nb q T s j)"
  obtains i where "x \<in> set (q s i)" "i \<notin> T s" "fits (unat (base b0)) (unat nb) (band b0) i"
    "j = nat (new_rel (unat (base b0)) (unat nb) i)" "moved b0 nb q T s j = q s i" "i < band b0"
proof -
  have "moved b0 nb q T s j \<noteq> []" using assms by auto
  then obtain i where i: "i < band b0" "fits (unat (base b0)) (unat nb) (band b0) i"
    "j = nat (new_rel (unat (base b0)) (unat nb) i)" "moved b0 nb q T s j = done_q q T s i"
    unfolding moved_def by (elim reframed_source) blast
  then have "i \<notin> T s" "moved b0 nb q T s j = q s i"
    using assms by (auto simp: done_q_def split: if_splits)
  then show ?thesis using that [of i] i assms by simp
qed

lemma moved_remove:
  assumes "i \<in> T s" and "i < band b0"
  shows "moved b0 nb q (T(s := T s - {i})) = (if fits (unat (base b0)) (unat nb) (band b0) i
    then qput (moved b0 nb q T) s (nat (new_rel (unat (base b0)) (unat nb) i)) (q s i) else moved b0 nb q T)"
proof -
  let ?T = "T(s := T s - {i})" and ?nr = "nat (new_rel (unat (base b0)) (unat nb) i)"
  have same: "moved b0 nb q ?T s' j = moved b0 nb q T s' j"
    if "\<not> (s' = s \<and> fits (unat (base b0)) (unat nb) (band b0) i \<and> j = ?nr)" for s' j
    unfolding moved_def by (rule reframed_other) (use that in \<open>auto simp: done_q_def\<close>)
  have "moved b0 nb q ?T s ?nr = q s i" if "fits (unat (base b0)) (unat nb) (band b0) i"
    using reframed_fits [OF assms(2) that, of "done_q q ?T" s] by (simp add: moved_def done_q_def)
  then show ?thesis using same by (intro ext) auto
qed

lemma marked_zero: "marked (replicate m 0) = (\<lambda>j. False)"
  by (rule ext) (auto simp: marked_def div64_less)

lemma level_rep_new [simp]: "level_rep p new_level s i []"
  by (simp add: level_rep_def)

lemma stage_start:
  assumes so: "sound b q fl {}"
  shows "stage b nb q fl (\<lambda>_. {..<band b}) (\<lambda>_. replicate (band b) new_level)
    (\<lambda>_. replicate ((band b + 63) div 64) 0) [] b"
proof -
  have "done_q q (\<lambda>_. {..<band b}) = (\<lambda>s i. [])"
    using linksD(5) [OF soundD(1) [OF so]] by (auto simp: done_q_def fun_eq_iff not_less)
  then have mv: "moved b nb q (\<lambda>_. {..<band b}) = (\<lambda>s j. [])"
    by (auto simp: moved_def reframed_def Let_def fun_eq_iff)
  show ?thesis
    unfolding stage_def mv
    using so linksD(2,4) [OF soundD(1) [OF so]] links_member(1) [OF soundD(1) [OF so]]
    by (auto simp: sound_def marked_zero view_def)
qed

text \<open>Slots of pending levels other than the current one, of moved levels and of the rest.\<close>

lemma stage_disjoint:
  assumes ln: "links b0 q fl {}" and st: "stage b0 nb q fl T nl bm D b" and i: "i \<in> T s"
  shows "i' \<in> T s' \<Longrightarrow> \<not> (s' = s \<and> i' = i) \<Longrightarrow> set (q s' i') \<inter> set (q s i) = {}"
    and "set (moved b0 nb q T s' j) \<inter> set (q s i) = {}"
    and "set (rev D @ fl) \<inter> set (q s i) = {}"
proof -
  have u: "s' = s \<and> i' = i" if "x \<in> set (q s i)" "x \<in> set (q s' i')" for x s' i'
    using links_unique_queue [OF ln that] by simp
  show "set (q s' i') \<inter> set (q s i) = {}" if "\<not> (s' = s \<and> i' = i)"
    using u that by blast
  show "set (moved b0 nb q T s' j) \<inter> set (q s i) = {}"
  proof (rule ccontr)
    assume "set (moved b0 nb q T s' j) \<inter> set (q s i) \<noteq> {}"
    then obtain x where x: "x \<in> set (moved b0 nb q T s' j)" "x \<in> set (q s i)" by blast
    from x(1) obtain i' where "x \<in> set (q s' i')" "i' \<notin> T s'" by (rule moved_source) blast
    then show False using u [OF x(2)] i by blast
  qed
  show "set (rev D @ fl) \<inter> set (q s i) = {}"
  proof -
    have "x \<notin> set fl" if "x \<in> set (q s i)" for x by (rule links_member(6) [OF ln that])
    moreover have "x \<notin> set D" if "x \<in> set (q s i)" for x
      using stageD(16) [OF st, of x] u [OF that] i by blast
    ultimately show ?thesis by auto
  qed
qed

lemma stage_empty:
  assumes st: "stage b0 nb q fl T nl bm D b" and i: "i \<in> T s" "i < band b0" and e: "q s i = []"
  shows "stage b0 nb q fl (T(s := T s - {i})) nl bm D b"
proof -
  have "qput (moved b0 nb q T) s (nat (new_rel (unat (base b0)) (unat nb) i)) [] = moved b0 nb q T"
    if f: "fits (unat (base b0)) (unat nb) (band b0) i"
  proof -
    have "moved b0 nb q T s (nat (new_rel (unat (base b0)) (unat nb) i)) = []"
      using reframed_fits [OF i(2) f, of "done_q q T" s] i(1) by (simp add: moved_def done_q_def)
    then show ?thesis by (metis qput_same)
  qed
  then have mv: "moved b0 nb q (T(s := T s - {i})) = moved b0 nb q T"
    unfolding moved_remove [of i T s, OF i] e by simp
  have "x \<in> set (q s' i') \<and> i' \<notin> (T(s := T s - {i})) s' \<longleftrightarrow> x \<in> set (q s' i') \<and> i' \<notin> T s'" for x s' i'
    using e by auto
  then have D: "(\<exists>s' i'. x \<in> set (q s' i') \<and> i' \<notin> (T(s := T s - {i})) s' \<and> R i') \<longleftrightarrow>
      (\<exists>s' i'. x \<in> set (q s' i') \<and> i' \<notin> T s' \<and> R i')" for x R
    by (metis (no_types, lifting))
  show ?thesis
    using st unfolding stage_def mv D by (auto simp del: fun_upd_apply simp: fun_upd_def split: if_splits)
qed

lemma stage_drop:
  assumes ln: "links b0 q fl {}" and st: "stage b0 nb q fl T nl bm D b" and i: "i \<in> T s" "i < band b0"
    and out: "\<not> fits (unat (base b0)) (unat nb) (band b0) i"
  obtains b' where "drop_queue b (head_idx (levels b s ! i)) = Some b'"
    "stage b0 nb q fl (T(s := T s - {i})) nl bm (D @ q s i) b'"
proof -
  note S = stageD [OF st]
  have lv: "levels b = levels b0" by (subst S(1)) simp
  have rep: "level_rep (pool b) (levels b0 s ! i) s i (q s i)" by (rule S(9) [OF i(1)])
  then have ch: "chain (nxt (pool b)) (head_idx (levels b s ! i)) (q s i)" and d: "distinct (q s i)"
    and bd: "\<forall>x \<in> set (q s i). unat x < pool_size (pool b)"
    by (auto simp: level_rep_def lv dest: dseg_chain)
  note dis = stage_disjoint [OF ln st i(1)]
  obtain p m where r: "drop_queue b (head_idx (levels b s ! i)) = Some (b\<lparr>pool := p, ids := m,
      live_order_count := of_nat (unat (live_order_count b) - length (q s i))\<rparr>)"
    "free_rep p (rev (q s i) @ (rev D @ fl))" "table_ok m"
    "erase_all (ids b) (map (\<lambda>x. oid (slot (pool b) x)) (q s i)) = Some m"
    "pool_size p = pool_size (pool b)" "\<forall>y. y \<notin> set (q s i) \<longrightarrow> slot p y = slot (pool b) y"
    "\<forall>y. data (slot p y) = data (slot (pool b) y)"
    using drop_queue_correct [OF S(3,5) ch d dis(3) bd] by blast
  let ?b = "b\<lparr>pool := p, ids := m, live_order_count := of_nat (unat (live_order_count b) - length (q s i))\<rparr>"
  have mv: "moved b0 nb q (T(s := T s - {i})) = moved b0 nb q T"
    unfolding moved_remove [of i T s, OF i] using out by simp
  have frame: "level_rep p l s' j xs" if "level_rep (pool b) l s' j xs" "set xs \<inter> set (q s i) = {}" for l s' j xs
    by (rule level_rep_slots [OF that(1) r(5)]) (use r(6) that(2) in auto)
  have o: "oid (slot (pool b) x) = oid (ord b0 x)" for x using S(7) [of x] by (simp add: ord_def)
  have er: "erase_all (ids b0) (map (\<lambda>x. oid (ord b0 x)) (D @ q s i)) = Some m"
    using S(2) r(4) by (simp add: erase_all_append o)
  have uc: "unat (live_order_count b) = unat (live_order_count b0) - length D"
    unfolding S(4) using unat_lt_max [of "live_order_count b0"] by (intro unat_of_nat_u32) simp
  have da: "oid (slot p x) = oid (ord b0 x) \<and> oqty (slot p x) = oqty (ord b0 x) \<and> oside (slot p x) = oside (ord b0 x)" for x
    using S(7) [of x] r(7) by (simp add: ord_def data_def)
  have pend: "level_rep p (levels b0 s' ! i') s' i' (q s' i')" if "i' \<in> (T(s := T s - {i})) s'" for s' i'
  proof -
    have "i' \<in> T s'" "\<not> (s' = s \<and> i' = i)" using that by (auto split: if_splits)
    then show ?thesis by (intro frame [OF S(9)] dis(1))
  qed
  have Dx: "x \<in> set (D @ q s i) \<longleftrightarrow> (\<exists>s' i'. x \<in> set (q s' i') \<and> i' \<notin> (T(s := T s - {i})) s' \<and>
      \<not> fits (unat (base b0)) (unat nb) (band b0) i')" for x
    unfolding set_append Un_iff S(16) [of x] using out by (auto split: if_splits)
  have "stage b0 nb q fl (T(s := T s - {i})) nl bm (D @ q s i) ?b"
    unfolding stage_def mv
  proof (intro conjI allI ballI impI)
    show "?b = b0\<lparr>pool := pool ?b, ids := ids ?b, live_order_count := live_order_count ?b\<rparr>"
      by (subst S(1)) simp
    show "level_rep (pool ?b) (nl s' ! j) s' j (moved b0 nb q T s' j)" if "j < band b0" for s' j
      using frame [OF S(13) [OF that] dis(2)] by simp
    show "(T(s := T s - {i})) s' \<subseteq> {..<band b0}" for s' using S(8) [of s'] by auto
  qed (use er r(2,3,5) uc S(6,10-12,14,15) da pend Dx in \<open>simp_all add: ord_def\<close>)
  then show ?thesis using that r(1) by blast
qed

lemma stage_move:
  assumes ln: "links b0 q fl {}" and st: "stage b0 nb q fl T nl bm D b" and i: "i \<in> T s" "i < band b0"
    and fi: "fits (unat (base b0)) (unat nb) (band b0) i"
    and lim: "unat (base b0) + i < 4294967296" and ne: "q s i \<noteq> []"
    and w: "unat w = nat (new_rel (unat (base b0)) (unat nb) i)"
  obtains p dst bm' where
    "move_queue (pool b) w ((nl s ! unat w)\<lparr>lprice := base b + of_nat i\<rparr>) (head_idx (levels b s ! i)) = Some (p, dst)"
    "bit_set (bm s) w = Some bm'"
    "stage b0 nb q fl (T(s := T s - {i})) (nl(s := (nl s)[unat w := dst])) (bm(s := bm')) D (b\<lparr>pool := p\<rparr>)"
proof -
  note S = stageD [OF st]
  let ?nr = "unat w" and ?T = "T(s := T s - {i})" and ?xs = "q s i"
  have lv: "levels b = levels b0" "base b = base b0" by (subst S(1), simp)+
  have nr: "?nr < band b0" using fi by (simp add: w fits_def nat_less_iff)
  have nrs: "?nr < length (nl s)" using nr S(10) by simp
  have e: "moved b0 nb q T s ?nr = []"
    using reframed_fits [OF i(2) fi, of "done_q q T" s] i(1) by (simp add: moved_def done_q_def w)
  have mv: "moved b0 nb q ?T = qput (moved b0 nb q T) s ?nr ?xs"
    unfolding moved_remove [of i T s, OF i] using fi by (simp add: w)
  have rep: "level_rep (pool b) (levels b0 s ! i) s i ?xs" by (rule S(9) [OF i(1)])
  then have ch: "chain (nxt (pool b)) (head_idx (levels b s ! i)) ?xs" and d: "distinct ?xs"
    and bd: "\<forall>x \<in> set ?xs. unat x < pool_size (pool b) \<and> oside (slot (pool b) x) = s"
    by (auto simp: level_rep_def lv dest: dseg_chain)
  let ?l = "(nl s ! ?nr)\<lparr>lprice := base b + of_nat i\<rparr>"
  have rl: "level_rep (pool b) ?l s ?nr []" using S(13) [OF nr, of s] e by simp
  have ps: "pool_size (pool b) \<le> 4294967295" using S(5) by (simp add: free_rep_def)
  note dis = stage_disjoint [OF ln st i(1)]
  obtain p dst where r: "move_queue (pool b) w ?l (head_idx (levels b s ! i)) = Some (p, dst)"
    "level_rep p dst s ?nr ?xs" "lprice dst = base b + of_nat i"
    "total_volume dst = total_volume ?l + sum_list (map (\<lambda>x. oqty (slot (pool b) x)) ?xs)"
    "pool_size p = pool_size (pool b)" "free_head p = free_head (pool b)"
    "\<forall>y. y \<notin> set ?xs \<longrightarrow> slot p y = slot (pool b) y"
    "\<forall>y. oid (slot p y) = oid (slot (pool b) y) \<and> oqty (slot p y) = oqty (slot (pool b) y) \<and> oside (slot p y) = oside (slot (pool b) y)"
    using move_queue_correct [OF rl ch d _ bd refl ps] by auto
  obtain bm' where bit: "bit_set (bm s) w = Some bm'" "length bm' = length (bm s)"
    "marked bm' = (marked (bm s))(?nr := True)"
  proof (rule bit_set_in [of w "bm s"])
    show "unat w < 64 * length (bm s)" using nr S(11) [of s] by simp
  qed blast
  have frame: "level_rep p l s' j xs" if "level_rep (pool b) l s' j xs" "set xs \<inter> set ?xs = {}" for l s' j xs
    by (rule level_rep_slots [OF that(1) r(5)]) (use r(7) that(2) in auto)
  have da: "oid (slot p x) = oid (ord b0 x) \<and> oqty (slot p x) = oqty (ord b0 x) \<and> oside (slot p x) = oside (ord b0 x)" for x
    using S(7) [of x] r(8) by (simp add: ord_def)
  have fr: "free_rep p (rev D @ fl)"
  proof -
    have "nxt p y = nxt (pool b) y" if "y \<in> set (rev D @ fl)" for y
      using that dis(3) r(7) by (auto simp: nxt_def)
    then show ?thesis by (rule free_rep_frame [OF S(5) r(5,6)])
  qed
  have pend: "level_rep p (levels b0 s' ! i') s' i' (q s' i')" if "i' \<in> ?T s'" for s' i'
  proof -
    have "i' \<in> T s'" "\<not> (s' = s \<and> i' = i)" using that by (auto split: if_splits)
    then show ?thesis by (intro frame [OF S(9)] dis(1))
  qed
  have lev: "(nl(s := (nl s)[?nr := dst])) s' ! j = (if s' = s \<and> j = ?nr then dst else nl s' ! j)" for s' j
    using nrs by (simp add: nth_list_update)
  have vol: "total_volume dst = volume (view b0 (moved b0 nb q ?T) s ?nr)"
  proof -
    have "total_volume ?l = 0" using S(14) [OF nr, of s] e by (simp add: view_def)
    moreover have "(\<lambda>x. oqty (slot (pool b) x)) = (\<lambda>x. oqty (ord b0 x))"
      using S(7) by (simp add: ord_def fun_eq_iff)
    ultimately show ?thesis
      unfolding mv r(4) by (simp add: view_def volume_def comp_def)
  qed
  have lp: "lprice dst = nb + of_nat ?nr"
  proof -
    have "int ?nr = int i + int (unat (base b0)) - int (unat nb)"
      using fi by (simp add: w fits_def new_rel_def)
    then have "unat (base b0) + i = unat nb + ?nr" by linarith
    then have "(of_nat (unat (base b0) + i) :: u32) = of_nat (unat nb + ?nr)" by simp
    then show ?thesis using r(3) lv by simp
  qed
  have Dx: "x \<in> set D \<longleftrightarrow> (\<exists>s' i'. x \<in> set (q s' i') \<and> i' \<notin> ?T s' \<and>
      \<not> fits (unat (base b0)) (unat nb) (band b0) i')" for x
    unfolding S(16) [of x] using fi by (auto split: if_splits)
  have new: "level_rep p (if s' = s \<and> j = ?nr then dst else nl s' ! j) s' j (moved b0 nb q ?T s' j)"
    "total_volume (if s' = s \<and> j = ?nr then dst else nl s' ! j) = volume (view b0 (moved b0 nb q ?T) s' j)"
    "moved b0 nb q ?T s' j \<noteq> [] \<Longrightarrow> lprice (if s' = s \<and> j = ?nr then dst else nl s' ! j) = nb + of_nat j"
    if "j < band b0" for s' j
  proof -
    show "level_rep p (if s' = s \<and> j = ?nr then dst else nl s' ! j) s' j (moved b0 nb q ?T s' j)"
      using frame [OF S(13) [OF that] dis(2)] r(2) by (simp add: mv)
    show "total_volume (if s' = s \<and> j = ?nr then dst else nl s' ! j) = volume (view b0 (moved b0 nb q ?T) s' j)"
      using vol S(14) [OF that, of s'] by (auto simp: mv view_def)
    show "moved b0 nb q ?T s' j \<noteq> [] \<Longrightarrow> lprice (if s' = s \<and> j = ?nr then dst else nl s' ! j) = nb + of_nat j"
      using lp S(15) [OF _ that] by (auto simp: mv)
  qed
  have "stage b0 nb q fl ?T (nl(s := (nl s)[?nr := dst])) (bm(s := bm')) D (b\<lparr>pool := p\<rparr>)"
    unfolding stage_def lev
  proof (intro conjI allI ballI impI)
    show "b\<lparr>pool := p\<rparr> = b0\<lparr>pool := pool (b\<lparr>pool := p\<rparr>), ids := ids (b\<lparr>pool := p\<rparr>),
        live_order_count := live_order_count (b\<lparr>pool := p\<rparr>)\<rparr>"
      by (subst S(1)) simp
    show "?T s' \<subseteq> {..<band b0}" for s' using S(8) [of s'] by auto
    show "marked ((bm(s := bm')) s') = (\<lambda>j. moved b0 nb q ?T s' j \<noteq> [])" for s'
      using S(12) [of s'] bit(3) ne by (auto simp: mv fun_eq_iff)
  qed (use S(2-4,6,10,11) bit(2) r(5) fr da pend Dx new in \<open>simp_all add: ord_def\<close>)
  then show ?thesis using that r(1) bit(1) by blast
qed

text \<open>One iteration, and the whole loop over one side.\<close>

lemma rebase_level_correct:
  assumes so: "sound b0 q fl {}" and st: "stage b0 nb q fl T nl bm D b" and i: "i \<in> T s"
  obtains b' l' m' D' where "rebase_level s nb i (b, nl s, bm s) = Some (b', l', m')"
    "stage b0 nb q fl (T(s := T s - {i})) (nl(s := l')) (bm(s := m')) D' b'"
proof -
  note S = stageD [OF st]
  have ln: "links b0 q fl {}" and sh: "shape b0" using soundD [OF so] by auto
  have f: "levels b = levels b0" "base b = base b0" "band b = band b0"
    by (subst S(1), simp add: band_def)+
  have ib: "i < band b0" using S(8) [of s] i by auto
  have get: "vget (levels b s) i = Some (levels b s ! i)"
    using ib shapeD(1) [OF sh] f by (simp add: access_simps)
  have em: "level_empty (levels b s ! i) \<longleftrightarrow> q s i = []"
    using links_head_empty [OF ln ib] f by simp
  show ?thesis
  proof (cases "q s i = []")
    case True
    have "stage b0 nb q fl (T(s := T s - {i})) (nl(s := nl s)) (bm(s := bm s)) D b"
      using stage_empty [OF st i ib True] by simp
    then show ?thesis using that get em True by (simp add: rebase_level_def)
  next
    case ne: False
    have lim: "unat (base b0) + i < 4294967296" by (rule soundD(6) [OF so ne])
    then have ab: "unat (base b + of_nat i) = unat (base b0) + i"
      using f by (simp add: unat_word_ariths unat_of_nat)
    let ?rel = "new_rel (unat (base b0)) (unat nb) i"
    have rel: "int (unat (base b + of_nat i)) - int (unat nb) = ?rel"
      unfolding ab by (simp add: new_rel_def)
    show ?thesis
    proof (cases "fits (unat (base b0)) (unat nb) (band b0) i")
      case False
      then have c: "?rel < 0 \<or> ?rel \<ge> int (band b)" by (auto simp: fits_def f)
      obtain b' where b': "drop_queue b (head_idx (levels b s ! i)) = Some b'"
        "stage b0 nb q fl (T(s := T s - {i})) nl bm (D @ q s i) b'"
        using stage_drop [OF ln st i ib False] by blast
      have "rebase_level s nb i (b, nl s, bm s) = Some (b', nl s, bm s)"
        unfolding rebase_level_def prod.case get bind.bind_lunit Let_def rel if_P [OF c]
        using ne by (simp add: em b'(1))
      then show ?thesis using that b'(2) by simp
    next
      case True
      then have c: "\<not> (?rel < 0 \<or> ?rel \<ge> int (band b))" by (auto simp: fits_def f)
      let ?w = "of_int ?rel :: u32"
      have "?w = of_nat (nat ?rel)" using c by simp
      moreover have "nat ?rel < 4294967296" using c shapeD(4) [OF sh] f by auto
      ultimately have w: "unat ?w = nat ?rel" by (simp only: unat_of_nat_u32)
      have nr: "unat ?w < length (nl s)" using c S(10) [of s] f by (simp add: w nat_less_iff)
      obtain p dst bm' where r:
        "move_queue (pool b) ?w ((nl s ! unat ?w)\<lparr>lprice := base b + of_nat i\<rparr>) (head_idx (levels b s ! i)) = Some (p, dst)"
        "bit_set (bm s) ?w = Some bm'"
        "stage b0 nb q fl (T(s := T s - {i})) (nl(s := (nl s)[unat ?w := dst])) (bm(s := bm')) D (b\<lparr>pool := p\<rparr>)"
        using stage_move [OF ln st i ib True lim ne w] by blast
      have "rebase_level s nb i (b, nl s, bm s) = Some (b\<lparr>pool := p\<rparr>, (nl s)[unat ?w := dst], bm')"
        unfolding rebase_level_def prod.case get bind.bind_lunit Let_def rel if_not_P [OF c]
        using ne nr r(1,2) by (simp add: em access_simps)
      then show ?thesis using that r(3) by blast
    qed
  qed
qed

lemma rebase_levels_correct:
  assumes "sound b0 q fl {}"
  shows "stage b0 nb q fl T nl bm D b \<Longrightarrow> distinct is \<Longrightarrow> set is \<subseteq> T s \<Longrightarrow>
    \<exists>b' l' m' D'. rebase_levels s nb is (b, nl s, bm s) = Some (b', l', m') \<and>
      stage b0 nb q fl (T(s := T s - set is)) (nl(s := l')) (bm(s := m')) D' b'"
proof (induction "is" arbitrary: T nl bm D b)
  case Nil
  then show ?case
    by (intro exI [of _ b] exI [of _ "nl s"] exI [of _ "bm s"] exI [of _ D]) simp
next
  case (Cons i "is")
  obtain b1 l1 m1 D1 where r: "rebase_level s nb i (b, nl s, bm s) = Some (b1, l1, m1)"
    "stage b0 nb q fl (T(s := T s - {i})) (nl(s := l1)) (bm(s := m1)) D1 b1"
    using rebase_level_correct [OF assms Cons.prems(1)] Cons.prems(3) by (metis insert_subset list.simps(15))
  have "distinct is" "set is \<subseteq> (T(s := T s - {i})) s" using Cons.prems(2,3) by auto
  from Cons.IH [OF r(2) this] obtain b' l' m' D' where
    "rebase_levels s nb is (b1, l1, m1) = Some (b', l', m')"
    "stage b0 nb q fl (T(s := T s - {i} - set is)) (nl(s := l')) (bm(s := m')) D' b'"
    unfolding fun_upd_upd fun_upd_same by blast
  moreover have "T s - {i} - set is = T s - set (i # is)" by auto
  ultimately have "stage b0 nb q fl (T(s := T s - set (i # is))) (nl(s := l')) (bm(s := m')) D' b'"
    and "rebase_levels s nb (i # is) (b, nl s, bm s) = Some (b', l', m')"
    using r(1) by (simp_all only: rebase_levels.simps bind.bind_lunit)
  then show ?case by blast
qed

section \<open>The whole operation\<close>

lemma erase_all_map:
  "idmap_ok m \<Longrightarrow> ordered_ok m \<Longrightarrow> erase_all m ks = Some m' \<Longrightarrow>
     idmap_ok m' \<and> ordered_ok m' \<and> content m' = (content m) |` (- set ks) \<and>
     (\<forall>K. calm_on m K \<longrightarrow> calm_on m' K)"
proof (induction ks arbitrary: m)
  case Nil
  then show ?case by (simp add: restrict_map_def)
next
  case (Cons k ks)
  obtain m1 where m1: "id_erase m k = Some m1" "idmap_ok m1" "ordered_ok m1" "content m1 = (content m)(k := None)"
    using table.remove_law [OF Cons.prems(1,2), of k] by blast
  have "calm_on m1 K" if "calm_on m K" for K by (rule calm_on_remove [OF Cons.prems(1) that m1(1)])
  moreover have "(content m)(k := None) |` (- set ks) = content m |` (- set (k # ks))"
    by (auto simp: restrict_map_def fun_eq_iff)
  moreover have "erase_all m1 ks = Some m'" using m1(1) Cons.prems(3) by simp
  ultimately show ?case using Cons.IH [OF m1(2,3)] unfolding m1(4) by metis
qed

lemma erase_all_size:
  "table_ok m \<Longrightarrow> erase_all m ks = Some m' \<Longrightarrow> tsize m' = tsize m \<and> used m' \<le> used m"
proof (induction ks arbitrary: m)
  case (Cons k ks)
  obtain m1 where m1: "id_erase m k = Some m1" "table_ok m1" "tsize m1 = tsize m" "used m1 \<le> used m"
    using erase_gen [OF Cons.prems(1), of k] by (metis diff_le_self order_refl)
  then show ?case using Cons.IH [OF m1(2)] Cons.prems(2) by fastforce
qed simp

text \<open>Dropping a set of orders keeps the id table in step with the queues.\<close>

lemma tidy_step_drop:
  assumes er: "erase_all (ids b) (map (\<lambda>x. oid (ord b x)) D) = Some (ids b')"
    and D: "\<And>x. x \<in> set D \<Longrightarrow> \<exists>s i. x \<in> set (queue_of b s i)"
    and live: "\<And>x. (\<exists>s i. x \<in> set (queue_of b' s i)) \<longleftrightarrow> (\<exists>s i. x \<in> set (queue_of b s i)) \<and> x \<notin> set D"
    and o: "\<And>x. oid (ord b' x) = oid (ord b x)"
  shows "tidy_step b b'"
proof -
  have main: "index_ok b' \<and> ordered_ok (ids b') \<and> (\<forall>K. calm_on (ids b) K \<longrightarrow> calm_on (ids b') K)"
    if ix: "index_ok b" and od: "ordered_ok (ids b)"
  proof -
    note e = erase_all_map [OF index_okD(1) [OF ix] od er]
    have "content (ids b') k = Some x \<longleftrightarrow> (\<exists>s i. x \<in> set (queue_of b' s i) \<and> oid (ord b' x) = k)" for k x
    proof -
      have "(\<exists>s i. x \<in> set (queue_of b' s i) \<and> oid (ord b' x) = k) \<longleftrightarrow> content (ids b) k = Some x \<and> x \<notin> set D"
        using live [of x] unfolding index_okD(2) [OF ix] o by blast
      moreover have "x \<notin> set D \<longleftrightarrow> k \<notin> (\<lambda>x. oid (ord b x)) ` set D" if c: "content (ids b) k = Some x"
      proof -
        have "y = x" if y: "y \<in> set D" "oid (ord b y) = k" for y
        proof -
          obtain s i where "y \<in> set (queue_of b s i)" using D [OF y(1)] by blast
          from index_okD(3) [OF ix this] show ?thesis using y(2) c by simp
        qed
        moreover have "oid (ord b x) = k" using c unfolding index_okD(2) [OF ix] by auto
        ultimately show ?thesis by blast
      qed
      ultimately show ?thesis using e by (auto simp: restrict_map_def)
    qed
    then show ?thesis using e by (simp add: index_ok_def)
  qed
  moreover have "ordered_ok (ids b)" if "calm_on (ids b) K" for K
    using that at_home_ordered by (simp add: calm_on_def)
  ultimately show ?thesis unfolding tidy_step_def by blast
qed

text \<open>The book with the new arrays swapped in.\<close>

definition swapped :: "order_book \<Rightarrow> price \<Rightarrow> price_level list \<Rightarrow> u64 list \<Rightarrow> price_level list \<Rightarrow> u64 list \<Rightarrow> order_book" where
  "swapped b nb l1 m1 l2 m2 = b\<lparr>levels := (levels b)(BUY := l1, SELL := l2),
     bitmap := (bitmap b)(BUY := m1, SELL := m2), base := nb\<rparr>"

lemma swapped_correct:
  assumes ok: "book_ok b0"
    and st: "stage b0 nb (queue_of b0) (free_list (pool b0)) (\<lambda>_. {}) nl bm D b"
  defines "b' \<equiv> swapped b nb (nl BUY) (bm BUY) (nl SELL) (bm SELL)"
  shows "book_ok b'" "queue_of b' = reframed (unat (base b0)) (unat nb) (band b0) (queue_of b0)"
    "depth b' = reframed (unat (base b0)) (unat nb) (band b0) (depth b0)" "tidy_step b0 b'"
    "best b' = best b0" "base_set b' = base_set b0" "band b' = band b0" "fills b' = fills b0"
    "pool_size (pool b') = pool_size (pool b0)" "base b' = nb"
    "tsize (ids b') = tsize (ids b0) \<and> used (ids b') \<le> used (ids b0)"
    "live_order_count b' = of_nat (unat (live_order_count b0) - length D)"
proof -
  note S = stageD [OF st]
  let ?q = "queue_of b0" and ?n = "band b0" and ?fl = "free_list (pool b0)"
  let ?r = "reframed (unat (base b0)) (unat nb) ?n"
  have co: "core b0 ?q ?fl {}" by (rule book_okD(1) [OF ok])
  then have so: "sound b0 ?q ?fl {}" by (simp add: core_def)
  have ln: "links b0 ?q ?fl {}" and sh: "shape b0" using soundD [OF so] by auto
  have mv: "moved b0 nb ?q (\<lambda>_. {}) = ?r ?q"
    by (simp add: moved_def done_q_def)
  have f: "pool b' = pool b" "ids b' = ids b" "live_order_count b' = live_order_count b" "ord b' = ord b"
    "levels b' s = nl s" "bitmap b' s = bm s" for s
    by (cases s; simp add: b'_def swapped_def ord_def fun_eq_iff)+
  have g: "best b' = best b0" "base_set b' = base_set b0" "fills b' = fills b0" "base b' = nb"
    unfolding b'_def swapped_def by (subst S(1), simp)+
  have bd: "band b' = ?n" by (simp add: band_def f S(10))
  show "best b' = best b0" "base_set b' = base_set b0" "band b' = ?n" "fills b' = fills b0" "base b' = nb"
    "pool_size (pool b') = pool_size (pool b0)"
    "live_order_count b' = of_nat (unat (live_order_count b0) - length D)"
    using g bd f S(4,6) by simp_all
  show "tsize (ids b') = tsize (ids b0) \<and> used (ids b') \<le> used (ids b0)"
    using erase_all_size [OF soundD(2) [OF so] S(2)] f by simp
  have src: "\<exists>i. x \<in> set (?q s i) \<and> fits (unat (base b0)) (unat nb) ?n i" if "x \<in> set (?r ?q s j)" for x s j
    using moved_source [of x b0 nb ?q "\<lambda>_. {}" s j] that unfolding mv by metis
  have dst: "x \<in> set (?r ?q s (nat (new_rel (unat (base b0)) (unat nb) i)))"
    if "x \<in> set (?q s i)" "fits (unat (base b0)) (unat nb) ?n i" for x s i
    using reframed_fits [OF links_member(1) [OF ln that(1)] that(2), of ?q s] that(1) by simp
  have live: "(\<exists>s j. x \<in> set (?r ?q s j)) \<longleftrightarrow> (\<exists>s i. x \<in> set (?q s i)) \<and> x \<notin> set D" for x
  proof -
    have "x \<notin> set D" if x: "x \<in> set (?q s i)" "fits (unat (base b0)) (unat nb) ?n i" for s i
    proof
      assume "x \<in> set D"
      then obtain s' i' where "x \<in> set (?q s' i')" "\<not> fits (unat (base b0)) (unat nb) ?n i'"
        using S(16) [of x] by auto
      then show False using links_unique_queue [OF ln x(1), of s' i'] x(2) by simp
    qed
    then show ?thesis using src dst S(16) [of x] by blast
  qed
  have v: "view b' (?r ?q) = ?r (depth b0)"
  proof (intro ext)
    fix s j
    have "order_view b' = order_view b0" using S(7) by (simp add: order_view_def f fun_eq_iff)
    then show "view b' (?r ?q) s j = ?r (depth b0) s j"
      by (simp add: view_alt depth_def reframed_def Let_def)
  qed
  have "links b' (?r ?q) (rev D @ ?fl) {}"
    unfolding links_def bd f
  proof (intro conjI allI impI)
    show "shape b'" using sh S(10,11) by (simp add: shape_def bd f)
    show "free_rep (pool b) (rev D @ ?fl)" by (rule S(5))
    show "level_rep (pool b) (nl s ! i) s i (?r ?q s i)" if "i < ?n" for s i
      using S(13) [OF that, of s] mv by simp
    show "?r ?q s i = []" if "?n \<le> i" for s i using that by (simp add: reframed_def)
    show "x \<notin> set (rev D @ ?fl)" if "x \<in> set (?r ?q s i)" for s i x
    proof -
      have x: "\<exists>s i. x \<in> set (?q s i)" "x \<notin> set D" using live that by blast+
      then show ?thesis using links_member(6) [OF ln] by auto
    qed
    show "unat x < pool_size (pool b) \<longleftrightarrow> x \<in> set (rev D @ ?fl) \<or> x \<in> {} \<or> (\<exists>s i. x \<in> set (?r ?q s i))" for x
    proof -
      have "unat x < pool_size (pool b0) \<longleftrightarrow> x \<in> set ?fl \<or> (\<exists>s i. x \<in> set (?q s i))"
        using ln by (simp add: links_def)
      then show ?thesis using live [of x] S(6) S(16) [of x] by auto
    qed
    show "marked (bm s) = (\<lambda>i. ?r ?q s i \<noteq> [])" for s using S(12) [of s] mv by simp
  qed simp_all
  moreover have "unat nb + j < 4294967296" if ne: "?r ?q s j \<noteq> []" for s j
  proof -
    obtain i where "?r ?q s j = ?q s i" "unat nb + j = unat (base b0) + i"
      using reframed_source [OF ne] by metis
    then show ?thesis using soundD(6) [OF so, of s i] ne by simp
  qed
  moreover have "total_volume (nl s ! j) = volume (view b' (?r ?q) s j)" if "j < ?n" for s j
  proof -
    have "view b0 (?r ?q) s j = view b' (?r ?q) s j"
      using S(7) by (simp add: view_def f)
    then show ?thesis using S(14) [OF that, of s] mv by simp
  qed
  moreover have "lprice (nl s ! j) = nb + of_nat j" if "?r ?q s j \<noteq> []" for s j
  proof -
    have "j < ?n" using that by (auto simp: reframed_def Let_def split: if_splits)
    then show ?thesis using S(15) [of s j] that mv by simp
  qed
  ultimately have "sound b' (?r ?q) (rev D @ ?fl) {}"
    using S(3) g by (simp add: sound_def bd f)
  moreover have "snd kv \<noteq> 0" if "kv \<in> set (view b' (?r ?q) s j)" for kv s j
  proof -
    have "?r (depth b0) s j \<noteq> []" using that v by auto
    then obtain i where "?r (depth b0) s j = depth b0 s i" by (rule reframed_source) blast
    then show ?thesis using that v book_okD(10) [OF ok, of kv s i] by simp
  qed
  ultimately have "core b' (?r ?q) (rev D @ ?fl) {}" by (auto simp: core_def)
  note c = core_book_ok [OF this]
  show "book_ok b'" "queue_of b' = ?r ?q" "depth b' = ?r (depth b0)" using c v by simp_all
  show "tidy_step b0 b'"
  proof (rule tidy_step_drop)
    show "erase_all (ids b0) (map (\<lambda>x. oid (ord b0 x)) D) = Some (ids b')" using S(2) f by simp
    show "\<exists>s i. x \<in> set (?q s i)" if "x \<in> set D" for x using that S(16) [of x] by blast
    show "(\<exists>s i. x \<in> set (queue_of b' s i)) \<longleftrightarrow> (\<exists>s i. x \<in> set (?q s i)) \<and> x \<notin> set D" for x
      unfolding c(2) by (rule live)
    show "oid (ord b' x) = oid (ord b0 x)" for x using S(7) [of x] f by simp
  qed
qed

lemma reframed_same:
  assumes "\<And>s i. n \<le> i \<Longrightarrow> V s i = []"
  shows "reframed ob ob n V = V"
  using assms by (auto simp: reframed_def fun_eq_iff not_less)

lemma reframed_band: "book_ok b \<Longrightarrow> reframed (unat (base b)) (unat (base b)) (band b) (depth b) = depth b"
  by (rule reframed_same) (rule book_okD(5))

text \<open>
  \<open>rebase_base\<close> re-indexes the depth and drops what does not fit.  Both best prices are live
  and fresh afterwards; they are exact only when the search starts at or outside the best
  level: from a null best price, or, for bids, when the base has gone up, for asks, down.
\<close>

definition rebased :: "order_book \<Rightarrow> price \<Rightarrow> order_book \<Rightarrow> bool" where
  "rebased b nb b' \<longleftrightarrow> book_ok b' \<and>
     depth b' = reframed (unat (base b)) (unat nb) (band b) (depth b) \<and> tidy_step b b' \<and>
     base b' = nb \<and> base_set b' = base_set b \<and> band b' = band b \<and> fills b' = fills b \<and>
     pool_size (pool b') = pool_size (pool b) \<and> tsize (ids b') = tsize (ids b) \<and>
     used (ids b') \<le> used (ids b) \<and> live_order_count b' \<le> live_order_count b \<and>
     (\<forall>s. tob_live b s \<longrightarrow> tob_live b' s) \<and> (\<forall>s. tob_fresh b s \<longrightarrow> tob_fresh b' s) \<and>
     (\<forall>s. best b s = NULL_IDX \<and> tob_exact b s \<longrightarrow> tob_exact b' s)"

lemma rebased_refl: "book_ok b \<Longrightarrow> rebased b (base b) b"
  by (simp add: rebased_def reframed_band)

text \<open>
  Where the search for the new best price looks: from the old index on, away from the top.  It
  finds the best level there, and never one beyond the old index.
\<close>

definition searched :: "order_book \<Rightarrow> order_book \<Rightarrow> bool" where
  "searched b b' \<longleftrightarrow> (\<forall>s. best b s \<noteq> NULL_IDX \<and> unat (best b s) < band b' \<longrightarrow>
     (best b' s = NULL_IDX \<or> \<not> better s (unat (best b' s)) (unat (best b s))) \<and>
     (\<forall>i. \<not> better s i (unat (best b s)) \<and> (best b' s = NULL_IDX \<or> better s i (unat (best b' s))) \<longrightarrow>
        depth b' s i = []))"

lemma searched_refl: "searched b b"
proof -
  have "\<not> better s i i" for s i by (cases s) (simp_all add: better_def)
  then show ?thesis by (auto simp: searched_def)
qed

lemma rebased_tob:
  assumes ok: "book_ok b'" and bd: "best b' BUY \<noteq> NULL_IDX \<Longrightarrow> unat (best b' BUY) < band b'"
  obtains b'' where "do { b \<leftarrow> update_best_bid b'; update_best_ask b } = Some b''"
    "\<exists>p1 v1 p2 v2. b'' = set_best (set_best b' BUY p1 v1) SELL p2 v2"
    "\<And>s. tob_live b'' s" "\<And>s. tob_fresh b'' s" "\<And>s. best b' s = NULL_IDX \<Longrightarrow> tob_exact b'' s"
    "searched b' b''"
proof -
  have n0: "0 < band b'" using shapeD(3) [OF book_okD(4) [OF ok]] .
  obtain p where p: "update_best_bid b' = Some (set_best b' BUY p
       (if p = NULL_IDX then 0 else volume (depth b' BUY (unat p))))"
    "p = NULL_IDX \<longrightarrow> (\<forall>i \<le> (if best b' BUY = NULL_IDX then band b' - 1 else unat (best b' BUY)). depth b' BUY i = [])"
    "p \<noteq> NULL_IDX \<longrightarrow> unat p \<le> (if best b' BUY = NULL_IDX then band b' - 1 else unat (best b' BUY)) \<and>
       depth b' BUY (unat p) \<noteq> [] \<and>
       (\<forall>i. unat p < i \<and> i \<le> (if best b' BUY = NULL_IDX then band b' - 1 else unat (best b' BUY)) \<longrightarrow> depth b' BUY i = [])"
    using update_best_bid_correct [OF ok bd] by metis
  let ?c = "set_best b' BUY p (if p = NULL_IDX then 0 else volume (depth b' BUY (unat p)))"
  have okc: "book_ok ?c" using ok by simp
  obtain r where r: "update_best_ask ?c = Some (set_best ?c SELL r
       (if r = NULL_IDX then 0 else volume (depth ?c SELL (unat r))))"
    "r = NULL_IDX \<longrightarrow> (\<forall>i \<ge> (if best ?c SELL = NULL_IDX \<or> band ?c \<le> unat (best ?c SELL) then 0 else unat (best ?c SELL)). depth ?c SELL i = [])"
    "r \<noteq> NULL_IDX \<longrightarrow> (if best ?c SELL = NULL_IDX \<or> band ?c \<le> unat (best ?c SELL) then 0 else unat (best ?c SELL)) \<le> unat r \<and>
       depth ?c SELL (unat r) \<noteq> [] \<and>
       (\<forall>i. (if best ?c SELL = NULL_IDX \<or> band ?c \<le> unat (best ?c SELL) then 0 else unat (best ?c SELL)) \<le> i \<and> i < unat r \<longrightarrow> depth ?c SELL i = [])"
    using update_best_ask_correct [OF okc] by metis
  let ?d = "set_best ?c SELL r (if r = NULL_IDX then 0 else volume (depth ?c SELL (unat r)))"
  have live: "tob_live ?d s" for s
    using p(3) r(3) by (cases s) (auto simp: tob_live_def)
  have fresh: "tob_fresh ?d s" for s
    by (cases s) (auto simp: tob_fresh_def)
  have exact: "tob_exact ?d s" if "best b' s = NULL_IDX" for s
  proof (cases s)
    case BUY
    have "depth b' BUY i = []" if "p = NULL_IDX \<or> unat p < i" for i
    proof (cases "i < band b'")
      case True
      then show ?thesis using p(2,3) that \<open>best b' s = NULL_IDX\<close> BUY n0 by auto
    qed (use book_okD(5) [OF ok] in simp)
    then show ?thesis using live [of s] BUY by (auto simp: tob_exact_def better_def)
  next
    case SELL
    have "depth b' SELL i = []" if "r = NULL_IDX \<or> i < unat r" for i
      using r(2,3) that \<open>best b' s = NULL_IDX\<close> SELL by auto
    then show ?thesis using live [of s] SELL by (auto simp: tob_exact_def better_def)
  qed
  have "searched b' ?d"
    unfolding searched_def
  proof (intro allI impI)
    fix s assume "best b' s \<noteq> NULL_IDX \<and> unat (best b' s) < band ?d"
    then show "(best ?d s = NULL_IDX \<or> \<not> better s (unat (best ?d s)) (unat (best b' s))) \<and>
       (\<forall>i. \<not> better s i (unat (best b' s)) \<and> (best ?d s = NULL_IDX \<or> better s i (unat (best ?d s))) \<longrightarrow>
          depth ?d s i = [])"
      using p(2,3) r(2,3) by (cases s) (auto simp: better_def not_less)
  qed
  then show ?thesis using that [of ?d] p(1) r(1) live fresh exact by auto
qed

lemma rebase_base_correct:
  assumes ok: "book_ok b" and bd: "tob_live b BUY"
  obtains b' where "rebase_base b nb = Some b'" "rebased b nb b'" "searched b b'"
proof (cases "nb = base b")
  case True
  then show ?thesis using that [of b] rebased_refl [OF ok] searched_refl by (simp add: rebase_base_def)
next
  case False
  let ?q = "queue_of b" and ?fl = "free_list (pool b)" and ?n = "band b"
  let ?nl = "\<lambda>_ :: side. replicate ?n new_level"
  let ?bm = "\<lambda>_ :: side. replicate ((?n + 63) div 64) (0 :: u64)"
  let ?T = "\<lambda>_ :: side. {..<?n}"
  have so: "sound b ?q ?fl {}" using book_okD(1) [OF ok] by (simp add: core_def)
  have st0: "stage b nb ?q ?fl ?T ?nl ?bm [] b" by (rule stage_start [OF so])
  have up: "set [0..<?n] = {..<?n}" by auto
  obtain b1 l1 m1 D1 where r1: "rebase_levels BUY nb [0..<?n] (b, ?nl BUY, ?bm BUY) = Some (b1, l1, m1)"
    and st1: "stage b nb ?q ?fl (?T(BUY := {})) (?nl(BUY := l1)) (?bm(BUY := m1)) D1 b1"
    using rebase_levels_correct [OF so st0 distinct_upt, of 0 ?n BUY] up by auto
  have s1: "set [0..<?n] \<subseteq> (?T(BUY := {})) SELL" by auto
  have e2: "(?T(BUY := {}))(SELL := (?T(BUY := {})) SELL - set [0..<?n]) = (\<lambda>_. {})"
  proof
    fix s show "((?T(BUY := {}))(SELL := (?T(BUY := {})) SELL - set [0..<?n])) s = {}"
      by (cases s) auto
  qed
  obtain b2 l2 m2 D2 where r2: "rebase_levels SELL nb [0..<?n] (b1, ?nl SELL, ?bm SELL) = Some (b2, l2, m2)"
    and st2: "stage b nb ?q ?fl (\<lambda>_. {}) (?nl(BUY := l1, SELL := l2)) (?bm(BUY := m1, SELL := m2)) D2 b2"
    using rebase_levels_correct [OF so st1 distinct_upt s1, unfolded e2] by auto
  let ?b = "swapped b2 nb l1 m1 l2 m2"
  note sw = swapped_correct [OF ok st2, simplified]
  have bd': "best ?b BUY \<noteq> NULL_IDX \<Longrightarrow> unat (best ?b BUY) < band ?b"
    using tob_live_in_band [OF ok bd] sw by simp
  obtain b' where b': "do { b \<leftarrow> update_best_bid ?b; update_best_ask b } = Some b'"
    "\<exists>p1 v1 p2 v2. b' = set_best (set_best ?b BUY p1 v1) SELL p2 v2"
    "\<And>s. tob_live b' s" "\<And>s. tob_fresh b' s" "\<And>s. best ?b s = NULL_IDX \<Longrightarrow> tob_exact b' s"
    "searched ?b b'"
    using rebased_tob [OF sw(1) bd'] by metis
  have run: "rebase_base b nb = Some b'"
    using False r1 r2 b'(1) by (simp add: rebase_base_def Let_def swapped_def)
  have "tidy_step b b'" using sw(4) b'(2) by auto
  moreover have "live_order_count ?b \<le> live_order_count b"
  proof -
    have "unat (of_nat (unat (live_order_count b) - length D2) :: u32) = unat (live_order_count b) - length D2"
      using unat_lt_max [of "live_order_count b"] by (intro unat_of_nat_u32) simp
    then show ?thesis unfolding sw(12) word_le_nat_alt by simp
  qed
  ultimately have "rebased b nb b'"
    using sw b'(2-5) by (auto simp: rebased_def)
  moreover have "searched b b'" using b'(6) sw by (simp add: searched_def)
  ultimately show ?thesis using that run by blast
qed

end
