(* ===== verification/Book_Ops.thy ===== *)
theory Book_Ops
  imports Rebase
begin

text \<open>
  The public operations of \<open>OrderBook\<close>: \<open>insert_limit_order\<close>, \<open>cancel_order\<close>,
  \<open>process_market_order\<close>, \<open>execute_order\<close> and \<open>reduce_order_qty\<close>.
\<close>

section \<open>The code\<close>

text \<open>\<open>half\<close> below the price, or zero: the base that centres the window on a price.\<close>

definition centred_base :: "order_book \<Rightarrow> price \<Rightarrow> price" where
  "centred_base b p = (let half = of_nat (length (levels b BUY) div 2) in
     if p < half then 0 else p - half)"

definition id_map_insert :: "order_book \<Rightarrow> order_id \<Rightarrow> u32 \<Rightarrow> order_book option" where
  "id_map_insert b k v = do { m \<leftarrow> id_insert (ids b) k v; Some (b\<lparr>ids := m\<rparr>) }"

text \<open>The tail of both branches of \<open>insert_limit_order\<close>: what is left of the order rests.\<close>

definition rest_order :: "order_book \<Rightarrow> order_id \<Rightarrow> side \<Rightarrow> price \<Rightarrow> price \<Rightarrow> quantity \<Rightarrow>
    (order_book \<times> bool) option" where
  "rest_order b k s p pidx remaining = do {
     (idx, pl) \<leftarrow> allocate (pool b);
     let b = b\<lparr>pool := pl\<rparr>;
     (if idx = NULL_IDX then Some (b, False)
      else do {
        b \<leftarrow> upd_order b idx (\<lambda>ord. ord\<lparr>oid := k, oprice := pidx, oqty := remaining, oside := s\<rparr>);
        l \<leftarrow> level_at b s pidx;
        b \<leftarrow> (if level_empty l then upd_level b s pidx (\<lambda>l. l\<lparr>lprice := p\<rparr>) else Some b);
        b \<leftarrow> level_append b s pidx idx;
        b \<leftarrow> id_map_insert b k idx;
        let b = b\<lparr>live_order_count := live_order_count b + 1\<rparr>;
        l \<leftarrow> level_at b s pidx;
        let b = (if best b s = NULL_IDX \<or>
                   (case s of BUY \<Rightarrow> pidx > best b BUY | SELL \<Rightarrow> pidx < best b SELL)
                 then set_best b s pidx (total_volume l) else b);
        Some (b, True)
      })
   }"

definition insert_limit_order :: "(nat \<Rightarrow> u64) \<Rightarrow> order_book \<Rightarrow> order_id \<Rightarrow> side \<Rightarrow> price \<Rightarrow> quantity \<Rightarrow>
    (order_book \<times> bool) option" where
  "insert_limit_order clk b k s p qty = do {
     let b = (if base_set b then b else b\<lparr>base := centred_base b p, base_set := True\<rparr>);
     b \<leftarrow> (if \<not> in_band b (to_idx b p) \<and> live_order_count b \<le> BOOTSTRAP_REBASE_LIMIT
          then rebase_base b (centred_base b p) else Some b);
     let rel = to_idx b p;
     (if \<not> in_band b rel then Some (b, False)
      else do {
        let pidx = of_int rel;
        (b, remaining) \<leftarrow> (case s of BUY \<Rightarrow> match_against_asks clk k pidx qty b
                            | SELL \<Rightarrow> match_against_bids clk k pidx qty b);
        (if remaining = 0 then Some (b, False) else rest_order b k s p pidx remaining)
      })
   }"

definition refresh_tob :: "order_book \<Rightarrow> side \<Rightarrow> price \<Rightarrow> order_book option" where
  "refresh_tob b s i =
     (if i = best b s
      then do {
        l \<leftarrow> level_at b s i;
        (if level_empty l then (case s of BUY \<Rightarrow> update_best_bid b | SELL \<Rightarrow> update_best_ask b)
         else Some (b\<lparr>best_qty := (best_qty b)(s := total_volume l)\<rparr>))
      }
      else Some b)"

definition cancel_order :: "order_book \<Rightarrow> order_id \<Rightarrow> order_book option" where
  "cancel_order b k = do {
     idx \<leftarrow> id_find (ids b) k;
     (if idx = NULL_IDX then Some b
      else do {
        ord \<leftarrow> order_at b idx;
        let s = oside ord;
        let i = oprice ord;
        b \<leftarrow> level_remove b s i idx;
        b \<leftarrow> erase_id b k;
        b \<leftarrow> free_slot b idx;
        refresh_tob b s i
      })
   }"

definition process_market_order :: "(nat \<Rightarrow> u64) \<Rightarrow> order_book \<Rightarrow> side \<Rightarrow> quantity \<Rightarrow> order_book option" where
  "process_market_order clk b s qty = (case s of
     BUY \<Rightarrow> do { (b, _) \<leftarrow> match_against_asks clk 0 (of_nat (length (levels b SELL)) - 1) qty b; Some b }
   | SELL \<Rightarrow> do { (b, _) \<leftarrow> match_against_bids clk 0 0 qty b; Some b })"

definition execute_order :: "(nat \<Rightarrow> u64) \<Rightarrow> order_book \<Rightarrow> order_id \<Rightarrow> quantity \<Rightarrow>
    (order_book \<times> bool) option" where
  "execute_order clk b k fill_qty = do {
     idx \<leftarrow> id_find (ids b) k;
     (if idx = NULL_IDX then Some (b, False)
      else do {
        ord \<leftarrow> order_at b idx;
        let s = oside ord;
        let i = oprice ord;
        l \<leftarrow> level_at b s i;
        let abs_price = lprice l;
        (if fill_qty \<ge> oqty ord
         then do {
           let b = emit_trade clk (oid ord) 0 abs_price (oqty ord) b;
           b \<leftarrow> level_remove b s i idx;
           b \<leftarrow> erase_id b k;
           b \<leftarrow> free_slot b idx;
           b \<leftarrow> refresh_tob (dec_live b) s i;
           Some (b, True)
         }
         else do {
           let b = emit_trade clk (oid ord) 0 abs_price fill_qty b;
           b \<leftarrow> upd_order b idx (\<lambda>ord. ord\<lparr>oqty := oqty ord - fill_qty\<rparr>);
           b \<leftarrow> upd_level b s i (\<lambda>l. l\<lparr>total_volume := total_volume l - fill_qty\<rparr>);
           l \<leftarrow> level_at b s i;
           Some (if i = best b s then b\<lparr>best_qty := (best_qty b)(s := total_volume l)\<rparr> else b, False)
         })
      })
   }"

definition reduce_order_qty :: "order_book \<Rightarrow> order_id \<Rightarrow> quantity \<Rightarrow> (order_book \<times> bool) option" where
  "reduce_order_qty b k cancel_qty = do {
     idx \<leftarrow> id_find (ids b) k;
     (if idx = NULL_IDX then Some (b, False)
      else do {
        ord \<leftarrow> order_at b idx;
        let s = oside ord;
        let i = oprice ord;
        (if cancel_qty \<ge> oqty ord
         then do { b \<leftarrow> cancel_order b k; Some (b, True) }
         else do {
           b \<leftarrow> upd_order b idx (\<lambda>ord. ord\<lparr>oqty := oqty ord - cancel_qty\<rparr>);
           b \<leftarrow> upd_level b s i (\<lambda>l. l\<lparr>total_volume := total_volume l - cancel_qty\<rparr>);
           l \<leftarrow> level_at b s i;
           Some (if i = best b s then b\<lparr>best_qty := (best_qty b)(s := total_volume l)\<rparr> else b, False)
         })
      })
   }"

section \<open>Resting what is left\<close>

definition rested :: "order_book \<Rightarrow> order_id \<Rightarrow> side \<Rightarrow> price \<Rightarrow> quantity \<Rightarrow> order_book \<Rightarrow> bool" where
  "rested b k s i r b' \<longleftrightarrow> book_ok b' \<and>
     depth b' = qput (depth b) s (unat i) (depth b s (unat i) @ [(k, r)]) \<and>
     (best b' s, best_qty b' s) = (if best b s = NULL_IDX \<or> better s (unat i) (unat (best b s))
        then (i, volume (depth b' s (unat i))) else (best b s, best_qty b s)) \<and>
     (\<forall>s'. s' \<noteq> s \<longrightarrow> best b' s' = best b s' \<and> best_qty b' s' = best_qty b s') \<and>
     fills b' = fills b \<and> live_order_count b' = live_order_count b + 1 \<and>
     base b' = base b \<and> base_set b' = base_set b \<and> band b' = band b \<and>
     pool_size (pool b') = pool_size (pool b) \<and> free_list (pool b') = tl (free_list (pool b)) \<and>
     (index_ok b \<and> content (ids b) k = None \<longrightarrow> index_ok b' \<and>
        (\<forall>K. calm_on (ids b) K \<and> k \<in> K \<longrightarrow> calm_on (ids b') K)) \<and>
     used (ids b') \<le> used (ids b) + 1 \<and> tsize (ids b') = tsize (ids b)"

lemma restedD:
  assumes "rested b k s i r b'"
  shows "book_ok b'" "depth b' = qput (depth b) s (unat i) (depth b s (unat i) @ [(k, r)])"
    "(best b' s, best_qty b' s) = (if best b s = NULL_IDX \<or> better s (unat i) (unat (best b s))
        then (i, volume (depth b' s (unat i))) else (best b s, best_qty b s))"
    "s' \<noteq> s \<Longrightarrow> best b' s' = best b s' \<and> best_qty b' s' = best_qty b s'"
    "fills b' = fills b" "live_order_count b' = live_order_count b + 1" "base b' = base b"
    "base_set b' = base_set b" "band b' = band b" "pool_size (pool b') = pool_size (pool b)"
    "free_list (pool b') = tl (free_list (pool b))"
    "index_ok b \<Longrightarrow> content (ids b) k = None \<Longrightarrow> index_ok b'"
    "index_ok b \<Longrightarrow> content (ids b) k = None \<Longrightarrow> calm_on (ids b) K \<Longrightarrow> k \<in> K \<Longrightarrow> calm_on (ids b') K"
    "used (ids b') \<le> used (ids b) + 1" "tsize (ids b') = tsize (ids b)"
  using assms unfolding rested_def by blast+

lemma rest_order_full:
  assumes "book_ok b" and "free_list (pool b) = []"
  shows "rest_order b k s p i r = Some (b, False)"
proof -
  have "free_rep (pool b) []" using linksD(2) [OF book_okD(2) [OF assms(1)]] assms(2) by simp
  then show ?thesis by (simp add: rest_order_def allocate_empty)
qed

text \<open>The id table after the insertion.\<close>

lemma index_ok_insert:
  assumes ix: "index_ok b" and new: "content (ids b) k = None" and sp: "used (ids b) + 1 < tsize (ids b)"
    and x: "x \<noteq> NULL_IDX" and ins: "id_insert (ids b) k x = Some (ids b')"
    and live: "\<And>y s i. y \<in> set (queue_of b' s i) \<longleftrightarrow> y \<in> set (queue_of b s i) \<or> (s, i, y) = (s0, i0, x)"
    and o: "\<And>y. oid (ord b' y) = (if y = x then k else oid (ord b y))"
    and fresh: "\<And>s i. x \<notin> set (queue_of b s i)"
  shows "index_ok b'" and "calm_on (ids b) K \<Longrightarrow> k \<in> K \<Longrightarrow> calm_on (ids b') K"
proof -
  have ok: "idmap_ok (ids b)" by (rule index_okD(1) [OF ix])
  obtain m where m: "id_insert (ids b) k x = Some m" "idmap_ok m" "content m = (content (ids b))(k \<mapsto> x)"
    using insert_correct [OF ok _ x] sp unfolding spare_def by metis
  then have m': "ids b' = m" using ins by simp
  have "content (ids b') k' = Some y \<longleftrightarrow> (\<exists>s i. y \<in> set (queue_of b' s i) \<and> oid (ord b' y) = k')" for k' y
  proof (cases "y = x")
    case True
    have "content (ids b) k' \<noteq> Some x" unfolding index_okD(2) [OF ix] using fresh by blast
    moreover have "\<exists>s i. x \<in> set (queue_of b' s i)" unfolding live by blast
    ultimately show ?thesis using True by (auto simp: m' m(3) o)
  next
    case False
    have "(\<exists>s i. y \<in> set (queue_of b' s i) \<and> oid (ord b' y) = k') \<longleftrightarrow> content (ids b) k' = Some y"
      unfolding index_okD(2) [OF ix] live o using False by auto
    then show ?thesis using False new by (auto simp: m' m(3))
  qed
  then show "index_ok b'" using m m' by (simp add: index_ok_def)
  show "calm_on (ids b') K" if "calm_on (ids b) K" "k \<in> K"
    by (rule calm_on_store [OF ok that x ins])
qed

lemma rest_order_correct:
  assumes ok: "book_ok b" and i: "unat i < band b" and p: "p = base b + i" and r: "r \<noteq> 0"
    and fit: "unat (base b) + unat i < 4294967296"
    and room: "used (ids b) + 1 < tsize (ids b)" and fr: "free_list (pool b) \<noteq> []"
  obtains b' where "rest_order b k s p i r = Some (b', True)" "rested b k s i r b'"
proof -
  let ?j = "unat i" and ?q = "queue_of b"
  obtain x fl where fl: "free_list (pool b) = x # fl" using fr by (cases "free_list (pool b)") auto
  have co: "core b ?q (x # fl) {}" using book_okD(1) [OF ok] fl by simp
  then have so: "sound b ?q (x # fl) {}" by (simp add: core_def)
  note al = allocate_links [OF soundD(1) [OF so]]
  define t where "t = b\<lparr>pool := taken (pool b) x\<rparr>"
  have vt: "view t = view b" "data (ord t y) = data (ord b y)" for y
    using same_dataD [OF al(3)] by (auto simp: t_def view_def ord_def data_def fun_eq_iff)
  have st: "sound t ?q fl {x}"
    using so al(2) by (simp add: sound_def t_def [symmetric] vt) (simp add: t_def band_def)
  have lt: "links t ?q fl {x}" using soundD [OF st] by simp
  have x: "unat x < pool_size (pool t)" "x \<noteq> NULL_IDX" using links_limbo [OF lt] by auto
  have fresh: "x \<notin> set (?q s' i')" for s' i' using links_member(7) [OF lt, of x s' i'] by auto
  have it: "?j < band t" "?j < length (levels t s)"
    using i book_okD(6) [OF ok i] by (simp_all add: t_def band_def)
  let ?o = "(ord t x)\<lparr>oid := k, oprice := i, oqty := r, oside := s\<rparr>"
  let ?d = "dressed t s ?j x ?o p"
  have lk: "next_idx ?o = nxt (pool t) x" "prev_idx ?o = prv (pool t) x"
    by (simp_all add: nxt_def prv_def ord_def)
  have pt: "p = base t + of_nat ?j" using p by (simp add: t_def)
  note dr = dress_sound [OF st it(1) pt lk, where s = s]
  have dress: "do { b \<leftarrow> upd_order t x (\<lambda>ord. ord\<lparr>oid := k, oprice := i, oqty := r, oside := s\<rparr>);
      l \<leftarrow> level_at b s i;
      b \<leftarrow> (if level_empty l then upd_level b s i (\<lambda>l. l\<lparr>lprice := p\<rparr>) else Some b); F b } = F ?d"
    for F :: "order_book \<Rightarrow> 'z option"
  proof (cases "level_empty (levels t s ! ?j)")
    case True
    then show ?thesis using x it by (simp add: access_simps dressed_def)
  next
    case False
    then have "?q s ?j \<noteq> []" using links_head_empty [OF lt it(1)] by simp
    then have "lprice (levels t s ! ?j) = p" using soundD(5) [OF st] pt by simp
    then have "(levels t s ! ?j)\<lparr>lprice := p\<rparr> = levels t s ! ?j" by auto
    then show ?thesis using x it False by (simp add: access_simps dressed_def)
  qed
  have id: "?j < band ?d" "lprice (levels ?d s ! ?j) = base ?d + i" "ids ?d = ids b"
    "fills ?d = fills b" "live_order_count ?d = live_order_count b" "base ?d = base b"
    "base_set ?d = base_set b" "best ?d = best b" "best_qty ?d = best_qty b" "band ?d = band b"
    "pool_size (pool ?d) = pool_size (pool b)"
    using it pt same_dataD(1) [OF al(3)] by (simp_all add: dressed_def band_def t_def)
  let ?q' = "qput ?q s ?j (?q s ?j @ [x])"
  obtain b1 where b1: "level_append ?d s i x = Some b1" "sound b1 ?q' fl {}"
    "view b1 ?q' = qput (view ?d ?q) s ?j (view ?d ?q s ?j @ [order_view ?d x])"
    "ids b1 = ids ?d" "fills b1 = fills ?d" "live_order_count b1 = live_order_count ?d"
    "steady ?d b1" "same_data (pool ?d) (pool b1)"
    using rest_sound [OF dr(1) _ _ id(1,2)] dr(3) fit id(6) by auto
  obtain m where m: "id_insert (ids b) k x = Some m" "table_ok m" "tsize m = tsize (ids b)"
    "used m \<le> used (ids b) + 1"
    using insert_gen [OF book_okD(3) [OF ok] room] by metis
  define b2 where "b2 = b1\<lparr>ids := m, live_order_count := live_order_count b + 1\<rparr>"
  have v2: "view b2 = view b1" by (simp add: b2_def view_def ord_def fun_eq_iff)
  have "sound b2 ?q' fl {}"
    using b1(2) m(2) by (simp add: sound_def v2 del: qput_at)
      (simp add: b2_def links_def shape_def band_def del: qput_at)
  moreover have w2: "view b2 ?q' = qput (depth b) s ?j (depth b s ?j @ [(k, r)])"
    unfolding v2 b1(3) dr(2) vt(1) by (simp add: depth_def order_view_def dr(3))
  then have "kv \<in> set (view b2 ?q' s' j') \<Longrightarrow> snd kv \<noteq> 0" for kv s' j'
    using book_okD(10) [OF ok, of kv] r by (auto split: if_splits)
  ultimately have "core b2 ?q' fl {}" unfolding core_def by blast
  note c2 = core_book_ok [OF this]
  have j2: "?j < band b2" using b1(7) id by (simp add: b2_def steady_def band_def)
  have lv: "level_at b2 s i = Some (levels b2 s ! ?j)"
    using book_okD(6) [OF c2(1) j2] by (simp add: access_simps)
  define c where "c \<longleftrightarrow> best b s = NULL_IDX \<or> better s ?j (unat (best b s))"
  define b' where "b' = (if c then set_best b2 s i (volume (depth b2 s ?j)) else b2)"
  have bb: "best b2 = best b" "best_qty b2 = best_qty b"
    using b1(7) id by (simp_all add: b2_def steady_def)
  have cc: "(best b2 s = NULL_IDX \<or> (case s of BUY \<Rightarrow> i > best b2 BUY | SELL \<Rightarrow> i < best b2 SELL)) \<longleftrightarrow> c"
    by (cases s) (simp_all add: c_def better_def bb word_less_nat_alt)
  have run: "rest_order b k s p i r = Some (b', True)"
  proof -
    have a: "allocate (pool b) = Some (x, taken (pool b) x)" by (rule al(1))
    have ins: "id_map_insert b1 k x = Some (b1\<lparr>ids := m\<rparr>)"
      using m(1) b1(4) id(3) by (simp add: id_map_insert_def)
    have e2: "b1\<lparr>ids := m, live_order_count := live_order_count (b1\<lparr>ids := m\<rparr>) + 1\<rparr> = b2"
      using b1(6) id(5) by (simp add: b2_def)
    show ?thesis
      unfolding rest_order_def a bind.bind_lunit split_conv Let_def t_def [symmetric] if_not_P [OF x(2)]
        dress b1(1) ins e2 lv cc b'_def
      by (simp add: book_okD(8) [OF c2(1) j2])
  qed
  have qs: "queue_of b' = ?q'" "ord b' = ord b2"
    using c2(2) by (simp_all add: b'_def)
  have ob: "oid (ord b' y) = (if y = x then k else oid (ord b y))" for y
  proof -
    have "oid (ord b' y) = oid (ord ?d y)"
      unfolding qs using same_dataD(2) [OF b1(8), of y] by (simp add: b2_def ord_def)
    then show ?thesis using dr(3) dr(4) [of y] vt(2) [of y] by (simp add: data_def)
  qed
  have ib: "ids b' = m" by (simp add: b'_def b2_def)
  have live: "y \<in> set (queue_of b' s' i') \<longleftrightarrow> y \<in> set (?q s' i') \<or> (s', i', y) = (s, ?j, x)" for y s' i'
    unfolding qs by auto
  have ix: "index_ok b'" "calm_on (ids b) K \<Longrightarrow> k \<in> K \<Longrightarrow> calm_on (ids b') K"
    if "index_ok b" "content (ids b) k = None" for K
    using index_ok_insert [OF that room x(2) _ live ob fresh] m(1) ib by auto
  have fr2: "book_ok b' = book_ok b2" "fills b' = fills b" "live_order_count b' = live_order_count b + 1"
    "base b' = base b" "base_set b' = base_set b" "band b' = band b" "pool_size (pool b') = pool_size (pool b)"
    using b1(5,7) id by (simp_all add: b'_def steady_def) (simp_all add: b2_def band_def)
  have "rested b k s i r b'"
    unfolding rested_def
  proof (intro conjI)
    show "(best b' s, best_qty b' s) = (if best b s = NULL_IDX \<or> better s ?j (unat (best b s))
        then (i, volume (depth b' s ?j)) else (best b s, best_qty b s))"
      by (simp add: b'_def bb c_def [symmetric])
    show "\<forall>s'. s' \<noteq> s \<longrightarrow> best b' s' = best b s' \<and> best_qty b' s' = best_qty b s'"
      by (simp add: b'_def bb)
    show "index_ok b \<and> content (ids b) k = None \<longrightarrow> index_ok b' \<and>
        (\<forall>K. calm_on (ids b) K \<and> k \<in> K \<longrightarrow> calm_on (ids b') K)"
      using ix by blast
    show "depth b' = qput (depth b) s ?j (depth b s ?j @ [(k, r)])"
      using c2(4) w2 by (simp add: b'_def)
    show "free_list (pool b') = tl (free_list (pool b))" using c2(3) fl by (simp add: b'_def)
  qed (use c2(1) m(3,4) fr2 in \<open>simp_all add: ib\<close>)
  then show ?thesis using that run by blast
qed

section \<open>Fields outside the invariant\<close>

lemma log_simps [simp]:
  "queue_of (b\<lparr>fills := f\<rparr>) = queue_of b" "ord (b\<lparr>fills := f\<rparr>) = ord b"
  "depth (b\<lparr>fills := f\<rparr>) = depth b" "book_ok (b\<lparr>fills := f\<rparr>) = book_ok b"
  "index_ok (b\<lparr>fills := f\<rparr>) = index_ok b" "band (b\<lparr>fills := f\<rparr>) = band b"
  "tob_live (b\<lparr>fills := f\<rparr>) s = tob_live b s" "tob_exact (b\<lparr>fills := f\<rparr>) s = tob_exact b s"
  "tob_fresh (b\<lparr>fills := f\<rparr>) s = tob_fresh b s"
proof -
  show q: "queue_of (b\<lparr>fills := f\<rparr>) = queue_of b" "ord (b\<lparr>fills := f\<rparr>) = ord b"
    by (simp_all add: queue_of_def ord_def band_def fun_eq_iff)
  have w: "view (b\<lparr>fills := f\<rparr>) = view b" by (simp add: view_def q fun_eq_iff)
  show "depth (b\<lparr>fills := f\<rparr>) = depth b" by (simp add: depth_def q w)
  then show "tob_live (b\<lparr>fills := f\<rparr>) s = tob_live b s" "tob_fresh (b\<lparr>fills := f\<rparr>) s = tob_fresh b s"
    "tob_exact (b\<lparr>fills := f\<rparr>) s = tob_exact b s"
    by (simp_all add: tob_live_def tob_fresh_def tob_exact_def)
  show "book_ok (b\<lparr>fills := f\<rparr>) = book_ok b"
    unfolding book_ok_def q core_def w sound_def by (simp add: links_def shape_def band_def)
  show "index_ok (b\<lparr>fills := f\<rparr>) = index_ok b" by (simp add: index_ok_def q)
  show "band (b\<lparr>fills := f\<rparr>) = band b" by (simp add: band_def)
qed

lemma count_simps [simp]:
  "queue_of (b\<lparr>live_order_count := c\<rparr>) = queue_of b" "ord (b\<lparr>live_order_count := c\<rparr>) = ord b"
  "depth (b\<lparr>live_order_count := c\<rparr>) = depth b" "book_ok (b\<lparr>live_order_count := c\<rparr>) = book_ok b"
  "index_ok (b\<lparr>live_order_count := c\<rparr>) = index_ok b" "band (b\<lparr>live_order_count := c\<rparr>) = band b"
proof -
  show q: "queue_of (b\<lparr>live_order_count := c\<rparr>) = queue_of b" "ord (b\<lparr>live_order_count := c\<rparr>) = ord b"
    by (simp_all add: queue_of_def ord_def band_def fun_eq_iff)
  have w: "view (b\<lparr>live_order_count := c\<rparr>) = view b" by (simp add: view_def q fun_eq_iff)
  show "depth (b\<lparr>live_order_count := c\<rparr>) = depth b" by (simp add: depth_def q w)
  show "book_ok (b\<lparr>live_order_count := c\<rparr>) = book_ok b"
    unfolding book_ok_def q core_def w sound_def by (simp add: links_def shape_def band_def)
  show "index_ok (b\<lparr>live_order_count := c\<rparr>) = index_ok b" by (simp add: index_ok_def q)
  show "band (b\<lparr>live_order_count := c\<rparr>) = band b" by (simp add: band_def)
qed

section \<open>Refreshing the top of book\<close>

text \<open>What an operation does for both sides' top of book.\<close>

definition tob_all :: "order_book \<Rightarrow> order_book \<Rightarrow> bool" where
  "tob_all b b' \<longleftrightarrow> (\<forall>s. tob_live b' s \<and> (tob_exact b s \<longrightarrow> tob_exact b' s) \<and>
     (tob_fresh b s \<longrightarrow> tob_fresh b' s))"

lemma tob_step_all:
  assumes "tob_step s b b'" and "\<And>s. tob_live b s"
  shows "tob_all b b'"
proof -
  have "tob_live b' s' \<and> (tob_exact b s' \<longrightarrow> tob_exact b' s') \<and> (tob_fresh b s' \<longrightarrow> tob_fresh b' s')" for s'
    using assms(1) assms(2) [of s']
    by (cases "s' = s") (auto simp: tob_step_def tob_live_def tob_exact_def tob_fresh_def)
  then show ?thesis by (simp add: tob_all_def)
qed

lemma tob_all_refl: "(\<And>s. tob_live b s) \<Longrightarrow> tob_all b b"
  by (simp add: tob_all_def)

lemma tob_all_trans: "tob_all b b1 \<Longrightarrow> tob_all b1 b2 \<Longrightarrow> tob_all b b2"
  by (simp add: tob_all_def)

lemma refresh_tob_correct:
  assumes ok: "book_ok b1" and bb: "best b1 = best b" "best_qty b1 = best_qty b"
    and d: "depth b1 = qput (depth b) s (unat i) os" and ne: "depth b s (unat i) \<noteq> []"
    and lv: "tob_live b s" and i: "unat i < band b1"
  obtains p v where "refresh_tob b1 s i = Some (set_best b1 s p v)" "tob_step s b (set_best b1 s p v)"
proof -
  have lev: "level_at b1 s i = Some (levels b1 s ! unat i)"
    using book_okD(6) [OF ok i] by (simp add: access_simps)
  have em: "level_empty (levels b1 s ! unat i) \<longleftrightarrow> os = []"
    using book_okD(7) [OF ok i, of s] d by simp
  have vol: "total_volume (levels b1 s ! unat i) = volume os"
    using book_okD(8) [OF ok i, of s] d by simp
  have nn: "i \<noteq> NULL_IDX"
    using i shapeD(4) [OF book_okD(4) [OF ok]] by (auto simp: unat_NULL_IDX)
  show ?thesis
  proof (cases "i = best b s")
    case False
    have "set_best b1 s (best b s) (best_qty b s) = b1" using bb by (simp add: set_best_def)
    moreover have "tob_step s b b1"
      using False d ne lv bb by (auto simp: tob_step_def tob_live_def tob_exact_def tob_fresh_def)
    ultimately show ?thesis
      using that [of "best b s" "best_qty b s"] False bb by (simp add: refresh_tob_def)
  next
    case True
    show ?thesis
    proof (cases "os = []")
      case False
      have "tob_step s b (set_best b1 s i (volume os))"
        using True False nn bb d by (intro tob_step_same [where os = os]) auto
      then show ?thesis using that [of i "volume os"] True False bb lev em vol
        by (simp add: refresh_tob_def set_best_def)
    next
      case empty: True
      have dd: "depth b1 = qput (depth b) s (unat (best b s)) []" and ii: "unat (best b s) < band b1"
        using d i True empty by simp_all
      show ?thesis
      proof (cases s)
        case BUY
        obtain b' where "update_best_bid b1 = Some b'" "tob_step BUY b b'" "\<exists>p v. b' = set_best b1 BUY p v"
          using tob_step_bid [OF ok bb] dd ii BUY by metis
        then show ?thesis using that True empty bb lev em BUY by (auto simp: refresh_tob_def)
      next
        case SELL
        obtain b' where "update_best_ask b1 = Some b'" "tob_step SELL b b'" "\<exists>p v. b' = set_best b1 SELL p v"
          using tob_step_ask [OF ok bb] dd ii SELL by metis
        then show ?thesis using that True empty bb lev em SELL by (auto simp: refresh_tob_def)
      qed
    qed
  qed
qed

section \<open>Looking an order up\<close>

definition drop_id :: "order_id \<Rightarrow> depth \<Rightarrow> depth" where
  "drop_id k V = (\<lambda>s i. filter (\<lambda>kv. fst kv \<noteq> k) (V s i))"

definition less_qty :: "order_id \<Rightarrow> quantity \<Rightarrow> depth \<Rightarrow> depth" where
  "less_qty k m V = (\<lambda>s i. map (\<lambda>kv. if fst kv = k then (k, snd kv - m) else kv) (V s i))"

lemma find_absent: "index_ok b \<Longrightarrow> content (ids b) k = None \<Longrightarrow> id_find (ids b) k = Some NULL_IDX"
  using table.look_miss [OF index_okD(1)] by blast

text \<open>A known id names a slot on the queue that the slot's own side and price say.\<close>

lemma find_present:
  assumes ok: "book_ok b" and ix: "index_ok b" and c: "content (ids b) k = Some x"
  obtains as bs where "id_find (ids b) k = Some x" "x \<noteq> NULL_IDX" "oid (ord b x) = k"
    "unat x < pool_size (pool b)" "unat (oprice (ord b x)) < band b"
    "queue_of b (oside (ord b x)) (unat (oprice (ord b x))) = as @ x # bs"
    "\<And>s i y. y \<in> set (queue_of b s i) \<Longrightarrow> oid (ord b y) = k \<Longrightarrow> y = x" "distinct (as @ x # bs)"
proof -
  obtain s i where xi: "x \<in> set (queue_of b s i)" "oid (ord b x) = k"
    using c index_okD(2) [OF ix] by blast
  note m = links_member [OF book_okD(2) [OF ok] xi(1)]
  obtain as bs where q: "queue_of b s i = as @ x # bs" using xi(1) by (meson split_list)
  have uniq: "y = x" if "y \<in> set (queue_of b s' i')" "oid (ord b y) = k" for s' i' y
    using index_okD(3) [OF ix that(1)] that(2) c by simp
  have d: "distinct (as @ x # bs)"
    using linksD(4) [OF book_okD(2) [OF ok] m(1), of s] q by (simp add: level_rep_def)
  show ?thesis
    using that [OF table.look_hit [OF index_okD(1) [OF ix] c] m(3) xi(2) m(2)] m q uniq d by metis
qed

lemma depth_split:
  assumes q: "queue_of b s i = as @ x # bs" and k: "oid (ord b x) = k"
    and uniq: "\<And>s i y. y \<in> set (queue_of b s i) \<Longrightarrow> oid (ord b y) = k \<Longrightarrow> y = x"
    and ln: "links b (queue_of b) fl {}" and d: "distinct (as @ x # bs)"
  shows "drop_id k (depth b) = qput (depth b) s i (map (order_view b) (as @ bs))"
    and "less_qty k m (depth b) = qput (depth b) s i
      (map (order_view b) as @ (k, oqty (ord b x) - m) # map (order_view b) bs)"
proof -
  have xq: "x \<in> set (queue_of b s i)" using q by simp
  have other: "\<forall>y \<in> set (queue_of b s' i'). oid (ord b y) \<noteq> k" if "\<not> (s' = s \<and> i' = i)" for s' i'
    using uniq links_unique_queue [OF ln xq, of s' i'] that by metis
  have own: "\<forall>y \<in> set as \<union> set bs. oid (ord b y) \<noteq> k"
    using uniq [of _ s i] q d by auto
  have "drop_id k (depth b) s' i' = qput (depth b) s i (map (order_view b) (as @ bs)) s' i'" for s' i'
    using other [of s' i'] own q k
    by (auto simp: drop_id_def depth_def view_alt order_view_def filter_empty_conv intro!: filter_True)
  then show "drop_id k (depth b) = qput (depth b) s i (map (order_view b) (as @ bs))"
    by (intro ext)
  have "less_qty k m (depth b) s' i' = qput (depth b) s i
      (map (order_view b) as @ (k, oqty (ord b x) - m) # map (order_view b) bs) s' i'" for s' i'
    using other [of s' i'] own q k
    by (auto simp: less_qty_def depth_def view_alt order_view_def intro!: map_idI)
  then show "less_qty k m (depth b) = qput (depth b) s i
      (map (order_view b) as @ (k, oqty (ord b x) - m) # map (order_view b) bs)"
    by (intro ext)
qed

section \<open>Taking an order off and changing its quantity\<close>

text \<open>\<open>edited b V b'\<close>: the depth became \<open>V\<close>; invariant, id table and top of book carry over.\<close>

definition edited :: "order_book \<Rightarrow> depth \<Rightarrow> order_book \<Rightarrow> bool" where
  "edited b V b' \<longleftrightarrow> book_ok b' \<and> depth b' = V \<and> tidy_step b b' \<and> tob_all b b' \<and>
     base b' = base b \<and> base_set b' = base_set b \<and> band b' = band b \<and>
     pool_size (pool b') = pool_size (pool b)"

lemma editedD:
  assumes "edited b V b'"
  shows "book_ok b'" "depth b' = V" "tidy_step b b'" "tob_all b b'" "base b' = base b"
    "base_set b' = base_set b" "band b' = band b" "pool_size (pool b') = pool_size (pool b)"
  using assms by (simp_all add: edited_def)

lemma take_off:
  assumes ok: "book_ok b" and ix: "index_ok b" and lv: "\<And>s. tob_live b s"
    and c: "content (ids b) k = Some x" and s: "s = oside (ord b x)" and i: "i = oprice (ord b x)"
  obtains b1 b2 b3 where "level_remove b s i x = Some b1" "erase_id b1 k = Some b2"
    "free_slot b2 x = Some b3" "fills b3 = fills b" "live_order_count b3 = live_order_count b"
    "\<And>n. \<exists>b'. refresh_tob (b3\<lparr>live_order_count := n\<rparr>) s i = Some b' \<and>
       edited b (drop_id k (depth b)) b' \<and> fills b' = fills b \<and> live_order_count b' = n"
proof -
  obtain as bs where f: "id_find (ids b) k = Some x" "x \<noteq> NULL_IDX" "oid (ord b x) = k"
    "unat x < pool_size (pool b)" "unat i < band b" "queue_of b s (unat i) = as @ x # bs"
    and uniq: "\<And>s i y. y \<in> set (queue_of b s i) \<Longrightarrow> oid (ord b y) = k \<Longrightarrow> y = x"
    and d: "distinct (as @ x # bs)"
    using find_present [OF ok ix c] unfolding s i by metis
  let ?q = "queue_of b"
  have co: "core b ?q (free_list (pool b)) {}" by (rule book_okD(1) [OF ok])
  then have so: "sound b ?q (free_list (pool b)) {}" by (simp add: core_def)
  note ds = depth_split(1) [OF f(6,3) uniq soundD(1) [OF so] d]
  obtain b1 b2 b3 where r: "level_remove b s i x = Some b1" "erase_id b1 k = Some b2" "free_slot b2 x = Some b3"
    and s3: "sound b3 (qput ?q s (unat i) (as @ bs)) (x # free_list (pool b)) {}"
    and v3: "view b3 (qput ?q s (unat i) (as @ bs)) = qput (view b ?q) s (unat i) (map (order_view b) (as @ bs))"
    and e3: "id_erase (ids b) k = Some (ids b3)" "fills b3 = fills b"
      "live_order_count b3 = live_order_count b" "steady b b3" "same_data (pool b) (pool b3)"
    using retire_sound [OF so f(6), of k] by metis
  have v3': "view b3 (qput ?q s (unat i) (as @ bs)) = drop_id k (depth b)"
    using v3 ds by (simp add: depth_def)
  have "kv \<in> set (view b3 (qput ?q s (unat i) (as @ bs)) s' j') \<Longrightarrow> snd kv \<noteq> 0" for kv s' j'
    using book_okD(10) [OF ok, of kv s' j'] unfolding v3' by (auto simp: drop_id_def)
  then have "core b3 (qput ?q s (unat i) (as @ bs)) (x # free_list (pool b)) {}"
    using s3 by (auto simp: core_def)
  note k3 = core_book_ok [OF this]
  have d3: "depth b3 = qput (depth b) s (unat i) (map (order_view b) (as @ bs))"
    using k3(4) v3 by (simp add: depth_def)
  have ne: "depth b s (unat i) \<noteq> []" using f(6) by (simp add: depth_def)
  have "\<exists>b'. refresh_tob (b3\<lparr>live_order_count := n\<rparr>) s i = Some b' \<and>
       edited b (drop_id k (depth b)) b' \<and> fills b' = fills b \<and> live_order_count b' = n" for n
  proof -
    let ?b = "b3\<lparr>live_order_count := n\<rparr>"
    have okn: "book_ok ?b" "best ?b = best b" "best_qty ?b = best_qty b"
      "depth ?b = qput (depth b) s (unat i) (map (order_view b) (as @ bs))" "unat i < band ?b"
      using k3(1) e3(4) f(5) d3 by (simp_all add: steady_def)
    obtain p v where t: "refresh_tob ?b s i = Some (set_best ?b s p v)" "tob_step s b (set_best ?b s p v)"
      using refresh_tob_correct [OF okn(1-4) ne lv okn(5)] by metis
    have "tidy_step b (set_best ?b s p v)"
    proof (rule tidy_step_retire [OF f(6) _ soundD(1) [OF so]])
      show "oid (ord (set_best ?b s p v) y) = oid (ord b y)" for y
        using same_dataD(2) [OF e3(5), of y] by (simp add: ord_def)
    qed (use k3 e3(1) f(3) in simp_all)
    then have "edited b (drop_id k (depth b)) (set_best ?b s p v)"
      using k3(1) e3(4) k3(4) v3' tob_step_all [OF t(2) lv] by (simp add: edited_def steady_def)
    then show ?thesis using t(1) e3 by simp
  qed
  then show ?thesis using that r e3 by blast
qed

text \<open>Reducing the quantity of an order that stays.\<close>

lemma reduce_in_place:
  assumes ok: "book_ok b" and ix: "index_ok b" and lv: "\<And>s. tob_live b s"
    and c: "content (ids b) k = Some x" and s: "s = oside (ord b x)" and i: "i = oprice (ord b x)"
    and m: "m < oqty (ord b x)"
  obtains b1 b2 l where "upd_order b x (\<lambda>ord. ord\<lparr>oqty := oqty ord - m\<rparr>) = Some b1"
    "upd_level b1 s i (\<lambda>l. l\<lparr>total_volume := total_volume l - m\<rparr>) = Some b2" "level_at b2 s i = Some l"
    "fills b2 = fills b" "live_order_count b2 = live_order_count b" "best b2 = best b"
    "edited b (less_qty k m (depth b))
       (if i = best b2 s then b2\<lparr>best_qty := (best_qty b2)(s := total_volume l)\<rparr> else b2)"
proof -
  obtain as bs where f: "oid (ord b x) = k" "unat x < pool_size (pool b)" "unat i < band b"
    "queue_of b s (unat i) = as @ x # bs"
    and uniq: "\<And>s i y. y \<in> set (queue_of b s i) \<Longrightarrow> oid (ord b y) = k \<Longrightarrow> y = x"
    and d: "distinct (as @ x # bs)"
    using find_present [OF ok ix c] unfolding s i by metis
  let ?q = "queue_of b" and ?b = "shrunk b s (unat i) x m"
  have so: "sound b ?q (free_list (pool b)) {}"
    using book_okD(1) [OF ok] by (simp add: core_def)
  note ds = depth_split(2) [OF f(4,1) uniq soundD(1) [OF so] d, where m = m]
  note sh = shrink_sound [OF so f(4), where m = m]
  have v: "view ?b ?q = less_qty k m (depth b)"
    using sh(2) ds by (simp add: f(1) depth_def)
  have "snd kv \<noteq> 0" if "kv \<in> set (view ?b ?q s' j')" for kv s' j'
  proof -
    have "oqty (ord b x) - m \<noteq> 0" using m by auto
    moreover have "kv \<in> set (depth b s' j') \<or> kv \<in> set (depth b s (unat i)) \<or> snd kv = oqty (ord b x) - m"
      using that f(4) unfolding sh(2) by (auto simp: depth_def view_alt split: if_splits)
    ultimately show ?thesis using book_okD(10) [OF ok] by metis
  qed
  then have "core ?b ?q (free_list (pool b)) {}" using sh(1) by (auto simp: core_def)
  note kb = core_book_ok [OF this]
  have il: "unat i < length (levels b s)" "unat i < length (levels ?b s)"
    using book_okD(6) [OF ok f(3)] by simp_all
  have up: "upd_order b x (\<lambda>ord. ord\<lparr>oqty := oqty ord - m\<rparr>) =
      Some (b\<lparr>pool := set_slot (pool b) x ((ord b x)\<lparr>oqty := oqty (ord b x) - m\<rparr>)\<rparr>)"
    "upd_level (b\<lparr>pool := set_slot (pool b) x ((ord b x)\<lparr>oqty := oqty (ord b x) - m\<rparr>)\<rparr>) s i
      (\<lambda>l. l\<lparr>total_volume := total_volume l - m\<rparr>) = Some ?b"
    "level_at ?b s i = Some (levels ?b s ! unat i)"
    using f(2) il by (simp_all add: access_simps) (simp add: shrunk_def)
  let ?os = "map (order_view b) as @ (k, oqty (ord b x) - m) # map (order_view b) bs"
  have dl: "depth ?b = less_qty k m (depth b)" using kb(4) v by simp
  have db: "depth ?b = qput (depth b) s (unat i) ?os" using kb(4) v ds by simp
  have ib: "unat i < band ?b" using f(3) by simp
  have vol: "total_volume (levels ?b s ! unat i) = volume ?os"
    using book_okD(8) [OF kb(1) ib, of s] db by simp
  have ne: "depth b s (unat i) \<noteq> []" using f(4) by (simp add: depth_def)
  obtain p v' where t: "refresh_tob ?b s i = Some (set_best ?b s p v')" "tob_step s b (set_best ?b s p v')"
    using refresh_tob_correct [OF kb(1) _ _ db ne lv ib] by auto
  have em: "\<not> level_empty (levels ?b s ! unat i)"
    using book_okD(7) [OF kb(1) ib, of s] db by simp
  have e: "(if i = best ?b s then ?b\<lparr>best_qty := (best_qty ?b)(s := total_volume (levels ?b s ! unat i))\<rparr>
      else ?b) = set_best ?b s p v'"
    using t(1) up(3) em by (simp add: refresh_tob_def split: if_splits)
  have "tidy_step b (set_best ?b s p v')"
    by (rule tidy_step_same) (simp_all add: kb(2) shrunk_ord [OF f(2)])
  then have "edited b (less_qty k m (depth b)) (set_best ?b s p v')"
    using kb(1) dl tob_step_all [OF t(2) lv] by (simp add: edited_def)
  then show ?thesis using that [OF up] unfolding e by simp
qed

section \<open>The operations on known and unknown ids\<close>

lemma known_or_not: "content (ids b) k = None \<or> (\<exists>x. content (ids b) k = Some x)"
  by (cases "content (ids b) k") auto

lemma cancel_unknown:
  "index_ok b \<Longrightarrow> content (ids b) k = None \<Longrightarrow> cancel_order b k = Some b"
  by (simp add: cancel_order_def find_absent)

lemma cancel_known:
  assumes ok: "book_ok b" and ix: "index_ok b" and lv: "\<And>s. tob_live b s"
    and c: "content (ids b) k = Some x"
  obtains b' where "cancel_order b k = Some b'" "edited b (drop_id k (depth b)) b'"
    "fills b' = fills b" "live_order_count b' = live_order_count b"
proof -
  have f: "id_find (ids b) k = Some x" "x \<noteq> NULL_IDX" "order_at b x = Some (ord b x)"
    using find_present [OF ok ix c] by (metis order_at_in)+
  obtain b1 b2 b3 where r: "level_remove b (oside (ord b x)) (oprice (ord b x)) x = Some b1"
    "erase_id b1 k = Some b2" "free_slot b2 x = Some b3" "live_order_count b3 = live_order_count b"
    and n: "\<And>n. \<exists>b'. refresh_tob (b3\<lparr>live_order_count := n\<rparr>) (oside (ord b x)) (oprice (ord b x)) = Some b' \<and>
       edited b (drop_id k (depth b)) b' \<and> fills b' = fills b \<and> live_order_count b' = n"
    using take_off [OF ok ix lv c refl refl] by metis
  have "b3\<lparr>live_order_count := live_order_count b\<rparr> = b3" using r(4) by simp
  with n [of "live_order_count b"] obtain b' where
    "refresh_tob b3 (oside (ord b x)) (oprice (ord b x)) = Some b'" "edited b (drop_id k (depth b)) b'"
    "fills b' = fills b" "live_order_count b' = live_order_count b" by auto
  then show ?thesis using that f r by (simp add: cancel_order_def Let_def)
qed

text \<open>Only \<open>erase\<close> touches the id table when an order is cancelled.\<close>

lemma same_ids:
  "upd_order b j f = Some b' \<Longrightarrow> ids b' = ids b"
  "upd_level b s i g = Some b' \<Longrightarrow> ids b' = ids b"
  "clear_level_bit b s i = Some b' \<Longrightarrow> ids b' = ids b"
  "free_slot b j = Some b' \<Longrightarrow> ids b' = ids b"
  "update_best_bid b = Some b' \<Longrightarrow> ids b' = ids b"
  "update_best_ask b = Some b' \<Longrightarrow> ids b' = ids b"
  by (auto simp: upd_order_def upd_level_def clear_level_bit_def free_slot_def update_best_bid_def
      update_best_ask_def set_best_def Let_def bind_eq_Some_conv split: if_splits)

lemma level_remove_ids: "level_remove b s i j = Some b' \<Longrightarrow> ids b' = ids b"
  unfolding level_remove_def bind_eq_Some_conv
  by (fastforce simp: same_ids split: if_splits)

lemma refresh_tob_ids: "refresh_tob b s i = Some b' \<Longrightarrow> ids b' = ids b"
  by (auto simp: refresh_tob_def bind_eq_Some_conv same_ids split: if_splits side.splits)

lemma cancel_ids:
  assumes "cancel_order b k = Some b'" and "id_find (ids b) k = Some x" and "x \<noteq> NULL_IDX"
  shows "id_erase (ids b) k = Some (ids b')"
proof -
  obtain s i b1 b2 b3 where "level_remove b s i x = Some b1" "erase_id b1 k = Some b2"
    "free_slot b2 x = Some b3" "refresh_tob b3 s i = Some b'"
    using assms by (auto simp: cancel_order_def Let_def bind_eq_Some_conv)
  then show ?thesis
    by (auto simp: erase_id_def bind_eq_Some_conv level_remove_ids same_ids refresh_tob_ids)
qed

text \<open>What is on record under an id: its side, its level and its open quantity.\<close>

definition open_qty :: "order_book \<Rightarrow> order_id \<Rightarrow> quantity" where
  "open_qty b k = (case content (ids b) k of None \<Rightarrow> 0 | Some x \<Rightarrow> oqty (ord b x))"

definition quoted :: "order_book \<Rightarrow> order_id \<Rightarrow> price" where
  "quoted b k = (case content (ids b) k of None \<Rightarrow> 0 | Some x \<Rightarrow> base b + oprice (ord b x))"

lemma execute_unknown:
  "index_ok b \<Longrightarrow> content (ids b) k = None \<Longrightarrow> execute_order clk b k q = Some (b, False)"
  by (simp add: execute_order_def find_absent)

lemma execute_known:
  assumes ok: "book_ok b" and ix: "index_ok b" and lv: "\<And>s. tob_live b s"
    and c: "content (ids b) k = Some x"
  obtains b' where "execute_order clk b k q = Some (b', open_qty b k \<le> q)"
    "edited b (if open_qty b k \<le> q then drop_id k (depth b) else less_qty k q (depth b)) b'"
    "fills b' = fills b @ [\<lparr>maker_id = k, taker_id = 0, tprice = quoted b k,
       tqty = min q (open_qty b k), timestamp = clk (length (fills b))\<rparr>]"
    "live_order_count b' = (if open_qty b k \<le> q
       then of_nat (unat (live_order_count b) - 1) else live_order_count b)"
proof -
  let ?s = "oside (ord b x)" and ?i = "oprice (ord b x)"
  obtain as bs where f: "id_find (ids b) k = Some x" "x \<noteq> NULL_IDX" "oid (ord b x) = k"
    "unat x < pool_size (pool b)" "unat ?i < band b" "queue_of b ?s (unat ?i) = as @ x # bs"
    using find_present [OF ok ix c] by metis
  have oa: "order_at b x = Some (ord b x)" using f(4) by (rule order_at_in)
  have la: "level_at b ?s ?i = Some (levels b ?s ! unat ?i)"
    using book_okD(6) [OF ok f(5)] by (rule level_at_in)
  have lp: "lprice (levels b ?s ! unat ?i) = quoted b k"
    using coreD(6) [OF book_okD(1) [OF ok], of ?s "unat ?i"] f(6) c by (simp add: quoted_def)
  have oq: "oqty (ord b x) = open_qty b k" using c by (simp add: open_qty_def)
  define t where "t = \<lparr>maker_id = k, taker_id = 0, tprice = quoted b k,
       tqty = min q (open_qty b k), timestamp = clk (length (fills b))\<rparr>"
  let ?e = "b\<lparr>fills := fills b @ [t]\<rparr>"
  have e: "book_ok ?e" "index_ok ?e" "\<And>s. tob_live ?e s" "content (ids ?e) k = Some x"
    using ok ix lv c by simp_all
  have se: "?s = oside (ord ?e x)" "?i = oprice (ord ?e x)" by simp_all
  have ed: "edited ?e V b' \<Longrightarrow> edited b V b'" for V b'
    by (auto simp: edited_def tidy_step_def tob_all_def)
  show ?thesis
  proof (cases "open_qty b k \<le> q")
    case True
    then have m: "min q (open_qty b k) = open_qty b k" by (simp add: min_def)
    have em: "emit_trade clk (oid (ord b x)) 0 (lprice (levels b ?s ! unat ?i)) (oqty (ord b x)) b = ?e"
      using f(3) by (simp add: emit_trade_def t_def lp oq m)
    obtain b1 b2 b3 where r: "level_remove ?e ?s ?i x = Some b1" "erase_id b1 k = Some b2"
      "free_slot b2 x = Some b3" "fills b3 = fills ?e" "live_order_count b3 = live_order_count ?e"
      and n: "\<And>n. \<exists>b'. refresh_tob (b3\<lparr>live_order_count := n\<rparr>) ?s ?i = Some b' \<and>
       edited ?e (drop_id k (depth ?e)) b' \<and> fills b' = fills ?e \<and> live_order_count b' = n"
      by (rule take_off [OF e se]) blast
    obtain b' where b': "refresh_tob (dec_live b3) ?s ?i = Some b'" "edited ?e (drop_id k (depth ?e)) b'"
      "fills b' = fills ?e" "live_order_count b' = of_nat (unat (live_order_count b) - 1)"
      using n [of "of_nat (unat (live_order_count b3) - 1)"] r(5) by (auto simp: dec_live_set)
    have "execute_order clk b k q = Some (b', True)"
      unfolding execute_order_def f(1) bind.bind_lunit if_not_P [OF f(2)] oa Let_def la em
      using True r b' by (simp add: oq)
    then show ?thesis using that b' ed True by (simp add: t_def m)
  next
    case False
    then have m: "min q (open_qty b k) = q" "q < oqty (ord ?e x)"
      using oq by (simp_all add: min_def not_le less_imp_le)
    have em: "emit_trade clk (oid (ord b x)) 0 (lprice (levels b ?s ! unat ?i)) q b = ?e"
      using f(3) by (simp add: emit_trade_def t_def lp m)
    obtain b1 b2 l where r: "upd_order ?e x (\<lambda>ord. ord\<lparr>oqty := oqty ord - q\<rparr>) = Some b1"
      "upd_level b1 ?s ?i (\<lambda>l. l\<lparr>total_volume := total_volume l - q\<rparr>) = Some b2" "level_at b2 ?s ?i = Some l"
      and r2: "fills b2 = fills ?e" "live_order_count b2 = live_order_count ?e" "best b2 = best ?e"
      and r3: "edited ?e (less_qty k q (depth ?e))
         (if ?i = best b2 ?s then b2\<lparr>best_qty := (best_qty b2)(?s := total_volume l)\<rparr> else b2)"
      by (rule reduce_in_place [OF e se m(2)])
    let ?b = "if ?i = best b2 ?s then b2\<lparr>best_qty := (best_qty b2)(?s := total_volume l)\<rparr> else b2"
    have "execute_order clk b k q = Some (?b, False)"
      unfolding execute_order_def f(1) bind.bind_lunit if_not_P [OF f(2)] oa Let_def la em
      using False r by (simp add: oq)
    moreover have "fills ?b = fills ?e" "live_order_count ?b = live_order_count b"
      using r2 by simp_all
    moreover have "edited b (less_qty k q (depth b)) ?b" using ed [OF r3] by simp
    ultimately show ?thesis using that [of ?b] False by (simp add: t_def m)
  qed
qed

lemma reduce_unknown:
  "index_ok b \<Longrightarrow> content (ids b) k = None \<Longrightarrow> reduce_order_qty b k q = Some (b, False)"
  by (simp add: reduce_order_qty_def find_absent)

lemma reduce_known:
  assumes ok: "book_ok b" and ix: "index_ok b" and lv: "\<And>s. tob_live b s"
    and c: "content (ids b) k = Some x"
  obtains b' where "reduce_order_qty b k q = Some (b', open_qty b k \<le> q)"
    "edited b (if open_qty b k \<le> q then drop_id k (depth b) else less_qty k q (depth b)) b'"
    "fills b' = fills b" "live_order_count b' = live_order_count b"
proof -
  let ?s = "oside (ord b x)" and ?i = "oprice (ord b x)"
  have f: "id_find (ids b) k = Some x" "x \<noteq> NULL_IDX" "order_at b x = Some (ord b x)"
    using find_present [OF ok ix c] by (metis order_at_in)+
  have oq: "oqty (ord b x) = open_qty b k" using c by (simp add: open_qty_def)
  show ?thesis
  proof (cases "open_qty b k \<le> q")
    case True
    obtain b' where "cancel_order b k = Some b'" "edited b (drop_id k (depth b)) b'"
      "fills b' = fills b" "live_order_count b' = live_order_count b"
      using cancel_known [OF ok ix lv c] by metis
    then show ?thesis using that f True by (simp add: reduce_order_qty_def oq Let_def)
  next
    case False
    then have m: "q < oqty (ord b x)" using oq by (simp add: not_le)
    obtain b1 b2 l where r: "upd_order b x (\<lambda>ord. ord\<lparr>oqty := oqty ord - q\<rparr>) = Some b1"
      "upd_level b1 ?s ?i (\<lambda>l. l\<lparr>total_volume := total_volume l - q\<rparr>) = Some b2" "level_at b2 ?s ?i = Some l"
      and r2: "fills b2 = fills b" "live_order_count b2 = live_order_count b" "best b2 = best b"
      and r3: "edited b (less_qty k q (depth b))
         (if ?i = best b2 ?s then b2\<lparr>best_qty := (best_qty b2)(?s := total_volume l)\<rparr> else b2)"
      by (rule reduce_in_place [OF ok ix lv c refl refl m])
    let ?b = "if ?i = best b2 ?s then b2\<lparr>best_qty := (best_qty b2)(?s := total_volume l)\<rparr> else b2"
    have "reduce_order_qty b k q = Some (?b, False)"
      using f False r(1-3) by (simp add: reduce_order_qty_def oq Let_def)
    moreover have "fills ?b = fills b" "live_order_count ?b = live_order_count b"
      using r2 by simp_all
    ultimately show ?thesis using that [of ?b] r3 False by simp
  qed
qed

section \<open>Market orders\<close>

lemma market_buy:
  assumes ok: "book_ok b" and lv: "tob_live b SELL"
  defines "lvls \<equiv> [unat (best b SELL)..<band b]"
  obtains b' where "process_market_order clk b BUY q = Some b'" "tob_step SELL b b'"
    "outcome clk 0 b (fst (sweep SELL lvls q (depth b))) (fst (snd (sweep SELL lvls q (depth b))))
       (sweep_dead SELL lvls q (depth b)) b'"
proof -
  note D = shapeD [OF book_okD(4) [OF ok]]
  let ?l = "of_nat (length (levels b SELL)) - 1 :: u32"
  have "?l = of_nat (band b - 1)" using D(1,3) by (simp add: of_nat_diff)
  then have l: "unat ?l = band b - 1" using D(4) by (simp only: unat_of_nat_u32)
  then have "unat ?l < band b" "Suc (unat ?l) = band b" using D(3) by simp_all
  from match_against_asks_correct [OF ok lv this(1), of clk 0 q] this(2) show ?thesis
    using that by (auto simp: process_market_order_def lvls_def)
qed

lemma market_sell:
  assumes ok: "book_ok b" and lv: "tob_live b BUY"
  defines "lvls \<equiv> rev [0..<bid_top b]"
  obtains b' where "process_market_order clk b SELL q = Some b'" "tob_step BUY b b'"
    "outcome clk 0 b (fst (sweep BUY lvls q (depth b))) (fst (snd (sweep BUY lvls q (depth b))))
       (sweep_dead BUY lvls q (depth b)) b'"
  using match_against_bids_correct [OF ok lv, of clk 0 0 q] that
  by (auto simp: process_market_order_def lvls_def)

end
