(* ===== verification/Book_Insert.thy ===== *)
theory Book_Insert
  imports Book_Ops
begin

text \<open>
  \<open>insert_limit_order\<close>: anchoring or moving the price window, matching, and resting the
  remainder, put together from the lemmas about the three phases.
\<close>

section \<open>Anchoring the window\<close>

text \<open>An unanchored book is empty.\<close>

definition anchor_ok :: "order_book \<Rightarrow> bool" where
  "anchor_ok b \<longleftrightarrow> base_set b \<or> (\<forall>s i. depth b s i = [])"

definition anchored :: "order_book \<Rightarrow> price \<Rightarrow> order_book" where
  "anchored b p = (if base_set b then b else b\<lparr>base := centred_base b p, base_set := True\<rparr>)"

lemma base_update_simps [simp]:
  "queue_of (b\<lparr>base := x, base_set := y\<rparr>) = queue_of b" "ord (b\<lparr>base := x, base_set := y\<rparr>) = ord b"
  "depth (b\<lparr>base := x, base_set := y\<rparr>) = depth b" "index_ok (b\<lparr>base := x, base_set := y\<rparr>) = index_ok b"
  "band (b\<lparr>base := x, base_set := y\<rparr>) = band b"
  "tob_live (b\<lparr>base := x, base_set := y\<rparr>) s = tob_live b s"
  "tob_exact (b\<lparr>base := x, base_set := y\<rparr>) s = tob_exact b s"
  "tob_fresh (b\<lparr>base := x, base_set := y\<rparr>) s = tob_fresh b s"
proof -
  show q: "queue_of (b\<lparr>base := x, base_set := y\<rparr>) = queue_of b" "ord (b\<lparr>base := x, base_set := y\<rparr>) = ord b"
    by (simp_all add: queue_of_def ord_def band_def fun_eq_iff)
  then show "index_ok (b\<lparr>base := x, base_set := y\<rparr>) = index_ok b" by (simp add: index_ok_def)
  have "view (b\<lparr>base := x, base_set := y\<rparr>) = view b" by (simp add: view_def q fun_eq_iff)
  then show d: "depth (b\<lparr>base := x, base_set := y\<rparr>) = depth b" by (simp add: depth_def q)
  then show "tob_live (b\<lparr>base := x, base_set := y\<rparr>) s = tob_live b s"
    "tob_fresh (b\<lparr>base := x, base_set := y\<rparr>) s = tob_fresh b s"
    "tob_exact (b\<lparr>base := x, base_set := y\<rparr>) s = tob_exact b s"
    by (simp_all add: tob_live_def tob_fresh_def tob_exact_def)
  show "band (b\<lparr>base := x, base_set := y\<rparr>) = band b" by (simp add: band_def)
qed

lemma base_update_ok:
  assumes ok: "book_ok b" and e: "\<And>s i. depth b s i = []"
  shows "book_ok (b\<lparr>base := x, base_set := y\<rparr>)"
proof -
  let ?b = "b\<lparr>base := x, base_set := y\<rparr>"
  have q: "queue_of b s i = []" for s i using e [of s i] by (simp add: depth_def)
  have v: "view ?b = view b" by (simp add: view_def ord_def fun_eq_iff)
  have "links ?b (queue_of b) (free_list (pool b)) {}"
    using book_okD(2) [OF ok] by (simp add: links_def shape_def band_def)
  then have "core ?b (queue_of b) (free_list (pool b)) {}"
    using book_okD(1) [OF ok] q by (simp add: core_def sound_def v band_def)
  then show ?thesis by (rule core_book_ok)
qed

lemma anchored_simps [simp]:
  "queue_of (anchored b p) = queue_of b" "ord (anchored b p) = ord b" "depth (anchored b p) = depth b"
  "index_ok (anchored b p) = index_ok b" "band (anchored b p) = band b"
  "tob_live (anchored b p) s = tob_live b s" "tob_exact (anchored b p) s = tob_exact b s"
  "tob_fresh (anchored b p) s = tob_fresh b s" "ids (anchored b p) = ids b" "fills (anchored b p) = fills b"
  "live_order_count (anchored b p) = live_order_count b" "pool (anchored b p) = pool b"
  "base_set (anchored b p)" "best (anchored b p) = best b"
  by (simp_all add: anchored_def)

lemma anchored_ok: "book_ok b \<Longrightarrow> anchor_ok b \<Longrightarrow> book_ok (anchored b p)"
  by (auto simp: anchored_def anchor_ok_def base_update_ok)

text \<open>The centred window contains the price.\<close>

lemma centred_in_band:
  assumes sh: "shape b" and base: "base b' = centred_base b p" and bd: "band b' = band b"
  shows "in_band b' (to_idx b' p)"
proof -
  let ?h = "of_nat (band b div 2) :: u32"
  have h: "unat ?h = band b div 2" using shapeD(4) [OF sh] by (intro unat_of_nat_u32) simp
  have n: "0 < band b" by (rule shapeD(3) [OF sh])
  have b0: "centred_base b p = (if p < ?h then 0 else p - ?h)"
    by (simp add: centred_base_def band_def Let_def)
  show ?thesis
  proof (cases "p < ?h")
    case True
    then have "unat p < band b div 2" using h by (simp add: word_less_nat_alt)
    then have "unat p < band b" by linarith
    then show ?thesis using True b0 base bd by (simp add: in_band_def to_idx_def del: of_nat_unat)
  next
    case False
    then have le: "?h \<le> p" by (simp add: not_less)
    then have "unat (base b') = unat p - band b div 2"
      using False b0 base h by (simp add: unat_sub)
    moreover have "band b div 2 \<le> unat p" using le h by (simp add: word_le_nat_alt)
    ultimately have "to_idx b' p = int (band b div 2)"
      unfolding to_idx_def by (simp only: of_nat_diff)
    then show ?thesis using n bd by (simp add: in_band_def)
  qed
qed

section \<open>A price inside the window\<close>

definition opp :: "side \<Rightarrow> side" where
  "opp s = (case s of BUY \<Rightarrow> SELL | SELL \<Rightarrow> BUY)"

text \<open>The opposite levels a taker with limit index \<open>i\<close> may trade with, best first.\<close>

definition ladder :: "order_book \<Rightarrow> side \<Rightarrow> nat \<Rightarrow> nat list" where
  "ladder b s i = (case s of BUY \<Rightarrow> [unat (best b SELL)..<Suc i] | SELL \<Rightarrow> rev [i..<bid_top b])"

definition match_against :: "(nat \<Rightarrow> u64) \<Rightarrow> side \<Rightarrow> order_id \<Rightarrow> price \<Rightarrow> quantity \<Rightarrow> order_book \<Rightarrow>
    (order_book \<times> quantity) option" where
  "match_against clk s k i q b = (case s of BUY \<Rightarrow> match_against_asks clk k i q b
     | SELL \<Rightarrow> match_against_bids clk k i q b)"

lemma match_against_correct:
  assumes "book_ok b" and "\<And>s. tob_live b s" and "unat i < band b"
    and sw: "sweep (opp s) (ladder b s (unat i)) q (depth b) = (fs, V, r)"
  obtains b' where "match_against clk s k i q b = Some (b', r)"
    "outcome clk k b fs V (sweep_dead (opp s) (ladder b s (unat i)) q (depth b)) b'"
    "tob_step (opp s) b b'"
proof (cases s)
  case BUY
  then show ?thesis
    using match_against_asks_correct [OF assms(1) assms(2) assms(3), of clk k q] that sw
    by (auto simp: match_against_def opp_def ladder_def)
next
  case SELL
  then show ?thesis
    using match_against_bids_correct [OF assms(1) assms(2), of clk k i q] that sw
    by (auto simp: match_against_def opp_def ladder_def)
qed

lemma index_ok_ids:
  assumes "index_ok b"
  shows "content (ids b) k = None \<longleftrightarrow> (\<forall>s i. k \<notin> fst ` set (depth b s i))"
proof -
  have "content (ids b) k \<noteq> None \<longleftrightarrow> (\<exists>x s i. x \<in> set (queue_of b s i) \<and> oid (ord b x) = k)"
    using index_okD(2) [OF assms, of k] by auto
  also have "\<dots> \<longleftrightarrow> (\<exists>s i. k \<in> fst ` set (depth b s i))"
  proof -
    have "k \<in> fst ` set (depth b s i) \<longleftrightarrow> (\<exists>x. x \<in> set (queue_of b s i) \<and> oid (ord b x) = k)" for s i
      by (auto simp: depth_def view_alt order_view_def image_iff)
    then show ?thesis by blast
  qed
  finally show ?thesis by blast
qed

text \<open>
  The result of an order that reaches the matching phase: the fills and the depth of the
  sweep, the remainder appended to its own level if there is one and a slot is free.
\<close>

definition placed :: "(nat \<Rightarrow> u64) \<Rightarrow> order_book \<Rightarrow> order_id \<Rightarrow> side \<Rightarrow> nat \<Rightarrow> quantity \<Rightarrow> order_book \<Rightarrow> bool \<Rightarrow> bool" where
  "placed clk b k s i q b' rests \<longleftrightarrow> (case sweep (opp s) (ladder b s i) q (depth b) of (fs, V, r) \<Rightarrow>
     fills b' = fills b @ stamp clk k (base b) (length (fills b)) fs \<and>
     depth b' = (if rests then qput V s i (V s i @ [(k, r)]) else V) \<and>
     (rests \<longleftrightarrow> r \<noteq> 0 \<and> (free_list (pool b) \<noteq> [] \<or> sweep_dead (opp s) (ladder b s i) q (depth b) \<noteq> [])))"

text \<open>What carries over: both best prices, and the id table for ids that are new.\<close>

definition carried :: "order_book \<Rightarrow> order_id \<Rightarrow> order_book \<Rightarrow> bool" where
  "carried b k b' \<longleftrightarrow> book_ok b' \<and> (\<forall>s. tob_live b' s) \<and> (\<forall>s. tob_exact b s \<longrightarrow> tob_exact b' s) \<and>
     (index_ok b \<and> ordered_ok (ids b) \<and> content (ids b) k = None \<longrightarrow> index_ok b') \<and>
     (\<forall>K. index_ok b \<and> calm_on (ids b) K \<and> k \<in> K \<and> content (ids b) k = None \<longrightarrow>
        index_ok b' \<and> calm_on (ids b') K) \<and>
     used (ids b') \<le> used (ids b) + 1 \<and> tsize (ids b') = tsize (ids b) \<and>
     base b' = base b \<and> base_set b' = base_set b \<and> band b' = band b \<and> pool_size (pool b') = pool_size (pool b)"

lemma outcome_carried:
  assumes o: "outcome clk t b fs V ks b'" and st: "tob_step s b b'" and lv: "\<And>s. tob_live b s"
    and tb: "table_ok (ids b)"
  shows "carried b k b'"
proof -
  note O = outcomeD [OF o]
  have "tob_all b b'" using tob_step_all [OF st lv] .
  moreover have "tsize (ids b') = tsize (ids b) \<and> used (ids b') \<le> used (ids b)"
    using erase_all_size [OF tb O(4)] .
  ultimately show ?thesis
    using O by (auto simp: carried_def tob_all_def tidy_step_def)
qed

lemma rested_carried:
  assumes rs: "rested b k s i r b'" and lv: "\<And>s. tob_live b s"
  shows "carried b k b'"
proof -
  note R = restedD [OF rs]
  let ?c = "best b s = NULL_IDX \<or> better s (unat i) (unat (best b s))"
  have bs: "best b' s = (if ?c then i else best b s)" using R(3) by (auto split: if_splits)
  have other: "best b' s' = best b s' \<and> depth b' s' = depth b s'" if "s' \<noteq> s" for s'
    using R(4) [OF that] R(2) that by (auto simp: fun_eq_iff)
  have live: "tob_live b' s'" for s'
  proof (cases "s' = s")
    case True
    then show ?thesis using lv [of s] bs R(2) by (auto simp: tob_live_def)
  next
    case False
    then show ?thesis using lv [of s'] other by (simp add: tob_live_def)
  qed
  have "unat i < band b'" using depth_in_band [OF R(1), of s "unat i"] R(2) by simp
  then have "i \<noteq> NULL_IDX"
    using shapeD(4) [OF book_okD(4) [OF R(1)]] by (auto simp: unat_NULL_IDX)
  then have nn: "best b' s \<noteq> NULL_IDX" using bs by auto
  have exact: "tob_exact b' s'" if e: "tob_exact b s'" for s'
  proof (cases "s' = s")
    case True
    have "depth b' s j = []" if j: "better s j (unat (best b' s))" for j
    proof -
      have "j \<noteq> unat i" "best b s = NULL_IDX \<or> better s j (unat (best b s))"
        using j bs by (cases s; auto simp: better_def split: if_splits)+
      then show ?thesis using e True R(2) by (auto simp: tob_exact_def)
    qed
    then show ?thesis using live True nn by (auto simp: tob_exact_def)
  next
    case False
    then show ?thesis using e live [of s'] other by (simp add: tob_exact_def)
  qed
  have "ordered_ok (ids b)" if "calm_on (ids b) K" for K
    using that at_home_ordered by (simp add: calm_on_def)
  then show ?thesis using R live exact unfolding carried_def by blast
qed

lemma carried_trans:
  assumes "carried b k b1" and "carried b1 k b2" and "used (ids b1) \<le> used (ids b) \<or> used (ids b2) \<le> used (ids b1)"
    and "index_ok b1 \<Longrightarrow> index_ok b \<Longrightarrow> content (ids b) k = None \<Longrightarrow> content (ids b1) k = None"
    and "index_ok b \<and> ordered_ok (ids b) \<longrightarrow> index_ok b1 \<and> ordered_ok (ids b1)"
  shows "carried b k b2"
proof -
  have "ordered_ok (ids b)" if "calm_on (ids b) K" for K
    using that at_home_ordered by (simp add: calm_on_def)
  then show ?thesis using assms unfolding carried_def by (elim conjE) (intro conjI; (blast | linarith | simp))
qed

lemma insert_placed:
  assumes ok: "book_ok b" and lv: "\<And>s. tob_live b s" and i: "unat i < band b"
    and p: "unat p = unat (base b) + unat i" and room: "used (ids b) + 1 < tsize (ids b)"
  obtains b' rests where
    "do { (b, r) \<leftarrow> match_against clk s k i q b;
         (if r = 0 then Some (b, False) else rest_order b k s p i r) } = Some (b', rests)"
    "placed clk b k s (unat i) q b' rests" "carried b k b'"
proof -
  obtain fs V r where sw: "sweep (opp s) (ladder b s (unat i)) q (depth b) = (fs, V, r)" by (metis surj_pair)
  let ?ks = "sweep_dead (opp s) (ladder b s (unat i)) q (depth b)"
  obtain b1 where m: "match_against clk s k i q b = Some (b1, r)"
    and o: "outcome clk k b fs V ?ks b1" and st: "tob_step (opp s) b b1"
    using match_against_correct [OF ok lv i sw, of clk k] by auto
  note O = outcomeD [OF o]
  have ca: "carried b k b1" by (rule outcome_carried [OF o st lv book_okD(3) [OF ok]])
  then have lv1: "tob_live b1 s" for s by (simp add: carried_def)
  have us: "used (ids b1) \<le> used (ids b)" "tsize (ids b1) = tsize (ids b)"
    using erase_all_size [OF book_okD(3) [OF ok] O(4)] by auto
  have fr: "free_list (pool b1) = [] \<longleftrightarrow> free_list (pool b) = [] \<and> ?ks = []"
    using O(11) by (metis add_is_0 length_0_conv)
  show ?thesis
  proof (cases "r = 0 \<or> free_list (pool b1) = []")
    case True
    then have "do { (b, r) \<leftarrow> match_against clk s k i q b;
         (if r = 0 then Some (b, False) else rest_order b k s p i r) } = Some (b1, False)"
      using m rest_order_full [OF O(1)] by auto
    moreover have "placed clk b k s (unat i) q b1 False"
      using True O fr by (auto simp: placed_def sw)
    ultimately show ?thesis using that ca by blast
  next
    case False
    have w: "p = base b1 + i"
    proof -
      have "(of_nat (unat p) :: u32) = of_nat (unat (base b) + unat i)" using p by simp
      then show ?thesis using O(6) by simp
    qed
    have fit: "unat (base b1) + unat i < 4294967296"
      using p O(6) unat_lt_max [of p] by simp
    have i1: "unat i < band b1" using i O(8) by simp
    have room1: "used (ids b1) + 1 < tsize (ids b1)" using room us by simp
    obtain b2 where b2: "rest_order b1 k s p i r = Some (b2, True)" "rested b1 k s i r b2"
      using rest_order_correct [OF O(1) i1 w _ fit room1] False by blast
    note R = restedD [OF b2(2)]
    have c2: "carried b1 k b2" by (rule rested_carried [OF b2(2) lv1])
    have new: "content (ids b1) k = None" if "index_ok b1" "index_ok b" "content (ids b) k = None"
    proof -
      have "k \<notin> fst ` set (depth b1 s' j)" for s' j
      proof
        assume "k \<in> fst ` set (depth b1 s' j)"
        then obtain v where "(k, v) \<in> set (V s' j)" using O(2) by auto
        then obtain v' where "(k, v') \<in> set (depth b s' j)"
          using sweep_ids [of k v "opp s" "ladder b s (unat i)" q "depth b" s' j] sw by auto
        then show False using that(2,3) index_ok_ids [of b k] by force
      qed
      then show ?thesis using index_ok_ids [OF that(1)] by blast
    qed
    have "carried b k b2"
      by (rule carried_trans [OF ca c2 _ new]) (use us O(10) in \<open>auto simp: tidy_step_def\<close>)
    moreover have "placed clk b k s (unat i) q b2 True"
      using False O R fr by (simp add: placed_def sw)
    moreover have "do { (b, r) \<leftarrow> match_against clk s k i q b;
         (if r = 0 then Some (b, False) else rest_order b k s p i r) } = Some (b2, True)"
      using m b2(1) False by simp
    ultimately show ?thesis using that by blast
  qed
qed

section \<open>The whole operation\<close>

definition book_inv :: "order_book \<Rightarrow> bool" where
  "book_inv b \<longleftrightarrow> book_ok b \<and> anchor_ok b \<and> (\<forall>s. tob_live b s)"

text \<open>The window in which the order is placed.\<close>

definition windowed :: "order_book \<Rightarrow> price \<Rightarrow> order_book \<Rightarrow> bool" where
  "windowed b p b2 \<longleftrightarrow> (if \<not> in_band (anchored b p) (to_idx (anchored b p) p) \<and> live_order_count b \<le> 64
     then rebased (anchored b p) (centred_base b p) b2 else b2 = anchored b p)"

lemma windowed_facts:
  assumes "book_inv b" and "windowed b p b2"
  shows "book_ok b2" "tob_live b2 s" "base_set b2" "tidy_step b b2" "band b2 = band b"
    "tsize (ids b2) = tsize (ids b)" "used (ids b2) \<le> used (ids b)" "fills b2 = fills b"
    "pool_size (pool b2) = pool_size (pool b)"
    "content (ids b) k = None \<Longrightarrow> index_ok b \<Longrightarrow> index_ok b2 \<Longrightarrow> content (ids b2) k = None"
proof -
  have a: "book_ok (anchored b p)" "tidy_step b (anchored b p)"
    using assms(1) anchored_ok by (auto simp: book_inv_def tidy_step_def)
  have r: "book_ok b2 \<and> tidy_step (anchored b p) b2 \<and> (\<forall>s. tob_live (anchored b p) s \<longrightarrow> tob_live b2 s) \<and>
      base_set b2 \<and> band b2 = band b \<and> tsize (ids b2) = tsize (ids b) \<and> used (ids b2) \<le> used (ids b) \<and>
      fills b2 = fills b \<and> pool_size (pool b2) = pool_size (pool b)"
    using assms(2) a by (auto simp: windowed_def rebased_def split: if_splits)
  then show "book_ok b2" "base_set b2" "band b2 = band b" "tsize (ids b2) = tsize (ids b)"
    "used (ids b2) \<le> used (ids b)" "fills b2 = fills b" "pool_size (pool b2) = pool_size (pool b)" by auto
  show "tob_live b2 s" using r assms(1) by (simp add: book_inv_def)
  show "tidy_step b b2" using tidy_step_trans a(2) r by blast
  show "content (ids b2) k = None" if k: "content (ids b) k = None" and ix: "index_ok b" "index_ok b2"
  proof -
    have d: "depth b2 = depth b \<or> (\<exists>ob nb n. depth b2 = reframed ob nb n (depth b))"
    proof (cases "\<not> in_band (anchored b p) (to_idx (anchored b p) p) \<and> live_order_count b \<le> 64")
      case True
      then have "depth b2 = reframed (unat (base (anchored b p))) (unat (centred_base b p)) (band b) (depth b)"
        using assms(2) by (auto simp: windowed_def rebased_def)
      then show ?thesis by blast
    next
      case False
      then show ?thesis using assms(2) by (auto simp: windowed_def)
    qed
    have "\<exists>j. depth b2 s i = depth b s j \<or> depth b2 s i = []" for s i
      using d by (auto simp: reframed_def Let_def)
    then have "k \<notin> fst ` set (depth b2 s i)" for s i
      using k index_ok_ids [OF ix(1)] by (metis empty_iff image_empty list.set(1))
    then show ?thesis using index_ok_ids [OF ix(2)] by blast
  qed
qed

lemma insert_limit_order_correct:
  assumes inv: "book_inv b" and room: "used (ids b) + 1 < tsize (ids b)"
  obtains b2 b' rests where "insert_limit_order clk b k s p q = Some (b', rests)" "windowed b p b2"
    "in_band b2 (to_idx b2 p) \<Longrightarrow>
       placed clk b2 k s (unat p - unat (base b2)) q b' rests \<and> carried b2 k b'"
    "\<not> in_band b2 (to_idx b2 p) \<Longrightarrow> b' = b2 \<and> \<not> rests \<and> live_order_count b > 64"
proof -
  let ?a = "anchored b p"
  have ok: "book_ok b" "anchor_ok b" "\<And>s. tob_live b s" using inv by (auto simp: book_inv_def)
  have oka: "book_ok ?a" by (rule anchored_ok [OF ok(1,2)])
  have lva: "tob_live ?a s" for s using ok(3) by simp
  let ?out = "\<not> in_band ?a (to_idx ?a p) \<and> live_order_count ?a \<le> BOOTSTRAP_REBASE_LIMIT"
  obtain b2 where b2: "(if ?out then rebase_base ?a (centred_base ?a p) else Some ?a) = Some b2"
    and w: "windowed b p b2"
  proof (cases ?out)
    case True
    obtain b2 where "rebase_base ?a (centred_base b p) = Some b2" "rebased ?a (centred_base b p) b2"
      using rebase_base_correct [OF oka lva] by blast
    moreover have "centred_base ?a p = centred_base b p"
      by (simp add: centred_base_def anchored_def)
    ultimately show ?thesis using that [of b2] True by (simp add: windowed_def BOOTSTRAP_REBASE_LIMIT_def)
  next
    case False
    then show ?thesis using that [of ?a] by (auto simp: windowed_def BOOTSTRAP_REBASE_LIMIT_def)
  qed
  note W = windowed_facts [OF inv w]
  let ?rel = "to_idx b2 p" and ?i = "of_int (to_idx b2 p) :: u32"
  have start: "insert_limit_order clk b k s p q = (if \<not> in_band b2 ?rel then Some (b2, False)
      else do { (b, r) \<leftarrow> match_against clk s k ?i q b2;
           (if r = 0 then Some (b, False) else rest_order b k s p ?i r) })"
    using b2 unfolding insert_limit_order_def anchored_def [symmetric] Let_def
    by (simp add: match_against_def cong: option.case_cong)
  show ?thesis
  proof (cases "in_band b2 ?rel")
    case False
    have "live_order_count b > 64"
    proof (rule ccontr)
      assume "\<not> live_order_count b > 64"
      then have le: "live_order_count b \<le> 64" by (simp add: not_less)
      show False
      proof (cases "in_band ?a (to_idx ?a p)")
        case True
        then show False using w False by (simp add: windowed_def)
      next
        case out: False
        then have "base b2 = centred_base b p"
          using w le by (simp add: windowed_def rebased_def)
        from centred_in_band [OF book_okD(4) [OF ok(1)] this W(5)] show False using False by simp
      qed
    qed
    then show ?thesis using that [of b2 False b2] start w False by simp
  next
    case True
    then have rel: "0 \<le> ?rel" "?rel < int (band b2)" by (auto simp: in_band_def)
    have u: "unat ?i = nat ?rel"
    proof -
      have "?i = of_nat (nat ?rel)" using rel by simp
      moreover have "nat ?rel < 4294967296"
        using rel shapeD(4) [OF book_okD(4) [OF W(1)]] by linarith
      ultimately show ?thesis by (simp only: unat_of_nat_u32)
    qed
    have i: "unat ?i < band b2" using u rel by (simp add: nat_less_iff)
    have "int (unat p) = int (unat (base b2)) + ?rel" by (simp add: to_idx_def del: of_nat_unat)
    then have p: "unat p = unat (base b2) + unat ?i" using u rel(1) by linarith
    have room2: "used (ids b2) + 1 < tsize (ids b2)" using room W(6,7) by simp
    obtain b' rests where r:
      "do { (b, r) \<leftarrow> match_against clk s k ?i q b2;
         (if r = 0 then Some (b, False) else rest_order b k s p ?i r) } = Some (b', rests)"
      "placed clk b2 k s (unat ?i) q b' rests" "carried b2 k b'"
      using insert_placed [OF W(1) W(2) i p room2] by blast
    have "unat ?i = unat p - unat (base b2)" using p by simp
    then show ?thesis using that [of b' rests b2] start w True r by simp
  qed
qed

lemma insert_inv:
  assumes inv: "book_inv b" and room: "used (ids b) + 1 < tsize (ids b)"
  obtains b' rests where "insert_limit_order clk b k s p q = Some (b', rests)" "book_inv b'"
    "index_ok b \<and> ordered_ok (ids b) \<and> content (ids b) k = None \<longrightarrow> index_ok b'"
    "\<forall>K. index_ok b \<and> calm_on (ids b) K \<and> k \<in> K \<and> content (ids b) k = None \<longrightarrow>
       index_ok b' \<and> calm_on (ids b') K"
    "tsize (ids b') = tsize (ids b)" "band b' = band b" "pool_size (pool b') = pool_size (pool b)"
proof -
  obtain b2 b' rests where r: "insert_limit_order clk b k s p q = Some (b', rests)" "windowed b p b2"
    and c: "in_band b2 (to_idx b2 p) \<Longrightarrow> carried b2 k b'" "\<not> in_band b2 (to_idx b2 p) \<Longrightarrow> b' = b2"
    using insert_limit_order_correct [OF inv room, of clk k s p q] by metis
  note W = windowed_facts [OF inv r(2)]
  have t: "index_ok b \<and> ordered_ok (ids b) \<longrightarrow> index_ok b2 \<and> ordered_ok (ids b2)"
    "\<forall>K. index_ok b \<and> calm_on (ids b) K \<longrightarrow> index_ok b2 \<and> calm_on (ids b2) K"
    using W(4) by (auto simp: tidy_step_def)
  show ?thesis
  proof (cases "in_band b2 (to_idx b2 p)")
    case False
    then show ?thesis using that [of b' rests] r(1) c(2) W t by (auto simp: book_inv_def anchor_ok_def)
  next
    case True
    note C = c(1) [OF True, unfolded carried_def]
    have "book_inv b'" using C W(3) by (simp add: book_inv_def anchor_ok_def)
    moreover have "index_ok b \<and> ordered_ok (ids b) \<and> content (ids b) k = None \<longrightarrow> index_ok b'"
      using C t(1) W(10) [of k] by blast
    moreover have "\<forall>K. index_ok b \<and> calm_on (ids b) K \<and> k \<in> K \<and> content (ids b) k = None \<longrightarrow>
       index_ok b' \<and> calm_on (ids b') K"
      using C t(2) W(10) [of k] by blast
    ultimately show ?thesis using that [of b' rests] r(1) C W(5,6,9) by auto
  qed
qed

end
