(* ===== verification/Book_Session.thy ===== *)
theory Book_Session
  imports Book_Insert
begin

text \<open>
  Whole sessions: a book fresh from its constructor and any sequence of public calls on it.
  \<open>session\<close> is the step relation, \<open>healthy\<close> its invariant, and \<open>orderly\<close> the stronger invariant
  of sessions in which the price window never moves: both cached best prices are exact and the
  book is not crossed.
\<close>

section \<open>A new book\<close>

definition book_table :: "nat \<Rightarrow> id_map" where
  "book_table m = id_map_new (book_round_up_pow2 (of_nat m * 2))"

lemma book_round_up_pow2_bounds:
  assumes "1 < unat v" and "unat v \<le> 2147483648"
  shows "unat v \<le> unat (book_round_up_pow2 v)" and "unat (book_round_up_pow2 v) \<le> 2147483648"
proof -
  obtain e where e: "1 \<le> e" "e \<le> 32" "smear v = of_nat (2 ^ e)" "2 ^ (e - 1) < unat v" "unat v \<le> 2 ^ e"
    using smear_pow2 [OF assms(1)] .
  have "e < 32"
  proof (rule ccontr)
    assume "\<not> e < 32"
    then have "e - 1 = 31" using e by simp
    then show False using e(4) assms(2) by simp
  qed
  then have "(2 :: nat) ^ e \<le> 2 ^ 31" by (intro power_increasing) simp_all
  moreover have "v \<noteq> 0" using assms(1) by auto
  moreover from calculation have "(2 :: nat) ^ e < 4294967296" by simp
  ultimately have "unat (book_round_up_pow2 v) = 2 ^ e"
    using e(3) by (simp only: book_round_up_pow2_def if_False unat_of_nat_u32)
  then show "unat v \<le> unat (book_round_up_pow2 v)" "unat (book_round_up_pow2 v) \<le> 2147483648"
    using e(5) \<open>(2 :: nat) ^ e \<le> 2 ^ 31\<close> by simp_all
qed

lemma book_table_ok:
  assumes "0 < m" and "m \<le> 1073741824"
  shows "idmap_ok (book_table m)" "content (book_table m) = Map.empty" "2 * m \<le> tsize (book_table m)"
    "at_home (book_table m)" "used (book_table m) = 0"
proof -
  let ?v = "of_nat m * 2 :: u32"
  have v: "unat ?v = 2 * m"
  proof -
    have "?v = of_nat (2 * m)" by simp
    then show ?thesis using assms(2) by (simp only: unat_of_nat_u32)
  qed
  have b: "unat ?v \<le> unat (book_round_up_pow2 ?v)" "unat (book_round_up_pow2 ?v) \<le> 2147483648"
    by (rule book_round_up_pow2_bounds; use v assms in linarith)+
  have "1 < unat (book_round_up_pow2 ?v)" using b(1) v assms(1) by linarith
  note new = id_map_new_ok [OF this b(2), folded book_table_def]
  show "idmap_ok (book_table m)" "content (book_table m) = Map.empty" "used (book_table m) = 0"
    using new by simp_all
  show "2 * m \<le> tsize (book_table m)" using new(4) b(1) v by simp
  show "at_home (book_table m)" using new(5) by (auto simp: at_home_def used_card)
qed

lemma book_new_ok:
  assumes n: "0 < n" "n \<le> 4294967295" and m: "0 < m" "m \<le> 1073741824"
  obtains b where "book_new n m = Some b" "book_inv b" "index_ok b" "band b = n" "pool_size (pool b) = m"
    "\<forall>s i. depth b s i = []" "\<forall>s. tob_exact b s \<and> tob_fresh b s" "fills b = []"
    "live_order_count b = 0" "ids b = book_table m"
proof -
  have mw: "unat (of_nat m :: u32) = m" using m by (simp add: unat_of_nat_u32)
  then have "(of_nat m :: u32) \<noteq> 0" using m by (metis unat_0 less_irrefl)
  then obtain p where p: "pool_new (of_nat m) = Some p" "pool_size p = m"
    "free_rep p (map of_nat [0..<m])"
    using pool_new_rep [of "of_nat m"] mw by metis
  define b where "b = \<lparr>best = (\<lambda>_. NULL_IDX), best_qty = (\<lambda>_. 0), pool = p,
       ids = book_table m, fills = [], base = 0, base_set = False, live_order_count = 0,
       levels = (\<lambda>_. replicate n new_level), bitmap = (\<lambda>_. replicate ((n + 63) div 64) 0)\<rparr>"
  have run: "book_new n m = Some b" by (simp add: book_new_def p(1) b_def book_table_def)
  have bd: "band b = n" by (simp add: b_def band_def)
  have lv: "i < n \<Longrightarrow> levels b s ! i = new_level" for s i by (simp add: b_def)
  have slots: "unat x < m \<longleftrightarrow> x \<in> set (map of_nat [0..<m])" for x :: u32
  proof
    assume "unat x < m"
    then have "unat x \<in> set [0..<m]" by simp
    then show "x \<in> set (map of_nat [0..<m])" by (metis imageI set_map u32_eq_of_nat)
  next
    assume "x \<in> set (map of_nat [0..<m])"
    then show "unat x < m" using m by (auto simp: unat_of_nat_u32)
  qed
  have "links b (\<lambda>_ _. []) (map of_nat [0..<m]) {}"
    unfolding links_def
  proof (intro conjI)
    show "shape b" using n by (simp add: shape_def bd) (simp add: b_def)
    show "\<forall>s. \<forall>i<band b. level_rep (pool b) (levels b s ! i) s i []"
      using lv by (simp add: bd level_rep_def)
    show "\<forall>s. marked (bitmap b s) = (\<lambda>i. [] \<noteq> [])" by (simp add: b_def marked_zero)
    show "\<forall>x :: u32. unat x < pool_size (pool b) \<longleftrightarrow> x \<in> set (map of_nat [0..<m]) \<or> x \<in> {} \<or> (\<exists>s i. x \<in> set [])"
      using slots by (simp add: b_def p(2))
  qed (use p(3) in \<open>simp_all add: b_def\<close>)
  moreover have "table_ok (ids b)"
    using book_table_ok(1,5) [OF m] by (auto simp: b_def table_ok_def idmap_ok_def)
  ultimately have "core b (\<lambda>_ _. []) (map of_nat [0..<m]) {}"
    using lv by (simp add: core_def sound_def view_def bd)
  note c = core_book_ok [OF this]
  have d: "depth b s i = []" for s i using c(4) by (simp add: view_def)
  have best: "best b s = NULL_IDX" "best_qty b s = 0" for s by (simp_all add: b_def)
  have t: "tob_exact b s \<and> tob_fresh b s \<and> tob_live b s" for s
    using d best by (simp add: tob_exact_def tob_live_def tob_fresh_def)
  have "book_inv b" using c(1) d t by (simp add: book_inv_def anchor_ok_def)
  moreover have "index_ok b"
    using book_table_ok(1,2) [OF m] c(2) by (simp add: index_ok_def b_def)
  ultimately show ?thesis
    using that run bd d t by (simp add: b_def p(2))
qed


section \<open>Calls\<close>

datatype book_op =
    Insert order_id side price quantity
  | Cancel order_id
  | Market side quantity
  | Execute order_id quantity
  | Reduce order_id quantity

fun book_do :: "(nat \<Rightarrow> u64) \<Rightarrow> order_book \<Rightarrow> book_op \<Rightarrow> order_book option" where
  "book_do clk b (Insert k s p q) = map_option fst (insert_limit_order clk b k s p q)"
| "book_do clk b (Cancel k) = cancel_order b k"
| "book_do clk b (Market s q) = process_market_order clk b s q"
| "book_do clk b (Execute k q) = map_option fst (execute_order clk b k q)"
| "book_do clk b (Reduce k q) = map_option fst (reduce_order_qty b k q)"

definition resting :: "order_book \<Rightarrow> order_id \<Rightarrow> bool" where
  "resting b k \<longleftrightarrow> (\<exists>s i. k \<in> fst ` set (depth b s i))"

text \<open>
  The rule a caller follows: an id is inserted only while it does not rest on the book, and it
  comes from the collision-free set.
\<close>

fun op_ok :: "order_id set \<Rightarrow> order_book \<Rightarrow> book_op \<Rightarrow> bool" where
  "op_ok K b (Insert k s p q) \<longleftrightarrow> k \<in> K \<and> \<not> resting b k"
| "op_ok K b _ \<longleftrightarrow> True"

definition collision_free :: "nat \<Rightarrow> order_id set \<Rightarrow> bool" where
  "collision_free m K \<longleftrightarrow> finite K \<and> card K < tsize (book_table m) \<and> inj_on (home (book_table m)) K"

text \<open>\<open>A\<close> restricts the calls further; it is \<open>\<lambda>_ _. True\<close> for arbitrary sessions.\<close>

inductive session :: "(nat \<Rightarrow> u64) \<Rightarrow> nat \<Rightarrow> nat \<Rightarrow> order_id set \<Rightarrow>
    (order_book \<Rightarrow> book_op \<Rightarrow> bool) \<Rightarrow> order_book \<Rightarrow> bool"
  for clk n m K A where
  fresh: "book_new n m = Some b \<Longrightarrow> session clk n m K A b"
| call: "session clk n m K A b \<Longrightarrow> op_ok K b op \<Longrightarrow> A b op \<Longrightarrow> book_do clk b op = Some b' \<Longrightarrow>
    session clk n m K A b'"

definition healthy :: "nat \<Rightarrow> nat \<Rightarrow> order_id set \<Rightarrow> order_book \<Rightarrow> bool" where
  "healthy n m K b \<longleftrightarrow> book_inv b \<and> index_ok b \<and> calm_on (ids b) K \<and> band b = n \<and>
     pool_size (pool b) = m"

lemma healthyD:
  assumes "healthy n m K b"
  shows "book_inv b" "book_ok b" "index_ok b" "tob_live b s" "calm_on (ids b) K" "band b = n"
    "pool_size (pool b) = m" "anchor_ok b"
  using assms by (auto simp: healthy_def book_inv_def)

lemma resting_content: "index_ok b \<Longrightarrow> resting b k \<longleftrightarrow> content (ids b) k \<noteq> None"
  using index_ok_ids [of b k] by (auto simp: resting_def)

lemma healthy_room:
  assumes "healthy n m K b" and "k \<in> K" and "\<not> resting b k"
  shows "used (ids b) + 1 < tsize (ids b)" "content (ids b) k = None"
proof -
  note h = healthyD [OF assms(1)]
  show c: "content (ids b) k = None" using assms(3) resting_content [OF h(3)] by simp
  show "used (ids b) + 1 < tsize (ids b)"
    using calm_on_spare [OF index_okD(1) [OF h(3)] h(5) assms(2)] c by (simp add: spare_def)
qed

lemma healthy_edited:
  assumes h: "healthy n m K b" and e: "edited b V b'" and e0: "\<And>s i. V s i \<noteq> [] \<Longrightarrow> depth b s i \<noteq> []"
  shows "healthy n m K b'"
proof -
  note h' = healthyD [OF h] and E = editedD [OF e]
  have "anchor_ok b'" using h'(8) E(2,6) e0 by (auto simp: anchor_ok_def)
  then show ?thesis
    using h' E by (auto simp: healthy_def book_inv_def tidy_step_def tob_all_def)
qed

lemma drop_id_nonempty: "drop_id k V s i \<noteq> [] \<Longrightarrow> V s i \<noteq> []"
  by (auto simp: drop_id_def)

lemma less_qty_nonempty: "less_qty k q V s i \<noteq> [] \<Longrightarrow> V s i \<noteq> []"
  by (auto simp: less_qty_def)

lemma healthy_drop: "healthy n m K b \<Longrightarrow> edited b (drop_id k (depth b)) b' \<Longrightarrow> healthy n m K b'"
  by (erule healthy_edited, assumption) (rule drop_id_nonempty)

lemma healthy_less: "healthy n m K b \<Longrightarrow> edited b (less_qty k q (depth b)) b' \<Longrightarrow> healthy n m K b'"
  by (erule healthy_edited, assumption) (rule less_qty_nonempty)

lemma sweep_nonempty: "fst (snd (sweep s is r V)) s' i \<noteq> [] \<Longrightarrow> V s' i \<noteq> []"
  using sweep_ids [of _ _ s "is" r V s' i] by (metis list.set_intros(1) neq_Nil_conv surj_pair empty_iff list.set(1))

lemma healthy_outcome:
  assumes h: "healthy n m K b" and o: "outcome clk t b (fst (sweep s is q (depth b))) (fst (snd (sweep s is q (depth b)))) ks b'"
    and st: "tob_step s' b b'"
  shows "healthy n m K b'"
proof -
  note h' = healthyD [OF h] and O = outcomeD [OF o]
  have t: "tob_all b b'" by (rule tob_step_all [OF st h'(4)])
  have "depth b' s'' i \<noteq> [] \<Longrightarrow> depth b s'' i \<noteq> []" for s'' i
    using O(2) sweep_nonempty [of s "is" q "depth b" s'' i] by simp
  then have "anchor_ok b'" using h'(8) O(7) by (auto simp: anchor_ok_def)
  then show ?thesis
    using h' O t by (auto simp: healthy_def book_inv_def tidy_step_def tob_all_def)
qed


text \<open>Every permitted call on a healthy book returns and leaves it healthy.\<close>

lemma healthy_do:
  assumes h: "healthy n m K b" and ok: "op_ok K b op"
  obtains b' where "book_do clk b op = Some b'" "healthy n m K b'"
proof (cases op)
  case (Insert k s p q)
  then have k: "k \<in> K" "\<not> resting b k" using ok by simp_all
  note h' = healthyD [OF h]
  obtain b' rests where "insert_limit_order clk b k s p q = Some (b', rests)" "book_inv b'"
    "\<forall>K. index_ok b \<and> calm_on (ids b) K \<and> k \<in> K \<and> content (ids b) k = None \<longrightarrow>
       index_ok b' \<and> calm_on (ids b') K"
    "band b' = band b" "pool_size (pool b') = pool_size (pool b)"
    using insert_inv [OF h'(1) healthy_room(1) [OF h k], of clk k s p q] by metis
  then show ?thesis
    using that [of b'] Insert h' k healthy_room(2) [OF h k] by (simp add: healthy_def)
next
  case (Cancel k)
  note h' = healthyD [OF h]
  show ?thesis
  proof (cases "content (ids b) k")
    case None
    then show ?thesis using that [of b] Cancel h cancel_unknown [OF h'(3)] by simp
  next
    case (Some x)
    obtain b' where "cancel_order b k = Some b'" "edited b (drop_id k (depth b)) b'"
      using cancel_known [OF h'(2,3,4) Some] by metis
    then show ?thesis
      using that [of b'] Cancel healthy_drop [OF h] by simp
  qed
next
  case (Market s q)
  note h' = healthyD [OF h]
  show ?thesis
  proof (cases s)
    case BUY
    obtain b' where r: "process_market_order clk b BUY q = Some b'" "tob_step SELL b b'"
      "outcome clk 0 b (fst (sweep SELL [unat (best b SELL)..<band b] q (depth b)))
        (fst (snd (sweep SELL [unat (best b SELL)..<band b] q (depth b))))
        (sweep_dead SELL [unat (best b SELL)..<band b] q (depth b)) b'"
      using market_buy [OF h'(2,4)] by metis
    show ?thesis using that [of b'] Market BUY r(1) healthy_outcome [OF h r(3,2)] by simp
  next
    case SELL
    obtain b' where r: "process_market_order clk b SELL q = Some b'" "tob_step BUY b b'"
      "outcome clk 0 b (fst (sweep BUY (rev [0..<bid_top b]) q (depth b)))
        (fst (snd (sweep BUY (rev [0..<bid_top b]) q (depth b))))
        (sweep_dead BUY (rev [0..<bid_top b]) q (depth b)) b'"
      using market_sell [OF h'(2,4)] by metis
    show ?thesis using that [of b'] Market SELL r(1) healthy_outcome [OF h r(3,2)] by simp
  qed
next
  case (Execute k q)
  note h' = healthyD [OF h]
  show ?thesis
  proof (cases "content (ids b) k")
    case None
    then show ?thesis using that [of b] Execute h execute_unknown [OF h'(3)] by simp
  next
    case (Some x)
    obtain b' where "execute_order clk b k q = Some (b', open_qty b k \<le> q)"
      "edited b (if open_qty b k \<le> q then drop_id k (depth b) else less_qty k q (depth b)) b'"
      using execute_known [OF h'(2,3,4) Some] by metis
    then show ?thesis
      using that [of b'] Execute healthy_drop [OF h] healthy_less [OF h] by (simp split: if_splits)
  qed
next
  case (Reduce k q)
  note h' = healthyD [OF h]
  show ?thesis
  proof (cases "content (ids b) k")
    case None
    then show ?thesis using that [of b] Reduce h reduce_unknown [OF h'(3)] by simp
  next
    case (Some x)
    obtain b' where "reduce_order_qty b k q = Some (b', open_qty b k \<le> q)"
      "edited b (if open_qty b k \<le> q then drop_id k (depth b) else less_qty k q (depth b)) b'"
      using reduce_known [OF h'(2,3,4) Some] by metis
    then show ?thesis
      using that [of b'] Reduce healthy_drop [OF h] healthy_less [OF h] by (simp split: if_splits)
  qed
qed

lemma healthy_new:
  assumes "0 < n" "n \<le> 4294967295" "0 < m" "m \<le> 1073741824" "collision_free m K"
  obtains b where "book_new n m = Some b" "healthy n m K b"
    "\<forall>s i. depth b s i = []" "\<forall>s. tob_exact b s \<and> tob_fresh b s" "fills b = []"
proof -
  obtain b where b: "book_new n m = Some b" "book_inv b" "index_ok b" "band b = n" "pool_size (pool b) = m"
    "\<forall>s i. depth b s i = []" "\<forall>s. tob_exact b s \<and> tob_fresh b s" "fills b = []" "ids b = book_table m"
    using book_new_ok [OF assms(1-4)] by metis
  have "calm_on (ids b) K"
    using book_table_ok(2,4) [OF assms(3,4)] assms(5) b(9) by (simp add: calm_on_def collision_free_def)
  then show ?thesis using that [of b] b by (simp add: healthy_def)
qed

lemma session_healthy:
  assumes "0 < n" "n \<le> 4294967295" "0 < m" "m \<le> 1073741824" "collision_free m K"
    and "session clk n m K A b"
  shows "healthy n m K b"
  using assms(6)
proof (induction rule: session.induct)
  case (fresh b)
  then show ?case using healthy_new [OF assms(1-5)] by (metis option.inject)
next
  case (call b op b')
  then show ?case using healthy_do [OF call.IH call.hyps(2), of clk] by (metis option.inject)
qed


section \<open>Books that are not crossed\<close>

definition uncrossed :: "order_book \<Rightarrow> bool" where
  "uncrossed b \<longleftrightarrow> (\<forall>i j. depth b BUY i \<noteq> [] \<and> depth b SELL j \<noteq> [] \<longrightarrow> i < j)"

definition orderly :: "order_book \<Rightarrow> bool" where
  "orderly b \<longleftrightarrow> (\<forall>s. tob_exact b s) \<and> uncrossed b"

text \<open>An insertion whose price is outside the window of a book with few orders moves the window.\<close>

fun moves_window :: "order_book \<Rightarrow> book_op \<Rightarrow> bool" where
  "moves_window b (Insert k s p q) \<longleftrightarrow>
     \<not> in_band (anchored b p) (to_idx (anchored b p) p) \<and> live_order_count b \<le> 64"
| "moves_window b _ \<longleftrightarrow> False"

lemma orderly_shrink:
  assumes "orderly b" and "\<And>s. tob_exact b s \<Longrightarrow> tob_exact b' s"
    and "\<And>s i. depth b' s i \<noteq> [] \<Longrightarrow> depth b s i \<noteq> []"
  shows "orderly b'"
  using assms unfolding orderly_def uncrossed_def by blast

lemma orderly_edited:
  assumes "orderly b" and e: "edited b V b'" and "\<And>s i. V s i \<noteq> [] \<Longrightarrow> depth b s i \<noteq> []"
  shows "orderly b'"
  using assms(1) by (rule orderly_shrink) (use editedD [OF e] assms(3) in \<open>auto simp: tob_all_def\<close>)

lemma orderly_drop: "orderly b \<Longrightarrow> edited b (drop_id k (depth b)) b' \<Longrightarrow> orderly b'"
  by (erule orderly_edited, assumption) (rule drop_id_nonempty)

lemma orderly_less: "orderly b \<Longrightarrow> edited b (less_qty k q (depth b)) b' \<Longrightarrow> orderly b'"
  by (erule orderly_edited, assumption) (rule less_qty_nonempty)

lemma orderly_outcome:
  assumes "orderly b" and lv: "\<And>s. tob_live b s"
    and o: "outcome clk t b (fst (sweep s is q (depth b))) (fst (snd (sweep s is q (depth b)))) ks b'"
    and st: "tob_step s' b b'"
  shows "orderly b'"
  using assms(1)
proof (rule orderly_shrink)
  show "tob_exact b s \<Longrightarrow> tob_exact b' s" for s using tob_step_all [OF st lv] by (simp add: tob_all_def)
  show "depth b' s'' i \<noteq> [] \<Longrightarrow> depth b s'' i \<noteq> []" for s'' i
    using outcomeD(2) [OF o] sweep_nonempty [of s "is" q "depth b" s'' i] by simp
qed

text \<open>What an order that rests leaves on the other side lies beyond its own price.\<close>

lemma left_beyond:
  assumes ok: "book_ok b" and ex: "tob_exact b (opp s)" and i: "i < band b"
    and r: "snd (snd (sweep (opp s) (ladder b s i) q (depth b))) \<noteq> 0"
    and ne: "fst (snd (sweep (opp s) (ladder b s i) q (depth b))) (opp s) j \<noteq> []"
  shows "better (opp s) i j"
proof -
  have d: "depth b (opp s) j \<noteq> []" by (rule sweep_nonempty [OF ne])
  have nl: "j \<notin> set (ladder b s i)" using sweep_rest [OF r] ne by blast
  have nb: "best b (opp s) \<noteq> NULL_IDX" "\<not> better (opp s) j (unat (best b (opp s)))"
    using ex d by (auto simp: tob_exact_def)
  show ?thesis
    using nl nb by (cases s) (auto simp: ladder_def opp_def better_def bid_top_def)
qed

lemma orderly_insert:
  assumes h: "healthy n m K b" and od: "orderly b" and k: "k \<in> K" "\<not> resting b k"
    and nm: "\<not> moves_window b (Insert k s p q)" and run: "insert_limit_order clk b k s p q = Some (b', rests)"
  shows "orderly b'"
proof -
  note h' = healthyD [OF h]
  obtain b2 where w: "windowed b p b2"
    and c: "in_band b2 (to_idx b2 p) \<Longrightarrow>
       placed clk b2 k s (unat p - unat (base b2)) q b' rests \<and> carried b2 k b'"
    "\<not> in_band b2 (to_idx b2 p) \<Longrightarrow> b' = b2"
    using insert_limit_order_correct [OF h'(1) healthy_room(1) [OF h k], of clk k s p q] run
    by (metis option.inject prod.inject)
  have b2: "b2 = anchored b p" using w nm by (auto simp: windowed_def)
  have od2: "orderly b2" using od by (simp add: b2 orderly_def uncrossed_def)
  show ?thesis
  proof (cases "in_band b2 (to_idx b2 p)")
    case False
    then show ?thesis using c(2) od2 by simp
  next
    case True
    define i where "i = unat p - unat (base b2)"
    have ii: "i < band b2" using True by (auto simp: in_band_def to_idx_def i_def simp del: of_nat_unat)
    let ?W = "sweep (opp s) (ladder b2 s i) q (depth b2)"
    have pl: "depth b' = (if rests then qput (fst (snd ?W)) s i (fst (snd ?W) s i @ [(k, snd (snd ?W))])
        else fst (snd ?W))" "rests \<Longrightarrow> snd (snd ?W) \<noteq> 0"
      and ca: "carried b2 k b'"
      using c(1) [OF True] by (auto simp: placed_def i_def split: prod.splits)
    have ex: "tob_exact b' s" for s using ca od2 by (simp add: carried_def orderly_def)
    have ok2: "book_ok b2" using anchored_ok [OF h'(2,8)] b2 by simp
    have old: "uncrossed b2" "\<And>s j. fst (snd ?W) s j \<noteq> [] \<Longrightarrow> depth b2 s j \<noteq> []"
      using od2 sweep_nonempty by (auto simp: orderly_def)
    have far: "better (opp s) i j" if "rests" "fst (snd ?W) (opp s) j \<noteq> []" for j
      using left_beyond [OF ok2 _ ii pl(2) [OF that(1)] that(2)] od2 by (simp add: orderly_def)
    have "uncrossed b'"
      unfolding uncrossed_def
    proof (intro allI impI)
      fix x y
      assume xy: "depth b' BUY x \<noteq> [] \<and> depth b' SELL y \<noteq> []"
      show "x < y"
      proof (cases "fst (snd ?W) BUY x \<noteq> [] \<and> fst (snd ?W) SELL y \<noteq> []")
        case True
        then show ?thesis using old by (auto simp: uncrossed_def)
      next
        case False
        then have "rests" "(s = BUY \<and> x = i \<and> fst (snd ?W) SELL y \<noteq> []) \<or>
            (s = SELL \<and> y = i \<and> fst (snd ?W) BUY x \<noteq> [])"
          using xy pl(1) by (auto split: if_splits)
        then show ?thesis using far by (auto simp: opp_def better_def)
      qed
    qed
    then show ?thesis using ex by (simp add: orderly_def)
  qed
qed


lemma orderly_do:
  assumes h: "healthy n m K b" and od: "orderly b" and ok: "op_ok K b op" and nm: "\<not> moves_window b op"
    and run: "book_do clk b op = Some b'"
  shows "orderly b'"
proof (cases op)
  case (Insert k s p q)
  then obtain rests where "insert_limit_order clk b k s p q = Some (b', rests)" using run by auto
  then show ?thesis using Insert orderly_insert [OF h od _ _ nm [unfolded Insert]] ok by auto
next
  case (Cancel k)
  note h' = healthyD [OF h]
  show ?thesis
  proof (cases "content (ids b) k")
    case None
    then show ?thesis using Cancel run od cancel_unknown [OF h'(3)] by simp
  next
    case (Some x)
    obtain b'' where "cancel_order b k = Some b''" "edited b (drop_id k (depth b)) b''"
      using cancel_known [OF h'(2,3,4) Some] by metis
    then show ?thesis using Cancel run orderly_drop [OF od] by simp
  qed
next
  case (Market s q)
  note h' = healthyD [OF h]
  show ?thesis
  proof (cases s)
    case BUY
    obtain b'' where r: "process_market_order clk b BUY q = Some b''" "tob_step SELL b b''"
      "outcome clk 0 b (fst (sweep SELL [unat (best b SELL)..<band b] q (depth b)))
        (fst (snd (sweep SELL [unat (best b SELL)..<band b] q (depth b))))
        (sweep_dead SELL [unat (best b SELL)..<band b] q (depth b)) b''"
      using market_buy [OF h'(2,4)] by metis
    show ?thesis using Market BUY run r(1) orderly_outcome [OF od h'(4) r(3,2)] by simp
  next
    case SELL
    obtain b'' where r: "process_market_order clk b SELL q = Some b''" "tob_step BUY b b''"
      "outcome clk 0 b (fst (sweep BUY (rev [0..<bid_top b]) q (depth b)))
        (fst (snd (sweep BUY (rev [0..<bid_top b]) q (depth b))))
        (sweep_dead BUY (rev [0..<bid_top b]) q (depth b)) b''"
      using market_sell [OF h'(2,4)] by metis
    show ?thesis using Market SELL run r(1) orderly_outcome [OF od h'(4) r(3,2)] by simp
  qed
next
  case (Execute k q)
  note h' = healthyD [OF h]
  show ?thesis
  proof (cases "content (ids b) k")
    case None
    then show ?thesis using Execute run od execute_unknown [OF h'(3)] by simp
  next
    case (Some x)
    obtain b'' where "execute_order clk b k q = Some (b'', open_qty b k \<le> q)"
      "edited b (if open_qty b k \<le> q then drop_id k (depth b) else less_qty k q (depth b)) b''"
      using execute_known [OF h'(2,3,4) Some] by metis
    then show ?thesis
      using Execute run orderly_drop [OF od] orderly_less [OF od] by (simp split: if_splits)
  qed
next
  case (Reduce k q)
  note h' = healthyD [OF h]
  show ?thesis
  proof (cases "content (ids b) k")
    case None
    then show ?thesis using Reduce run od reduce_unknown [OF h'(3)] by simp
  next
    case (Some x)
    obtain b'' where "reduce_order_qty b k q = Some (b'', open_qty b k \<le> q)"
      "edited b (if open_qty b k \<le> q then drop_id k (depth b) else less_qty k q (depth b)) b''"
      using reduce_known [OF h'(2,3,4) Some] by metis
    then show ?thesis
      using Reduce run orderly_drop [OF od] orderly_less [OF od] by (simp split: if_splits)
  qed
qed

lemma session_orderly:
  assumes bd: "0 < n" "n \<le> 4294967295" "0 < m" "m \<le> 1073741824" "collision_free m K"
    and A: "\<And>b op. A b op \<Longrightarrow> \<not> moves_window b op" and s: "session clk n m K A b"
  shows "orderly b"
  using s
proof (induction rule: session.induct)
  case (fresh b)
  obtain b0 where "book_new n m = Some b0" "\<forall>s i. depth b0 s i = []" "\<forall>s. tob_exact b0 s \<and> tob_fresh b0 s"
    using healthy_new [OF bd] by metis
  then show ?case using fresh by (simp add: orderly_def uncrossed_def)
next
  case (call b op b')
  then show ?case using orderly_do [OF session_healthy [OF bd call.hyps(1)] call.IH] A by blast
qed

section \<open>Free and occupied slots\<close>

text \<open>The number of resting orders; with the free slots they make up the pool.\<close>

definition open_orders :: "order_book \<Rightarrow> nat" where
  "open_orders b = (\<Sum>s \<in> {BUY, SELL}. \<Sum>i < band b. length (depth b s i))"

lemma slots_partition:
  assumes ok: "book_ok b"
  shows "length (free_list (pool b)) + open_orders b = pool_size (pool b)"
proof -
  let ?q = "queue_of b" and ?S = "{BUY, SELL} \<times> {..<band b}"
  note ln = book_okD(2) [OF ok]
  have fr: "distinct (free_list (pool b))" using linksD(2) [OF ln] by (simp add: free_rep_def)
  have dq: "distinct (?q s i)" if "i < band b" for s i
    using linksD(4) [OF ln that, of s] by (simp add: level_rep_def)
  have len: "length (depth b s i) = length (?q s i)" for s i by (simp add: depth_def view_alt)
  have "card (\<Union>p \<in> ?S. set (?q (fst p) (snd p))) = (\<Sum>p \<in> ?S. card (set (?q (fst p) (snd p))))"
  proof (rule card_UN_disjoint)
    show "\<forall>p \<in> ?S. \<forall>p' \<in> ?S. p \<noteq> p' \<longrightarrow> set (?q (fst p) (snd p)) \<inter> set (?q (fst p') (snd p')) = {}"
      using links_unique_queue [OF ln] by (metis disjoint_iff prod_eqI)
  qed auto
  also have "\<dots> = (\<Sum>p \<in> ?S. length (?q (fst p) (snd p)))"
    using dq by (intro sum.cong) (auto simp: distinct_card)
  also have "\<dots> = open_orders b"
    by (simp add: open_orders_def len sum.cartesian_product' split_beta flip: sum.cartesian_product)
  finally have q: "card (\<Union>p \<in> ?S. set (?q (fst p) (snd p))) = open_orders b" .
  have all: "{x :: u32. unat x < pool_size (pool b)} = set (free_list (pool b)) \<union> (\<Union>p \<in> ?S. set (?q (fst p) (snd p)))"
  proof -
    have "(\<exists>s i. x \<in> set (?q s i)) \<longleftrightarrow> (\<exists>p \<in> ?S. x \<in> set (?q (fst p) (snd p)))" for x
    proof
      assume "\<exists>s i. x \<in> set (?q s i)"
      then obtain s i where si: "x \<in> set (?q s i)" by blast
      then have "(s, i) \<in> ?S" using links_member(1) [OF ln si] by (cases s) auto
      then show "\<exists>p \<in> ?S. x \<in> set (?q (fst p) (snd p))" using si by (intro bexI [of _ "(s, i)"]) simp_all
    qed auto
    moreover have "unat x < pool_size (pool b) \<longleftrightarrow> x \<in> set (free_list (pool b)) \<or> (\<exists>s i. x \<in> set (?q s i))" for x
      using ln by (simp add: links_def)
    ultimately show ?thesis by auto
  qed
  have "set (free_list (pool b)) \<inter> (\<Union>p \<in> ?S. set (?q (fst p) (snd p))) = {}"
    using links_member(6) [OF ln] by auto
  then have "card {x :: u32. unat x < pool_size (pool b)} = length (free_list (pool b)) + open_orders b"
    unfolding all by (subst card_Un_disjoint) (auto simp: q distinct_card [OF fr])
  moreover have "card {x :: u32. unat x < n} = n" if "n \<le> 4294967295" for n
  proof -
    have "unat ` {x :: u32. unat x < n} = {..<n}"
    proof (intro equalityI subsetI)
      fix y assume "y \<in> {..<n}"
      then have "unat (of_nat y :: u32) = y" using that by (intro unat_of_nat_u32) simp
      then show "y \<in> unat ` {x :: u32. unat x < n}" using \<open>y \<in> {..<n}\<close> by (metis (mono_tags) imageI lessThan_iff mem_Collect_eq)
    qed auto
    then show ?thesis using card_image [OF inj_unat, of "{x :: u32. unat x < n}"] by simp
  qed
  ultimately show ?thesis using linksD(3) [OF ln] by simp
qed

section \<open>Running a list of calls\<close>

fun book_run :: "(nat \<Rightarrow> u64) \<Rightarrow> order_book \<Rightarrow> book_op list \<Rightarrow> order_book option" where
  "book_run clk b [] = Some b"
| "book_run clk b (op # ops) = do { b \<leftarrow> book_do clk b op; book_run clk b ops }"

lemma book_run_append: "book_run clk b (xs @ ys) = Option.bind (book_run clk b xs) (\<lambda>b. book_run clk b ys)"
  by (induction xs arbitrary: b) (auto intro: Option.bind_cong split: Option.bind_split)

text \<open>
  The rule \<open>op_ok\<close> in executable form: an inserted id is not in the table.  Nothing is asked of a
  call that does not return: that every call returns is proved.
\<close>

fun ops_ok :: "order_id list \<Rightarrow> (order_book \<Rightarrow> book_op \<Rightarrow> bool) \<Rightarrow> (nat \<Rightarrow> u64) \<Rightarrow> order_book \<Rightarrow> book_op list \<Rightarrow> bool" where
  "ops_ok ks A clk b [] \<longleftrightarrow> True"
| "ops_ok ks A clk b (op # ops) \<longleftrightarrow>
     (case op of Insert k s p q \<Rightarrow> k \<in> set ks \<and> id_find (ids b) k = Some NULL_IDX | _ \<Rightarrow> True) \<and> A b op \<and>
     (case book_do clk b op of None \<Rightarrow> True | Some b' \<Rightarrow> ops_ok ks A clk b' ops)"

lemma not_resting: "index_ok b \<Longrightarrow> id_find (ids b) k = Some NULL_IDX \<Longrightarrow> \<not> resting b k"
  using table.look_law [OF index_okD(1), of b k] resting_content [of b k] content_not_NULL [of "ids b" k]
  by (auto split: option.splits)

lemma session_run:
  "healthy n m (set ks) b \<Longrightarrow> ops_ok ks A clk b ops \<Longrightarrow> session clk n m (set ks) A b \<Longrightarrow>
    \<exists>b'. book_run clk b ops = Some b' \<and> healthy n m (set ks) b' \<and> session clk n m (set ks) A b'"
proof (induction ops arbitrary: b)
  case (Cons op ops)
  have ok: "op_ok (set ks) b op"
    using Cons.prems(2) not_resting [OF healthyD(3) [OF Cons.prems(1)]] by (cases op) auto
  obtain b' where b': "book_do clk b op = Some b'" "healthy n m (set ks) b'"
    using healthy_do [OF Cons.prems(1) ok] by blast
  have "session clk n m (set ks) A b'"
    by (rule session.call [OF Cons.prems(3) ok _ b'(1)]) (use Cons.prems(2) in simp)
  then show ?case using Cons.IH [OF b'(2)] Cons.prems(2) b'(1) by simp
qed simp

lemma session_mono:
  assumes "session clk n m K A b" and "\<And>b op. A b op \<Longrightarrow> A' b op"
  shows "session clk n m K A' b"
  using assms(1) by (induction rule: session.induct) (auto intro: session.intros assms(2))

section \<open>A book with a few orders\<close>

definition demo_clk :: "nat \<Rightarrow> u64" where
  "demo_clk n = of_nat n"

definition demo_ids :: "order_id list" where
  "demo_ids = [1, 2, 3, 4, 5]"

definition demo_start :: order_book where
  "demo_start = the (book_new 8 4)"

definition demo_book :: order_book where
  "demo_book = the (book_run demo_clk demo_start
     [Insert 1 BUY 100 5, Insert 2 SELL 102 7, Insert 3 SELL 103 4])"

lemma demo_free: "collision_free 4 (set demo_ids)"
proof -
  let ?t = "book_table 4"
  have sh: "shape_ok ?t" using book_table_ok(1) [of 4] by (simp add: idmap_ok_def)
  have n: "tsize ?t = 8" by code_simp
  have w: "map (\<lambda>k. hash k AND mmask ?t) demo_ids = [6, 5, 4, 3, 2]" by code_simp
  have "distinct (map (home ?t) demo_ids)"
  proof -
    have "map (home ?t) demo_ids = map unat (map (\<lambda>k. hash k AND mmask ?t) demo_ids)"
      by (simp add: home_word [OF sh])
    then show ?thesis unfolding w by (simp add: distinct_map)
  qed
  then have "inj_on (home ?t) (set demo_ids)" by (simp add: distinct_map)
  moreover have "card (set demo_ids) \<le> 5" by (rule order_trans [OF card_length]) (simp add: demo_ids_def)
  ultimately show ?thesis by (simp add: collision_free_def n)
qed

lemma demo_start_ok: "book_new 8 4 = Some demo_start" "healthy 8 4 (set demo_ids) demo_start"
  "\<forall>s. tob_exact demo_start s \<and> tob_fresh demo_start s"
proof -
  have "(0 :: nat) < 8" "(8 :: nat) \<le> 4294967295" "(0 :: nat) < 4" "(4 :: nat) \<le> 1073741824" by simp_all
  note new = healthy_new [OF this demo_free]
  obtain b where "book_new 8 4 = Some b" "healthy 8 4 (set demo_ids) b" "\<forall>s. tob_exact b s \<and> tob_fresh b s"
    by (rule new) blast
  then show "book_new 8 4 = Some demo_start" "healthy 8 4 (set demo_ids) demo_start"
    "\<forall>s. tob_exact demo_start s \<and> tob_fresh demo_start s"
    by (simp_all add: demo_start_def)
qed

definition steady_window :: "order_book \<Rightarrow> book_op \<Rightarrow> bool" where
  "steady_window b op \<longleftrightarrow> \<not> moves_window b op"

lemma demo_book_ok:
  shows "book_run demo_clk demo_start [Insert 1 BUY 100 5, Insert 2 SELL 102 7, Insert 3 SELL 103 4] =
      Some demo_book"
    and "healthy 8 4 (set demo_ids) demo_book"
    and "session demo_clk 8 4 (set demo_ids) steady_window demo_book"
proof -
  let ?ops = "[Insert 1 BUY 100 5, Insert 2 SELL 102 7, Insert 3 SELL 103 4]"
  have "ops_ok demo_ids steady_window demo_clk demo_start ?ops" by code_simp
  from session_run [OF demo_start_ok(2) this session.fresh [OF demo_start_ok(1)]]
  show "book_run demo_clk demo_start ?ops = Some demo_book" "healthy 8 4 (set demo_ids) demo_book"
    "session demo_clk 8 4 (set demo_ids) steady_window demo_book"
    by (auto simp: demo_book_def)
qed

lemma demo_orderly: "orderly demo_book"
  by (rule session_orderly [OF _ _ _ _ demo_free _ demo_book_ok(3)]) (simp_all add: steady_window_def)

end
