(* ===== verification/Book_Theorems.thy ===== *)
theory Book_Theorems
  imports Book_Session
begin

text \<open>
  The properties of matching, of the price window and of the public operations, each with an
  instance on the demo book of \<open>Book_Session\<close>.  The first section turns facts about sweeps
  into facts about the trades they log.
\<close>

section \<open>The trades of a sweep\<close>

lemma stamp_tqty: "sum_list (map (\<lambda>t. unat (tqty t)) (stamp clk t bs n fs)) = filled fs"
  by (induction fs arbitrary: n) (auto simp: filled_def)

lemma stamp_set: "x \<in> set (stamp clk t bs n fs) \<Longrightarrow>
    \<exists>i k v. (i, k, v) \<in> set fs \<and> maker_id x = k \<and> taker_id x = t \<and> tprice x = bs + of_nat i \<and> tqty x = v"
  by (induction fs arbitrary: n) fastforce+

lemma stamp_at:
  assumes "\<And>i k v. (i, k, v) \<in> set fs \<Longrightarrow> unat bs + i < 4294967296" and "unat bs + j < 4294967296"
  shows "map (\<lambda>x. (maker_id x, tqty x)) (filter (\<lambda>x. tprice x = bs + of_nat j) (stamp clk t bs n fs)) =
    map snd (filter (\<lambda>f. fst f = j) fs)"
  using assms(1)
proof (induction fs arbitrary: n)
  case (Cons f fs)
  obtain i k v where f: "f = (i, k, v)" by (metis surj_pair)
  have ub: "unat bs + i < 4294967296" by (rule Cons.prems [of i k v]) (simp add: f)
  have "bs + of_nat i = bs + (of_nat j :: u32) \<longleftrightarrow> i = j"
  proof
    assume "bs + of_nat i = bs + (of_nat j :: u32)"
    then have "(of_nat i :: u32) = of_nat j" by simp
    then have "unat (of_nat i :: u32) = unat (of_nat j :: u32)" by (rule arg_cong)
    then show "i = j" using ub assms(2) by (simp only: unat_of_nat_u32)
  qed simp
  moreover have "map (\<lambda>x. (maker_id x, tqty x)) (filter (\<lambda>x. tprice x = bs + of_nat j)
      (stamp clk t bs (Suc n) fs)) = map snd (filter (\<lambda>f. fst f = j) fs)"
    by (rule Cons.IH) (use Cons.prems in \<open>meson list.set_intros(2)\<close>)
  ultimately show ?case by (simp add: f)
qed simp

lemma filled_at_filter: "filled_at j fs = sum_list (map (\<lambda>kv. unat (snd kv)) (map snd (filter (\<lambda>f. fst f = j) fs)))"
  by (induction fs) (auto simp: filled_at_def)

lemma sweep_fill_from: "(i, k, v) \<in> set (fst (sweep s is r V)) \<Longrightarrow> i \<in> set is \<and> V s i \<noteq> []"
proof (induction "is" arbitrary: r V)
  case (Cons j "is")
  show ?case
  proof (rule sweep_Cons_cases [of r V s j "is"])
    fix fs rest r1 W
    assume f: "fifo r (V s j) = (fs, rest, r1)"
      and sw: "sweep s (j # is) r V = (map (Pair j) fs @ fst (sweep s is r1 W), snd (sweep s is r1 W))"
      and W: "\<And>s' i. W s' i = (if s' = s \<and> i = j then rest else V s' i)"
    show ?thesis
    proof (cases "(i, k, v) \<in> set (map (Pair j) fs)")
      case True
      then have "i = j" "fs \<noteq> []" by auto
      moreover have "V s j \<noteq> []" using f \<open>fs \<noteq> []\<close> by (cases "V s j") auto
      ultimately show ?thesis by simp
    next
      case False
      then have "i \<in> set is \<and> W s i \<noteq> []" using Cons.IH [of r1 W] Cons.prems sw by auto
      moreover have "rest \<noteq> [] \<Longrightarrow> V s j \<noteq> []" using f by (cases "V s j") auto
      ultimately show ?thesis unfolding W by (auto split: if_splits)
    qed
  qed
qed simp

text \<open>The levels of the fills follow the order in which the levels are visited.\<close>

lemma sweep_fills_sorted:
  "sorted_wrt R is \<Longrightarrow> reflp R \<Longrightarrow> sorted_wrt (\<lambda>f g. R (fst f) (fst g)) (fst (sweep s is r V))"
proof (induction "is" arbitrary: r V)
  case (Cons j "is")
  show ?case
  proof (rule sweep_Cons_cases [of r V s j "is"])
    fix fs rest r1 W
    assume sw: "sweep s (j # is) r V = (map (Pair j) fs @ fst (sweep s is r1 W), snd (sweep s is r1 W))"
    have "R j (fst f)" if "f \<in> set (fst (sweep s is r1 W))" for f
      using that sweep_fill_from [of "fst f" "fst (snd f)" "snd (snd f)" s "is" r1 W] Cons.prems by auto
    moreover have "sorted_wrt (\<lambda>f g. R (fst f) (fst g)) (map (Pair j) fs)"
      using Cons.prems(2) by (induction fs) (auto simp: reflp_def)
    ultimately show ?thesis
      using Cons.IH [of r1 W] Cons.prems unfolding sw by (auto simp: sorted_wrt_append)
  qed
qed simp

text \<open>Per level, the makers filled are a prefix of its queue.\<close>

lemma fifo_makers_prefix: "map fst (fst (fifo r os)) = map fst (take (length (fst (fifo r os))) os)"
  using fifo_prefix [of r os] by metis

lemma sweep_makers_prefix:
  assumes "distinct is"
  shows "\<exists>n. map (fst \<circ> snd) (filter (\<lambda>f. fst f = i) (fst (sweep s is r V))) = take n (map fst (V s i))"
  using assms
proof (induction "is" arbitrary: r V)
  case Nil
  show ?case by (intro exI [of _ 0]) simp
next
  case (Cons j "is")
  show ?case
  proof (rule sweep_Cons_cases [of r V s j "is"])
    fix fs rest r1 W
    assume f: "fifo r (V s j) = (fs, rest, r1)"
      and sw: "sweep s (j # is) r V = (map (Pair j) fs @ fst (sweep s is r1 W), snd (sweep s is r1 W))"
      and W: "\<And>s' i. W s' i = (if s' = s \<and> i = j then rest else V s' i)"
    show ?thesis
    proof (cases "i = j")
      case True
      then have "filter (\<lambda>f. fst f = i) (fst (sweep s is r1 W)) = []"
        using sweep_fill_from [of _ _ _ s "is" r1 W] Cons.prems by (auto simp: filter_empty_conv)
      moreover have "filter (\<lambda>f. fst f = i) (map (Pair j) fs) = map (Pair j) fs"
        using True by (simp add: filter_map comp_def)
      moreover have "map fst fs = take (length fs) (map fst (V s j))"
        using fifo_makers_prefix [of r "V s j"] f by (simp add: take_map)
      ultimately show ?thesis using True unfolding sw by (auto simp: comp_def)
    next
      case False
      then have "filter (\<lambda>f. fst f = i) (map (Pair j) fs) = []" by simp
      moreover have "W s i = V s i" using False W by simp
      ultimately show ?thesis using Cons.IH [of r1 W] Cons.prems unfolding sw by simp
    qed
  qed
qed


text \<open>The demo book: one bid of 5 at level 4, asks of 7 and 4 at levels 6 and 7, base 96.\<close>

lemma demo_values:
  "base demo_book = 96" "best demo_book BUY = 4" "best demo_book SELL = 6"
  "depth demo_book BUY 4 = [(1, 5)]" "depth demo_book SELL 6 = [(2, 7)]" "depth demo_book SELL 7 = [(3, 4)]"
  "fills demo_book = []" "live_order_count demo_book = 3" "base_set demo_book"
  "id_find (ids demo_book) 4 = Some NULL_IDX"
  by code_simp+

lemma demo_facts:
  "book_ok demo_book" "book_inv demo_book" "index_ok demo_book" "tob_live demo_book s" "band demo_book = 8"
  "resting demo_book 1" "\<not> resting demo_book 4"
proof -
  note h = healthyD [OF demo_book_ok(2)]
  show "book_ok demo_book" "book_inv demo_book" "index_ok demo_book" "tob_live demo_book s" "band demo_book = 8"
    using h by simp_all
  have "1 \<in> fst ` set (depth demo_book BUY 4)" by (simp add: demo_values)
  then show "resting demo_book 1" unfolding resting_def by blast
  show "\<not> resting demo_book 4" by (rule not_resting [OF h(3) demo_values(10)])
qed

section \<open>Matching\<close>

text \<open>
  C1: \<open>match_against_asks\<close> on a sound book always returns, and does what price-time priority
  says: it visits the ask levels from the best one up to the limit, fills each queue oldest
  first, logs one trade per fill at the level's absolute price, and returns what is left of the
  taker.  The book stays sound and its best ask a live level.
\<close>

theorem buy_matching_is_sweep:
  assumes "book_ok b" and "tob_live b SELL" and "unat limit < band b"
  shows "\<exists>b' fs V r. sweep SELL [unat (best b SELL)..<Suc (unat limit)] q (depth b) = (fs, V, r) \<and>
    match_against_asks clk t limit q b = Some (b', r) \<and> book_ok b' \<and> tob_live b' SELL \<and>
    depth b' = V \<and> fills b' = fills b @ stamp clk t (base b) (length (fills b)) fs"
proof -
  obtain b' where "match_against_asks clk t limit q b =
      Some (b', snd (snd (sweep SELL [unat (best b SELL)..<Suc (unat limit)] q (depth b))))"
    and o: "outcome clk t b (fst (sweep SELL [unat (best b SELL)..<Suc (unat limit)] q (depth b)))
      (fst (snd (sweep SELL [unat (best b SELL)..<Suc (unat limit)] q (depth b))))
      (sweep_dead SELL [unat (best b SELL)..<Suc (unat limit)] q (depth b)) b'"
    and "tob_step SELL b b'"
    using match_against_asks_correct [OF assms] by blast
  then show ?thesis using outcomeD [OF o] by (cases "sweep SELL [unat (best b SELL)..<Suc (unat limit)] q (depth b)")
    (auto simp: tob_step_def)
qed

theorem buy_matching_is_sweep_witness:
  "\<exists>b' fs V r. sweep SELL [unat (best demo_book SELL)..<Suc (unat (7 :: price))] 10 (depth demo_book) = (fs, V, r) \<and>
    match_against_asks demo_clk 9 7 10 demo_book = Some (b', r) \<and> book_ok b' \<and> tob_live b' SELL \<and>
    depth b' = V \<and> fills b' = fills demo_book @ stamp demo_clk 9 (base demo_book) (length (fills demo_book)) fs"
  by (rule buy_matching_is_sweep) (simp_all add: demo_facts)

text \<open>
  C2: \<open>match_against_bids\<close> likewise visits the bid levels from the best one down to the limit.
\<close>

theorem sell_matching_is_sweep:
  assumes "book_ok b" and "tob_live b BUY"
  shows "\<exists>b' fs V r. sweep BUY (rev [unat limit..<bid_top b]) q (depth b) = (fs, V, r) \<and>
    match_against_bids clk t limit q b = Some (b', r) \<and> book_ok b' \<and> tob_live b' BUY \<and>
    depth b' = V \<and> fills b' = fills b @ stamp clk t (base b) (length (fills b)) fs"
proof -
  obtain b' where "match_against_bids clk t limit q b =
      Some (b', snd (snd (sweep BUY (rev [unat limit..<bid_top b]) q (depth b))))"
    and o: "outcome clk t b (fst (sweep BUY (rev [unat limit..<bid_top b]) q (depth b)))
      (fst (snd (sweep BUY (rev [unat limit..<bid_top b]) q (depth b))))
      (sweep_dead BUY (rev [unat limit..<bid_top b]) q (depth b)) b'"
    and "tob_step BUY b b'"
    using match_against_bids_correct [OF assms] by blast
  then show ?thesis using outcomeD [OF o] by (cases "sweep BUY (rev [unat limit..<bid_top b]) q (depth b)")
    (auto simp: tob_step_def)
qed

theorem sell_matching_is_sweep_witness:
  "\<exists>b' fs V r. sweep BUY (rev [unat (3 :: price)..<bid_top demo_book]) 2 (depth demo_book) = (fs, V, r) \<and>
    match_against_bids demo_clk 9 3 2 demo_book = Some (b', r) \<and> book_ok b' \<and> tob_live b' BUY \<and>
    depth b' = V \<and> fills b' = fills demo_book @ stamp demo_clk 9 (base demo_book) (length (fills demo_book)) fs"
  by (rule sell_matching_is_sweep) (simp_all add: demo_facts)

text \<open>The trades an operation has added to the log.\<close>

definition new_trades :: "order_book \<Rightarrow> order_book \<Rightarrow> trade list" where
  "new_trades b b' = drop (length (fills b)) (fills b')"

text \<open>What both matching functions have in common, for a taker on side \<open>s\<close>.\<close>

lemma matched:
  assumes "book_ok b" and "\<And>s. tob_live b s" and "unat i < band b"
    and "match_against clk s k i q b = Some (b', r)"
  shows "new_trades b b' = stamp clk k (base b) (length (fills b)) (fst (sweep (opp s) (ladder b s (unat i)) q (depth b)))"
    and "depth b' = fst (snd (sweep (opp s) (ladder b s (unat i)) q (depth b)))"
    and "r = snd (snd (sweep (opp s) (ladder b s (unat i)) q (depth b)))"
proof -
  obtain fs V r' where sw: "sweep (opp s) (ladder b s (unat i)) q (depth b) = (fs, V, r')" by (metis surj_pair)
  obtain b'' where b'': "match_against clk s k i q b = Some (b'', r')"
    and o: "outcome clk k b fs V (sweep_dead (opp s) (ladder b s (unat i)) q (depth b)) b''"
    using match_against_correct [OF assms(1-3) sw, of clk k] by metis
  note O = outcomeD [OF o]
  show "new_trades b b' = stamp clk k (base b) (length (fills b)) (fst (sweep (opp s) (ladder b s (unat i)) q (depth b)))"
    "depth b' = fst (snd (sweep (opp s) (ladder b s (unat i)) q (depth b)))"
    "r = snd (snd (sweep (opp s) (ladder b s (unat i)) q (depth b)))"
    using b'' assms(4) O(2,3) sw by (simp_all add: new_trades_def)
qed

lemma distinct_ladder: "distinct (ladder b s i)"
  by (simp add: ladder_def split: side.split)


lemma trade_from:
  assumes "book_ok b" and "\<And>s. tob_live b s" and "unat i < band b"
    and "match_against clk s k i q b = Some (b', r)" and "x \<in> set (new_trades b b')"
  obtains j v where "j \<in> set (ladder b s (unat i))" "depth b (opp s) j \<noteq> []"
    "tprice x = base b + of_nat j" "unat (base b) + j < 4294967296"
proof -
  note m = matched [OF assms(1-4)]
  obtain j v where j: "(j, maker_id x, v) \<in> set (fst (sweep (opp s) (ladder b s (unat i)) q (depth b)))"
    "tprice x = base b + of_nat j"
    using stamp_set [of x] assms(5) m(1) by metis
  note f = sweep_fill_from [OF j(1)]
  then have "queue_of b (opp s) j \<noteq> []" by (simp add: depth_def)
  then have "unat (base b) + j < 4294967296" using coreD(7) [OF book_okD(1) [OF assms(1)]] by blast
  then show ?thesis using that f j(2) by blast
qed

lemma unat_add_of_nat: "unat (x :: u32) + j < 4294967296 \<Longrightarrow> unat (x + of_nat j) = unat x + j"
proof -
  assume a: "unat x + j < 4294967296"
  have "x + of_nat j = of_nat (unat x + j)" by simp
  then show ?thesis using a by (simp only: unat_of_nat_u32)
qed

text \<open>The new trades at one price, as makers with quantities.\<close>

definition trades_at :: "order_book \<Rightarrow> order_book \<Rightarrow> nat \<Rightarrow> (order_id \<times> quantity) list" where
  "trades_at b b' j = map (\<lambda>x. (maker_id x, tqty x)) (filter (\<lambda>x. tprice x = base b + of_nat j) (new_trades b b'))"

lemma trades_at_matched:
  assumes "book_ok b" and "\<And>s. tob_live b s" and "unat i < band b"
    and "match_against clk s k i q b = Some (b', r)" and j: "unat (base b) + j < 4294967296"
  shows "trades_at b b' j = map snd (filter (\<lambda>f. fst f = j) (fst (sweep (opp s) (ladder b s (unat i)) q (depth b))))"
  unfolding trades_at_def matched(1) [OF assms(1-4)]
proof (rule stamp_at [OF _ j])
  fix l m v
  assume "(l, m, v) \<in> set (fst (sweep (opp s) (ladder b s (unat i)) q (depth b)))"
  then have "queue_of b (opp s) l \<noteq> []"
    using sweep_fill_from by (metis depth_def view_Nil_iff)
  then show "unat (base b) + l < 4294967296" using coreD(7) [OF book_okD(1) [OF assms(1)]] by blast
qed

text \<open>
  C16: matching conserves quantity.  The taker's quantity is the sum of the new trades and of
  what is returned; on every opposite level the open quantity before is what was traded at its
  price plus what is still open; the taker's own side is not touched.
\<close>

theorem matching_conserves_quantity:
  assumes "book_ok b" and "\<forall>s. tob_live b s" and "unat i < band b"
    and "match_against clk s k i q b = Some (b', r)"
  shows "unat q = sum_list (map (\<lambda>t. unat (tqty t)) (new_trades b b')) + unat r \<and>
    (\<forall>j < 4294967296 - unat (base b). open_total (depth b (opp s) j) =
       open_total (trades_at b b' j) + open_total (depth b' (opp s) j)) \<and>
    (\<forall>j. depth b' s j = depth b s j)"
proof -
  let ?W = "sweep (opp s) (ladder b s (unat i)) q (depth b)"
  have lv: "\<And>s. tob_live b s" using assms(2) by simp
  note m = matched [OF assms(1) lv assms(3,4)]
  have "unat q = sum_list (map (\<lambda>t. unat (tqty t)) (new_trades b b')) + unat r"
    unfolding m(1,3) stamp_tqty by (rule sweep_taker)
  moreover have "open_total (depth b (opp s) j) =
       open_total (trades_at b b' j) + open_total (depth b' (opp s) j)" if "j < 4294967296 - unat (base b)" for j
  proof -
    have "unat (base b) + j < 4294967296" using that by linarith
    then have "open_total (trades_at b b' j) = filled_at j (fst ?W)"
      using trades_at_matched [OF assms(1) lv assms(3,4)] by (simp add: filled_at_filter open_total_def)
    then show ?thesis using sweep_makers [OF distinct_ladder] m(2) by metis
  qed
  moreover have "depth b' s j = depth b s j" for j
    unfolding m(2) by (rule sweep_other_side) (cases s; simp add: opp_def)
  ultimately show ?thesis by blast
qed

theorem matching_conserves_quantity_witness:
  "\<exists>b'. match_against demo_clk BUY 9 7 10 demo_book = Some (b', 0) \<and>
    unat (10 :: quantity) = sum_list (map (\<lambda>t. unat (tqty t)) (new_trades demo_book b')) \<and>
    open_total (trades_at demo_book b' 7) + open_total (depth b' SELL 7) = 4 \<and>
    depth b' BUY 4 = [(1, 5)]"
proof -
  have "map_option snd (match_against demo_clk BUY 9 7 10 demo_book) = Some 0" by code_simp
  then obtain b' where b': "match_against demo_clk BUY 9 7 10 demo_book = Some (b', 0)" by auto
  have "\<forall>s. tob_live demo_book s" "unat (7 :: price) < band demo_book" by (simp_all add: demo_facts)
  note c = matching_conserves_quantity [OF demo_facts(1) this b']
  have "open_total (depth demo_book SELL 7) = open_total (trades_at demo_book b' 7) + open_total (depth b' SELL 7)"
    using c by (simp add: opp_def demo_values(1))
  then show ?thesis using c b' demo_values(4,6) by simp
qed

text \<open>\<open>worse s x y\<close>: for a taker on side \<open>s\<close>, level \<open>y\<close> is not better than level \<open>x\<close>.\<close>

definition worse :: "side \<Rightarrow> nat \<Rightarrow> nat \<Rightarrow> bool" where
  "worse s x y \<longleftrightarrow> (case s of BUY \<Rightarrow> x \<le> y | SELL \<Rightarrow> y \<le> x)"

lemma stamp_sorted:
  assumes "sorted_wrt (\<lambda>f g. worse s (fst f) (fst g)) fs"
    and "\<forall>f \<in> set fs. unat bs + fst f < 4294967296"
  shows "sorted_wrt (\<lambda>t u. case s of BUY \<Rightarrow> tprice t \<le> tprice u | SELL \<Rightarrow> tprice u \<le> tprice t)
    (stamp clk k bs n fs)"
  using assms
proof (induction fs arbitrary: n)
  case (Cons f fs)
  have le: "case s of BUY \<Rightarrow> bs + of_nat (fst f) \<le> tprice u | SELL \<Rightarrow> tprice u \<le> bs + of_nat (fst f)"
    if u: "u \<in> set (stamp clk k bs (Suc n) fs)" for u
  proof -
    obtain j c v where j: "(j, c, v) \<in> set fs" "tprice u = bs + of_nat j" using stamp_set [OF u] by blast
    have "\<forall>g \<in> set fs. worse s (fst f) (fst g)" "\<forall>g \<in> set fs. unat bs + fst g < 4294967296"
      using Cons.prems by simp_all
    from bspec [OF this(1) j(1)] bspec [OF this(2) j(1)]
    show ?thesis using j(2) Cons.prems(2)
      by (cases s) (simp_all add: worse_def word_le_nat_alt unat_add_of_nat)
  qed
  then show ?case using Cons by (cases f; cases s) simp_all
qed simp

text \<open>
  C17: price priority.  The trades of one matching run get worse for the taker from first to
  last, never better, and none is worse than the taker's limit.
\<close>

theorem matching_respects_price:
  assumes "book_ok b" and "\<forall>s. tob_live b s" and "unat i < band b"
    and "unat (base b) + unat i < 4294967296" and "match_against clk s k i q b = Some (b', r)"
  shows "sorted_wrt (\<lambda>t u. case s of BUY \<Rightarrow> tprice t \<le> tprice u | SELL \<Rightarrow> tprice u \<le> tprice t) (new_trades b b') \<and>
    (\<forall>t \<in> set (new_trades b b'). case s of BUY \<Rightarrow> tprice t \<le> base b + i | SELL \<Rightarrow> base b + i \<le> tprice t)"
proof -
  let ?fs = "fst (sweep (opp s) (ladder b s (unat i)) q (depth b))"
  let ?R = "worse s"
  have lv: "\<And>s. tob_live b s" using assms(2) by simp
  note m = matched [OF assms(1) lv assms(3,5)]
  have "worse BUY = (\<le>)" "worse SELL = (\<lambda>x y. y \<le> x)" by (simp_all add: worse_def fun_eq_iff)
  then have "sorted_wrt ?R (ladder b s (unat i))"
    by (cases s) (simp_all add: ladder_def sorted_wrt_rev del: upt_Suc)
  moreover have "reflp ?R" by (cases s) (simp_all add: worse_def reflp_def)
  ultimately have so: "sorted_wrt (\<lambda>f g. ?R (fst f) (fst g)) ?fs" by (rule sweep_fills_sorted)
  have fit: "unat (base b) + fst f < 4294967296" if "f \<in> set ?fs" for f
  proof -
    have "queue_of b (opp s) (fst f) \<noteq> []"
      using that sweep_fill_from by (metis depth_def view_Nil_iff prod.collapse)
    then show ?thesis using coreD(7) [OF book_okD(1) [OF assms(1)]] by blast
  qed
  then have "sorted_wrt (\<lambda>t u. case s of BUY \<Rightarrow> tprice t \<le> tprice u | SELL \<Rightarrow> tprice u \<le> tprice t) (new_trades b b')"
    using stamp_sorted [OF so] fit by (simp add: m(1))
  moreover have "case s of BUY \<Rightarrow> tprice t \<le> base b + i | SELL \<Rightarrow> base b + i \<le> tprice t"
    if tr: "t \<in> set (new_trades b b')" for t
  proof -
    obtain j where j: "j \<in> set (ladder b s (unat i))" "tprice t = base b + of_nat j" "unat (base b) + j < 4294967296"
      using trade_from [OF assms(1) lv assms(3,5) tr] by metis
    then show ?thesis using unat_add_of_nat [OF j(3)] unat_add_of_nat [OF assms(4)]
      by (cases s) (auto simp: ladder_def word_le_nat_alt)
  qed
  ultimately show ?thesis by blast
qed

theorem matching_respects_price_witness:
  "\<exists>b'. match_against demo_clk BUY 9 7 10 demo_book = Some (b', 0) \<and>
    sorted_wrt (\<lambda>t u. tprice t \<le> tprice u) (new_trades demo_book b') \<and>
    list_all (\<lambda>t. tprice t \<le> 103) (new_trades demo_book b')"
proof -
  have "map_option snd (match_against demo_clk BUY 9 7 10 demo_book) = Some 0" by code_simp
  then obtain b' where b': "match_against demo_clk BUY 9 7 10 demo_book = Some (b', 0)" by auto
  have "\<forall>s. tob_live demo_book s" "unat (7 :: price) < band demo_book"
    "unat (base demo_book) + unat (7 :: price) < 4294967296"
    by (simp_all add: demo_facts demo_values)
  from matching_respects_price [OF demo_facts(1) this b'] show ?thesis
    using b' by (simp add: demo_values list_all_iff)
qed

text \<open>
  C18: time priority.  At every level the makers that trade are, in this order, the first ones of
  the level's queue.
\<close>

theorem matching_is_first_in_first_out:
  assumes "book_ok b" and "\<forall>s. tob_live b s" and "unat i < band b"
    and "match_against clk s k i q b = Some (b', r)" and "unat (base b) + j < 4294967296"
  shows "\<exists>n. map fst (trades_at b b' j) = take n (map fst (depth b (opp s) j))"
proof -
  have lv: "\<And>s. tob_live b s" using assms(2) by simp
  show ?thesis
    using sweep_makers_prefix [OF distinct_ladder, of j "opp s" b s "unat i" q "depth b"]
    by (simp add: trades_at_matched [OF assms(1) lv assms(3-5)])
qed

theorem matching_is_first_in_first_out_witness:
  "\<exists>b'. match_against demo_clk BUY 9 7 10 demo_book = Some (b', 0) \<and>
    (\<exists>n. map fst (trades_at demo_book b' 6) = take n [2])"
proof -
  have "map_option snd (match_against demo_clk BUY 9 7 10 demo_book) = Some 0" by code_simp
  then obtain b' where b': "match_against demo_clk BUY 9 7 10 demo_book = Some (b', 0)" by auto
  have h: "\<forall>s. tob_live demo_book s" "unat (7 :: price) < band demo_book"
    "unat (base demo_book) + 6 < 4294967296"
    by (simp_all add: demo_facts demo_values)
  from matching_is_first_in_first_out [OF demo_facts(1) h(1,2) b' h(3)] show ?thesis
    using b' by (simp add: demo_values opp_def)
qed

end
