(* ===== verification/Operation_Theorems.thy ===== *)
theory Operation_Theorems
  imports Book_Theorems
begin

text \<open>
  The properties of the price window and of the public operations of \<open>OrderBook\<close>, and
  where the code departs from what its comments and its other branches intend.
\<close>

section \<open>The price window\<close>

text \<open>The orders at an absolute price.\<close>

definition at_price :: "order_book \<Rightarrow> side \<Rightarrow> nat \<Rightarrow> (order_id \<times> quantity) list" where
  "at_price b s P = (if unat (base b) \<le> P then depth b s (P - unat (base b)) else [])"

lemma reframed_at:
  assumes "j < n" and "j + nb = P"
  shows "reframed ob nb n V s j = (if ob \<le> P \<and> P < ob + n then V s (P - ob) else [])"
proof (cases "ob \<le> P")
  case True
  define i where "i = P - ob"
  have "int j + int nb - int ob = int i" "i < n \<longleftrightarrow> P < ob + n"
    using True assms(2) unfolding i_def by linarith+
  then show ?thesis using assms(1) True unfolding reframed_def Let_def i_def [symmetric]
    by (simp only: nat_int of_nat_0_le_iff of_nat_less_iff simp_thms if_True)
next
  case False
  then have "int j + int nb - int ob < 0" using assms(2) by linarith
  then show ?thesis using False by (simp add: reframed_def Let_def)
qed

lemma at_price_reframed:
  assumes ok: "book_ok b" and d: "depth b' = reframed (unat (base b)) (unat (base b')) (band b) (depth b)"
  shows "at_price b' s P = (if unat (base b') \<le> P \<and> P < unat (base b') + band b then at_price b s P else [])"
proof (cases "unat (base b') \<le> P")
  case True
  let ?j = "P - unat (base b')"
  have j: "?j + unat (base b') = P" using True by simp
  show ?thesis
  proof (cases "?j < band b")
    case True
    have "depth b s (P - unat (base b)) = []" if "\<not> P < unat (base b) + band b"
      using that by (intro book_okD(5) [OF ok]) linarith
    then show ?thesis using \<open>unat (base b') \<le> P\<close> True
      by (auto simp: at_price_def d reframed_at [OF True j])
  next
    case False
    then show ?thesis using True by (auto simp: at_price_def d reframed_def Let_def)
  qed
qed (simp add: at_price_def)

text \<open>
  C14: \<open>rebase_base\<close> returns, and moves the window without moving an order: at every absolute
  price inside the new window the queue is what it was, in the same order and with the same
  quantities, and the levels outside the new window are emptied.  Nothing is traded, the book
  stays sound and the cached quantities stay those of the cached best levels.
\<close>

theorem rebase_keeps_prices:
  assumes "book_ok b" and "tob_live b BUY"
  shows "\<exists>b'. rebase_base b nb = Some b' \<and> book_ok b' \<and> base b' = nb \<and> fills b' = fills b \<and>
    (\<forall>s. (tob_live b s \<longrightarrow> tob_live b' s) \<and> (tob_fresh b s \<longrightarrow> tob_fresh b' s)) \<and>
    (\<forall>s P. at_price b' s P =
       (if unat nb \<le> P \<and> P < unat nb + band b then at_price b s P else []))"
proof -
  obtain b' where "rebase_base b nb = Some b'" and r: "rebased b nb b'"
    using rebase_base_correct [OF assms] by blast
  then show ?thesis
    using at_price_reframed [OF assms(1), of b'] by (auto simp: rebased_def)
qed

theorem rebase_keeps_prices_witness:
  "\<exists>b'. rebase_base demo_book 98 = Some b' \<and> book_ok b' \<and> base b' = 98 \<and> fills b' = [] \<and>
    at_price b' BUY 100 = [(1, 5)] \<and> at_price b' SELL 102 = [(2, 7)] \<and> at_price b' BUY 97 = []"
proof -
  obtain b' where "rebase_base demo_book 98 = Some b'" "book_ok b'" "base b' = 98" "fills b' = fills demo_book"
    and p: "\<forall>s P. at_price b' s P =
       (if unat (98 :: price) \<le> P \<and> P < unat (98 :: price) + band demo_book then at_price demo_book s P else [])"
    using rebase_keeps_prices [OF demo_facts(1) demo_facts(4), of 98] by blast
  moreover have p': "at_price b' s P = (if 98 \<le> P \<and> P < 106 then at_price demo_book s P else [])" for s P
    using p by (simp add: demo_facts)
  have "at_price b' BUY 100 = [(1, 5)] \<and> at_price b' SELL 102 = [(2, 7)] \<and> at_price b' BUY 97 = []"
    unfolding p' by (simp add: at_price_def demo_values)
  ultimately show ?thesis by (intro exI [of _ b']) (simp add: demo_values)
qed

text \<open>
  After the window has moved, \<open>rebase_base\<close> searches the new best level from the index the old
  one had, without re-indexing it.
\<close>

definition moved_past :: "order_book \<Rightarrow> price \<Rightarrow> side \<Rightarrow> bool" where
  "moved_past b nb s \<longleftrightarrow> (case s of BUY \<Rightarrow> nb < base b | SELL \<Rightarrow> base b < nb)"

lemma at_price_depth: "unat (base b) \<le> P \<Longrightarrow> at_price b s P = depth b s (P - unat (base b))"
  by (simp add: at_price_def)

text \<open>
  C40: on a sound book whose cached best bid is live, the window moves to the base \<open>nb\<close>, and the
  best price \<open>P\<close> of side \<open>s\<close>, which the cache has right, stays inside it.  The orders at \<open>P\<close>
  survive.  When the window moves down (for asks: up), the search for the new best level starts
  on the far side of \<open>P\<close>: the new best price is null or worse than \<open>P\<close>, so the top of book
  misses those orders.  When it moves the other way, or not at all, \<open>P\<close> is found again.
\<close>

theorem rebase_misses_the_best:
  assumes "book_ok b" and "tob_live b BUY" and "tob_exact b s" and "best b s \<noteq> NULL_IDX"
    and "P = unat (base b) + unat (best b s)" and "unat nb \<le> P" and "P < unat nb + band b"
  shows "\<exists>b'. rebase_base b nb = Some b' \<and> at_price b' s P = at_price b s P \<and> at_price b' s P \<noteq> [] \<and>
    (if moved_past b nb s
     then \<not> tob_exact b' s \<and> (best b' s = NULL_IDX \<or> better s P (unat nb + unat (best b' s)))
     else tob_exact b' s \<and> unat nb + unat (best b' s) = P)"
proof -
  obtain b' where b': "rebase_base b nb = Some b'" and r: "rebased b nb b'" and se: "searched b b'"
    using rebase_base_correct [OF assms(1,2)] by blast
  have ok: "book_ok b'" and bs: "base b' = nb" and bd: "band b' = band b"
    and d: "depth b' = reframed (unat (base b)) (unat (base b')) (band b) (depth b)"
    and live: "tob_live b' s"
    using r assms(3) by (auto simp: rebased_def tob_exact_def)
  note ap = at_price_reframed [OF assms(1) d, of s, unfolded bs]
  define j where "j = P - unat nb"
  have P: "P = unat nb + j" "j < band b" using assms(6,7) by (auto simp: j_def)
  have same: "at_price b' s P = at_price b s P" using ap [of P] assms(6,7) by simp
  have here: "at_price b s P \<noteq> []"
    using assms(3-5) by (simp add: at_price_def tob_exact_def tob_live_def)
  have dj: "depth b' s j \<noteq> []"
    using same here assms(6) by (simp add: at_price_def bs j_def)
  have none: "depth b' s i = []" if "better s i j" for i
  proof -
    have "depth b' s i = at_price b' s (unat nb + i)" by (simp add: at_price_def bs)
    also have "\<dots> = []"
    proof (cases "unat (base b) \<le> unat nb + i")
      case True
      have "better s (unat nb + i - unat (base b)) (unat (best b s))"
        using that True P assms(5) by (cases s) (auto simp: better_def)
      then have "depth b s (unat nb + i - unat (base b)) = []"
        using assms(3) unfolding tob_exact_def by blast
      then show ?thesis using ap [of "unat nb + i"] True by (simp add: at_price_def)
    next
      case False
      then show ?thesis using ap [of "unat nb + i"] by (simp add: at_price_def)
    qed
    finally show ?thesis .
  qed
  have bl: "unat (best b s) < band b'"
    using tob_live_in_band [OF assms(1) _ assms(4)] assms(3) bd by (simp add: tob_exact_def)
  note S = se [unfolded searched_def, THEN spec, THEN mp, OF conjI, OF assms(4) bl]
  have occ: "best b' s \<noteq> NULL_IDX \<Longrightarrow> depth b' s (unat (best b' s)) \<noteq> []"
    using live by (simp add: tob_live_def)
  have "if moved_past b nb s
     then \<not> tob_exact b' s \<and> (best b' s = NULL_IDX \<or> better s P (unat nb + unat (best b' s)))
     else tob_exact b' s \<and> unat nb + unat (best b' s) = P"
  proof (cases "moved_past b nb s")
    case True
    then have jb: "better s j (unat (best b s))"
      using P assms(5) by (cases s) (auto simp: moved_past_def better_def word_less_nat_alt)
    have far: "best b' s = NULL_IDX \<or> better s j (unat (best b' s))"
      using conjunct1 [OF S] jb by (cases s) (auto simp: better_def)
    then have "\<not> tob_exact b' s" using dj unfolding tob_exact_def by blast
    then show ?thesis using far True P by (cases s) (auto simp: better_def)
  next
    case False
    then have jb: "\<not> better s j (unat (best b s))"
      using P assms(5) by (cases s) (auto simp: moved_past_def better_def word_less_nat_alt)
    then have nn: "best b' s \<noteq> NULL_IDX" "\<not> better s j (unat (best b' s))"
      using conjunct2 [OF S] dj by blast+
    moreover have "\<not> better s (unat (best b' s)) j" using none occ [OF nn(1)] by blast
    ultimately have e: "unat (best b' s) = j" by (cases s) (auto simp: better_def)
    then have "tob_exact b' s" using live none nn(1) by (simp add: tob_exact_def)
    then show ?thesis using False e P by simp
  qed
  then show ?thesis using b' same here by auto
qed

theorem rebase_misses_the_best_witness:
  "\<exists>b'. rebase_base demo_book 95 = Some b' \<and> at_price b' BUY 100 = [(1, 5)] \<and> \<not> tob_exact b' BUY"
proof -
  have "tob_exact demo_book BUY" using demo_orderly by (simp add: orderly_def)
  then have "\<exists>b'. rebase_base demo_book 95 = Some b' \<and> at_price b' BUY 100 = at_price demo_book BUY 100 \<and>
      at_price b' BUY 100 \<noteq> [] \<and>
      (if moved_past demo_book 95 BUY
       then \<not> tob_exact b' BUY \<and>
         (best b' BUY = NULL_IDX \<or> better BUY 100 (unat (95 :: price) + unat (best b' BUY)))
       else tob_exact b' BUY \<and> unat (95 :: price) + unat (best b' BUY) = 100)"
    by (intro rebase_misses_the_best) (simp_all add: demo_facts demo_values NULL_IDX_def)
  moreover have "at_price demo_book BUY 100 = [(1, 5)]" by (simp add: at_price_def demo_values)
  ultimately show ?thesis by (auto simp: moved_past_def demo_values)
qed

text \<open>
  A run in which this crosses the book: the bid at price 97 survives the move from base 96 to
  base 91, the cached best bid becomes null, and the sell order at 95, whose limit the bid meets,
  is not matched but rests.  The bid at 100 has been discarded by the same move.
\<close>

lemma rebase_can_cross_the_book:
  "\<exists>b. book_run demo_clk demo_start [Insert 1 BUY 100 5, Insert 2 BUY 97 3, Insert 3 SELL 95 2] = Some b \<and>
    base b = 91 \<and> best b BUY = NULL_IDX \<and> fills b = [] \<and>
    depth b BUY 6 = [(2, 3)] \<and> depth b SELL 4 = [(3, 2)] \<and> id_find (ids b) 1 = Some NULL_IDX"
proof -
  have "(case book_run demo_clk demo_start [Insert 1 BUY 100 5, Insert 2 BUY 97 3, Insert 3 SELL 95 2] of
      None \<Rightarrow> False
    | Some b \<Rightarrow> base b = 91 \<and> best b BUY = NULL_IDX \<and> fills b = [] \<and>
        depth b BUY 6 = [(2, 3)] \<and> depth b SELL 4 = [(3, 2)] \<and> id_find (ids b) 1 = Some NULL_IDX)"
    by code_simp
  then show ?thesis by (auto split: option.splits)
qed

section \<open>Inserting\<close>

text \<open>
  C11: a limit order whose price is in the window.  It returns; the opposite side is swept up to
  the limit; a remainder is appended to the queue of its own level if a pool slot is free,
  either before or through a maker that was filled completely, and is dropped otherwise; the
  returned flag says which; and the invariant of the book holds again.
\<close>

theorem insert_inside_window:
  assumes "book_inv b" and "used (ids b) + 1 < tsize (ids b)"
    and "in_band (anchored b p) (to_idx (anchored b p) p)"
  shows "\<exists>b' rests fs V r. let a = anchored b p; i = unat p - unat (base a) in
    insert_limit_order clk b k s p q = Some (b', rests) \<and> book_inv b' \<and>
    sweep (opp s) (ladder a s i) q (depth b) = (fs, V, r) \<and>
    fills b' = fills b @ stamp clk k (base a) (length (fills b)) fs \<and>
    depth b' = (if rests then qput V s i (V s i @ [(k, r)]) else V) \<and>
    (rests \<longleftrightarrow> r \<noteq> 0 \<and> (free_list (pool b) \<noteq> [] \<or> sweep_dead (opp s) (ladder a s i) q (depth b) \<noteq> []))"
proof -
  obtain b2 b' rests where r: "insert_limit_order clk b k s p q = Some (b', rests)" "windowed b p b2"
    and c: "in_band b2 (to_idx b2 p) \<Longrightarrow>
       placed clk b2 k s (unat p - unat (base b2)) q b' rests \<and> carried b2 k b'"
    using insert_limit_order_correct [OF assms(1,2), of clk k s p q] by metis
  have b2: "b2 = anchored b p" using r(2) assms(3) by (simp add: windowed_def)
  have "book_inv b'"
    using insert_inv [OF assms(1,2), of clk k s p q] r(1) by (metis option.inject prod.inject)
  then show ?thesis
    using r(1) c assms(3) b2 by (auto simp: placed_def Let_def split: prod.splits)
qed

theorem insert_inside_window_witness:
  "\<exists>b' rests fs V r. insert_limit_order demo_clk demo_book 4 BUY 103 9 = Some (b', rests) \<and> book_inv b' \<and>
    sweep SELL (ladder demo_book BUY 7) 9 (depth demo_book) = (fs, V, r) \<and>
    depth b' = (if rests then qput V BUY 7 (V BUY 7 @ [(4, r)]) else V)"
proof -
  have a: "anchored demo_book 103 = demo_book" by (simp add: anchored_def demo_values)
  have "in_band (anchored demo_book 103) (to_idx (anchored demo_book 103) 103)"
    by (simp add: a in_band_def to_idx_def demo_facts demo_values)
  moreover have "used (ids demo_book) + 1 < tsize (ids demo_book)"
    by (rule healthy_room(1) [OF demo_book_ok(2), of 4]) (simp_all add: demo_facts demo_ids_def)
  ultimately obtain b' rests fs V r where
    "insert_limit_order demo_clk demo_book 4 BUY 103 9 = Some (b', rests)" "book_inv b'"
    "sweep (opp BUY) (ladder demo_book BUY (unat (103 :: price) - unat (base demo_book))) 9 (depth demo_book) = (fs, V, r)"
    "depth b' = (if rests then qput V BUY (unat (103 :: price) - unat (base demo_book))
       (V BUY (unat (103 :: price) - unat (base demo_book)) @ [(4, r)]) else V)"
    using insert_inside_window [OF demo_facts(2), of 103 demo_clk 4 BUY 9] unfolding a Let_def by metis
  then show ?thesis
    by (intro exI [of _ b'] exI [of _ rests] exI [of _ fs] exI [of _ V] exI [of _ r])
      (simp add: opp_def demo_values)
qed

text \<open>
  C13: a limit order whose price is outside the window.  If the counter of live orders exceeds
  64 it is rejected and nothing changes.  Otherwise the window is centred on the price first,
  the price is then inside it, and the order is processed against the re-indexed book.
\<close>

theorem insert_outside_window:
  assumes "book_inv b" and "used (ids b) + 1 < tsize (ids b)" and "base_set b"
    and "\<not> in_band b (to_idx b p)"
  shows "if 64 < live_order_count b then insert_limit_order clk b k s p q = Some (b, False)
    else \<exists>b2 b' rests. rebased b (centred_base b p) b2 \<and> in_band b2 (to_idx b2 p) \<and>
      insert_limit_order clk b k s p q = Some (b', rests) \<and> book_inv b' \<and>
      placed clk b2 k s (unat p - unat (base b2)) q b' rests"
proof (cases "64 < live_order_count b")
  case True
  then have "\<not> live_order_count b \<le> BOOTSTRAP_REBASE_LIMIT"
    by (simp add: BOOTSTRAP_REBASE_LIMIT_def not_le)
  then show ?thesis using assms(3,4) True by (simp add: insert_limit_order_def)
next
  case False
  have a: "anchored b p = b" using assms(3) by (simp add: anchored_def)
  obtain b2 b' rests where r: "insert_limit_order clk b k s p q = Some (b', rests)" "windowed b p b2"
    and c: "in_band b2 (to_idx b2 p) \<Longrightarrow>
       placed clk b2 k s (unat p - unat (base b2)) q b' rests \<and> carried b2 k b'"
    using insert_limit_order_correct [OF assms(1,2), of clk k s p q] by metis
  have rb: "rebased b (centred_base b p) b2" using r(2) assms(4) False by (simp add: windowed_def a not_less)
  have "shape b" using assms(1) book_okD(4) by (auto simp: book_inv_def)
  then have "in_band b2 (to_idx b2 p)"
    using rb by (intro centred_in_band) (auto simp: rebased_def)
  moreover have "book_inv b'"
    using insert_inv [OF assms(1,2), of clk k s p q] r(1) by (metis option.inject prod.inject)
  ultimately show ?thesis using rb r(1) c False by (simp only: if_False) blast
qed

theorem insert_outside_window_witness:
  "\<exists>b2 b' rests. rebased demo_book (centred_base demo_book 107) b2 \<and> in_band b2 (to_idx b2 107) \<and>
    insert_limit_order demo_clk demo_book 4 SELL 107 9 = Some (b', rests) \<and> book_inv b' \<and>
    placed demo_clk b2 4 SELL (unat (107 :: price) - unat (base b2)) 9 b' rests"
proof -
  have "used (ids demo_book) + 1 < tsize (ids demo_book)"
    by (rule healthy_room(1) [OF demo_book_ok(2), of 4]) (simp_all add: demo_facts demo_ids_def)
  moreover have "\<not> in_band demo_book (to_idx demo_book 107)"
    by (simp add: demo_facts demo_values in_band_def to_idx_def)
  ultimately show ?thesis
    using insert_outside_window [OF demo_facts(2) _ demo_values(9), of 107 demo_clk 4 SELL 9]
    by (simp add: demo_values)
qed

text \<open>
  An order inserted at the best price leaves the cached quantity as it was: after bids of 5
  and 7 at price 100 the level holds 12, the top of book says 5.
\<close>

lemma insert_leaves_stale_quantity:
  "\<exists>b. book_run demo_clk demo_start [Insert 1 BUY 100 5, Insert 2 BUY 100 7] = Some b \<and>
    best b BUY = 4 \<and> best_qty b BUY = 5 \<and> map_option total_volume (level_of_price b BUY 100) = Some 12"
proof -
  have "(case book_run demo_clk demo_start [Insert 1 BUY 100 5, Insert 2 BUY 100 7] of None \<Rightarrow> False
    | Some b \<Rightarrow> best b BUY = 4 \<and> best_qty b BUY = 5 \<and>
        map_option total_volume (level_of_price b BUY 100) = Some 12)"
    by code_simp
  then show ?thesis by (auto split: option.splits)
qed

section \<open>Orders that are on the book\<close>

lemma resting_slot: "index_ok b \<Longrightarrow> resting b k \<Longrightarrow> \<exists>x. content (ids b) k = Some x"
  using resting_content by blast

text \<open>
  C19: cancelling an order that rests takes it, and nothing else, off its queue, logs nothing,
  and leaves the cached best prices and quantities as exact as they were.  The counter of live
  orders is not decremented.
\<close>

theorem cancel_removes_the_order:
  assumes "book_ok b" and "index_ok b" and "\<forall>s. tob_live b s" and "resting b k"
  shows "\<exists>b'. cancel_order b k = Some b' \<and> book_ok b' \<and> \<not> resting b' k \<and>
    depth b' = drop_id k (depth b) \<and> tob_all b b' \<and> fills b' = fills b \<and>
    live_order_count b' = live_order_count b"
proof -
  obtain x where x: "content (ids b) k = Some x" using resting_slot [OF assms(2,4)] by blast
  have lv: "\<And>s. tob_live b s" using assms(3) by simp
  obtain b' where "cancel_order b k = Some b'" and e: "edited b (drop_id k (depth b)) b'"
    and "fills b' = fills b" "live_order_count b' = live_order_count b"
    using cancel_known [OF assms(1,2) lv x] by metis
  moreover have "\<not> resting b' k" using editedD(2) [OF e] by (auto simp: resting_def drop_id_def)
  ultimately show ?thesis using editedD [OF e] by blast
qed

theorem cancel_removes_the_order_witness:
  "\<exists>b'. cancel_order demo_book 2 = Some b' \<and> book_ok b' \<and> \<not> resting b' 2 \<and>
    depth b' = drop_id 2 (depth demo_book) \<and> tob_all demo_book b' \<and> fills b' = fills demo_book \<and>
    live_order_count b' = live_order_count demo_book"
proof (rule cancel_removes_the_order)
  have "2 \<in> fst ` set (depth demo_book SELL 6)" by (simp add: demo_values)
  then show "resting demo_book 2" unfolding resting_def by blast
qed (simp_all add: demo_facts)

text \<open>
  C22: cancel, execute and reduce on an id that does not rest on the book return without an
  effect, the latter two with the answer false.
\<close>

theorem unknown_ids_are_ignored:
  assumes "index_ok b" and "\<not> resting b k"
  shows "cancel_order b k = Some b \<and> execute_order clk b k q = Some (b, False) \<and>
    reduce_order_qty b k q = Some (b, False)"
proof -
  have "content (ids b) k = None" using assms resting_content by blast
  then show ?thesis using cancel_unknown execute_unknown reduce_unknown assms(1) by blast
qed

theorem unknown_ids_are_ignored_witness:
  "cancel_order demo_book 4 = Some demo_book \<and> execute_order demo_clk demo_book 4 3 = Some (demo_book, False) \<and>
    reduce_order_qty demo_book 4 3 = Some (demo_book, False)"
  by (rule unknown_ids_are_ignored) (simp_all add: demo_facts)

text \<open>
  C20: executing against a resting order logs one trade, at the order's own absolute price and
  for at most its open quantity, and takes that quantity off the order; the order leaves the
  book, and the answer is true, exactly when nothing of it is left.
\<close>

theorem execute_trades_the_order:
  assumes "book_ok b" and "index_ok b" and "\<forall>s. tob_live b s" and "resting b k"
  shows "\<exists>b'. execute_order clk b k q = Some (b', open_qty b k \<le> q) \<and> book_ok b' \<and> tob_all b b' \<and>
    depth b' = (if open_qty b k \<le> q then drop_id k (depth b) else less_qty k q (depth b)) \<and>
    fills b' = fills b @ [\<lparr>maker_id = k, taker_id = 0, tprice = quoted b k,
      tqty = min q (open_qty b k), timestamp = clk (length (fills b))\<rparr>] \<and>
    live_order_count b' = (if open_qty b k \<le> q
      then of_nat (unat (live_order_count b) - 1) else live_order_count b)"
proof -
  obtain x where x: "content (ids b) k = Some x" using resting_slot [OF assms(2,4)] by blast
  have lv: "\<And>s. tob_live b s" using assms(3) by simp
  obtain b' where "execute_order clk b k q = Some (b', open_qty b k \<le> q)"
    and e: "edited b (if open_qty b k \<le> q then drop_id k (depth b) else less_qty k q (depth b)) b'"
    and "fills b' = fills b @ [\<lparr>maker_id = k, taker_id = 0, tprice = quoted b k,
       tqty = min q (open_qty b k), timestamp = clk (length (fills b))\<rparr>]"
    "live_order_count b' = (if open_qty b k \<le> q
       then of_nat (unat (live_order_count b) - 1) else live_order_count b)"
    using execute_known [OF assms(1,2) lv x, of clk q] by metis
  then show ?thesis using editedD [OF e] by blast
qed

lemma demo_open: "open_qty demo_book 2 = 7" "quoted demo_book 2 = 102" "content (ids demo_book) 2 = Some 1"
proof -
  note h = healthyD(3) [OF demo_book_ok(2)]
  have f: "id_find (ids demo_book) 2 = Some 1" by code_simp
  then show c: "content (ids demo_book) 2 = Some 1"
    using table.look_law [OF index_okD(1) [OF h], of 2] by (auto simp: NULL_IDX_def split: option.splits)
  have o: "oqty (ord demo_book 1) = 7" "base demo_book + oprice (ord demo_book 1) = 102" by code_simp+
  show "open_qty demo_book 2 = 7" "quoted demo_book 2 = 102"
    by (simp_all add: open_qty_def quoted_def c o del: add.commute)
qed

theorem execute_trades_the_order_witness:
  "\<exists>b'. execute_order demo_clk demo_book 2 3 = Some (b', False) \<and> book_ok b' \<and>
    depth b' = less_qty 2 3 (depth demo_book) \<and>
    fills b' = [\<lparr>maker_id = 2, taker_id = 0, tprice = 102, tqty = 3, timestamp = demo_clk 0\<rparr>]"
proof -
  have "2 \<in> fst ` set (depth demo_book SELL 6)" by (simp add: demo_values)
  then have "resting demo_book 2" unfolding resting_def by blast
  moreover have "\<forall>s. tob_live demo_book s" by (simp add: demo_facts)
  ultimately show ?thesis
    using execute_trades_the_order [OF demo_facts(1,3), of 2 demo_clk 3] by (auto simp: demo_open demo_values)
qed


text \<open>
  C21: reducing a resting order takes the given quantity off it, or removes it when at least its
  open quantity is given, and answers whether it was removed.  Nothing is logged.
\<close>

theorem reduce_lowers_the_order:
  assumes "book_ok b" and "index_ok b" and "\<forall>s. tob_live b s" and "resting b k"
  shows "\<exists>b'. reduce_order_qty b k q = Some (b', open_qty b k \<le> q) \<and> book_ok b' \<and> tob_all b b' \<and>
    depth b' = (if open_qty b k \<le> q then drop_id k (depth b) else less_qty k q (depth b)) \<and>
    fills b' = fills b \<and> live_order_count b' = live_order_count b"
proof -
  obtain x where x: "content (ids b) k = Some x" using resting_slot [OF assms(2,4)] by blast
  have lv: "\<And>s. tob_live b s" using assms(3) by simp
  obtain b' where "reduce_order_qty b k q = Some (b', open_qty b k \<le> q)"
    and e: "edited b (if open_qty b k \<le> q then drop_id k (depth b) else less_qty k q (depth b)) b'"
    and "fills b' = fills b" "live_order_count b' = live_order_count b"
    using reduce_known [OF assms(1,2) lv x, of q] by metis
  then show ?thesis using editedD [OF e] by blast
qed

theorem reduce_lowers_the_order_witness:
  "\<exists>b'. reduce_order_qty demo_book 2 9 = Some (b', True) \<and> book_ok b' \<and>
    depth b' = drop_id 2 (depth demo_book) \<and> fills b' = []"
proof -
  have "2 \<in> fst ` set (depth demo_book SELL 6)" by (simp add: demo_values)
  then have "resting demo_book 2" unfolding resting_def by blast
  moreover have "\<forall>s. tob_live demo_book s" by (simp add: demo_facts)
  ultimately show ?thesis
    using reduce_lowers_the_order [OF demo_facts(1,3), of 2 9] by (auto simp: demo_open demo_values)
qed

section \<open>Market orders\<close>

text \<open>
  C23: when the cached best price is exact, a market order trades as if it visited every level
  of the opposite side from the best end of the window to the other, and what is left of it
  disappears.
\<close>

theorem market_order_sweeps_the_book:
  assumes "book_ok b" and "tob_exact b (opp s)"
  shows "\<exists>b' fs V r. sweep (opp s) (case s of BUY \<Rightarrow> [0..<band b] | SELL \<Rightarrow> rev [0..<band b]) q (depth b) = (fs, V, r) \<and>
    process_market_order clk b s q = Some b' \<and> book_ok b' \<and> tob_exact b' (opp s) \<and> depth b' = V \<and>
    fills b' = fills b @ stamp clk 0 (base b) (length (fills b)) fs"
proof (cases s)
  case BUY
  have ex: "tob_exact b SELL" using assms(2) BUY by (simp add: opp_def)
  then have lv: "tob_live b SELL" by (simp add: tob_exact_def)
  let ?l = "[unat (best b SELL)..<band b]"
  obtain b' where b': "process_market_order clk b BUY q = Some b'" "tob_step SELL b b'"
    and o: "outcome clk 0 b (fst (sweep SELL ?l q (depth b))) (fst (snd (sweep SELL ?l q (depth b))))
       (sweep_dead SELL ?l q (depth b)) b'"
    by (rule market_buy [OF assms(1) lv])
  have "depth b SELL i = []" if "i < unat (best b SELL)" for i
    using ex that by (auto simp: tob_exact_def better_def)
  then have e: "sweep SELL [0..<band b] q (depth b) = sweep SELL ?l q (depth b)"
    by (intro sweep_skip_up) auto
  show ?thesis
    using BUY b' outcomeD [OF o] ex
    by (cases "sweep SELL ?l q (depth b)") (auto simp: opp_def e tob_step_def)
next
  case SELL
  have ex: "tob_exact b BUY" using assms(2) SELL by (simp add: opp_def)
  then have lv: "tob_live b BUY" by (simp add: tob_exact_def)
  let ?l = "rev [0..<bid_top b]"
  obtain b' where b': "process_market_order clk b SELL q = Some b'" "tob_step BUY b b'"
    and o: "outcome clk 0 b (fst (sweep BUY ?l q (depth b))) (fst (snd (sweep BUY ?l q (depth b))))
       (sweep_dead BUY ?l q (depth b)) b'"
    by (rule market_sell [OF assms(1) lv])
  have "bid_top b \<le> band b"
    using tob_live_in_band [OF assms(1) lv] by (auto simp: bid_top_def)
  moreover have "depth b BUY i = []" if "bid_top b \<le> i" for i
    using ex that by (auto simp: tob_exact_def better_def bid_top_def split: if_splits)
  ultimately have e: "sweep BUY (rev [0..<band b]) q (depth b) = sweep BUY ?l q (depth b)"
    by (intro sweep_skip_down) auto
  show ?thesis
    using SELL b' outcomeD [OF o] ex
    by (cases "sweep BUY ?l q (depth b)") (auto simp: opp_def e tob_step_def)
qed

theorem market_order_sweeps_the_book_witness:
  "\<exists>b' fs V r. sweep SELL [0..<8] 10 (depth demo_book) = (fs, V, r) \<and>
    process_market_order demo_clk demo_book BUY 10 = Some b' \<and> book_ok b' \<and> tob_exact b' SELL \<and> depth b' = V \<and>
    fills b' = stamp demo_clk 0 96 0 fs"
proof -
  have "tob_exact demo_book (opp BUY)" using demo_orderly by (simp add: orderly_def)
  from market_order_sweeps_the_book [OF demo_facts(1) this, of 10 demo_clk] show ?thesis
    by (simp add: opp_def demo_facts demo_values)
qed

section \<open>Inserting and cancelling\<close>



text \<open>
  After an insertion and its cancellation the book is empty again, but the counter of live
  orders, which decides whether the window may still move, is one higher.
\<close>

lemma cancel_leaks_live_count:
  "\<exists>b. book_run demo_clk demo_start [Insert 1 BUY 100 5, Cancel 1] = Some b \<and>
    live_order_count b = 1 \<and> \<not> resting b 1 \<and> best b BUY = NULL_IDX"
proof -
  have "ops_ok demo_ids (\<lambda>_ _. True) demo_clk demo_start [Insert 1 BUY 100 5, Cancel 1]" by code_simp
  then obtain b where b: "book_run demo_clk demo_start [Insert 1 BUY 100 5, Cancel 1] = Some b"
    "healthy 8 4 (set demo_ids) b"
    using session_run [OF demo_start_ok(2) _ session.fresh [OF demo_start_ok(1)]] by blast
  have "(case book_run demo_clk demo_start [Insert 1 BUY 100 5, Cancel 1] of None \<Rightarrow> False
    | Some b \<Rightarrow> live_order_count b = 1 \<and> id_find (ids b) 1 = Some NULL_IDX \<and> best b BUY = NULL_IDX)"
    by code_simp
  then show ?thesis using b not_resting [OF healthyD(3) [OF b(2)], of 1] by simp
qed

section \<open>Ids with the same home slot\<close>

text \<open>
  C39: on any sound book with an exact id table and live best prices: if two resting orders \<open>k\<close>
  and \<open>k'\<close> have the same home slot, \<open>k\<close> occupies it, and the next slot holds an id that is at home
  there, then cancelling \<open>k\<close> cuts the probe path to \<open>k'\<close>.  The order \<open>k'\<close> stays on the book, and
  cancelling, executing and reducing it do nothing.
\<close>

theorem collision_loses_a_cancel:
  assumes "book_ok b" and "index_ok b" and "\<forall>s. tob_live b s"
    and "resting b k" and "resting b k'" and "cut_off (ids b) k k'"
  shows "\<exists>b'. cancel_order b k = Some b' \<and> depth b' = drop_id k (depth b) \<and> resting b' k' \<and>
    cancel_order b' k' = Some b' \<and> execute_order clk b' k' q = Some (b', False) \<and>
    reduce_order_qty b' k' q = Some (b', False)"
proof -
  obtain x v where x: "content (ids b) k = Some x" and v: "content (ids b) k' = Some v"
    using resting_slot [OF assms(2)] assms(4,5) by metis
  have lv: "\<And>s. tob_live b s" using assms(3) by simp
  obtain b' where c: "cancel_order b k = Some b'" and e: "edited b (drop_id k (depth b)) b'"
    using cancel_known [OF assms(1,2) lv x] by metis
  have f: "id_find (ids b) k = Some x" "x \<noteq> NULL_IDX"
    using find_present [OF assms(1,2) x] by metis+
  have "id_erase (ids b) k = Some (ids b')" by (rule cancel_ids [OF c f])
  then have lost: "id_find (ids b') k' = Some NULL_IDX"
    using erase_cuts_off [OF index_okD(1) [OF assms(2)] assms(6) v] by auto
  have "k' \<noteq> k" using assms(6) by (simp add: cut_off_def Let_def)
  then have "resting b' k'"
    using assms(5) editedD(2) [OF e] by (force simp: resting_def drop_id_def)
  then show ?thesis
    using c editedD(2) [OF e] lost
    by (simp add: cancel_order_def execute_order_def reduce_order_qty_def)
qed

text \<open>A table of eight slots: the ids 2 and 10 share the home slot 5, and 1 is at home in slot 6.\<close>

definition clash_book :: order_book where
  "clash_book = the (book_run demo_clk demo_start
     [Insert 2 BUY 100 5, Insert 1 BUY 100 7, Insert 10 BUY 101 9])"

lemma clash_book_ok:
  "book_ok clash_book" "index_ok clash_book" "tob_live clash_book s"
proof -
  let ?b2 = "the (book_run demo_clk demo_start [Insert 2 BUY 100 5, Insert 1 BUY 100 7])"
  have "ops_ok demo_ids (\<lambda>_ _. True) demo_clk demo_start [Insert 2 BUY 100 5, Insert 1 BUY 100 7]"
    by code_simp
  then obtain b where b: "book_run demo_clk demo_start [Insert 2 BUY 100 5, Insert 1 BUY 100 7] = Some b"
    "healthy 8 4 (set demo_ids) b"
    using session_run [OF demo_start_ok(2) _ session.fresh [OF demo_start_ok(1)]] by blast
  note h = healthyD [OF b(2)]
  have e: "id_find (ids ?b2) 10 = Some NULL_IDX" "used (ids ?b2) + 1 < tsize (ids ?b2)" by code_simp+
  have new: "content (ids b) 10 = None"
    using not_resting [OF h(3), of 10] resting_content [OF h(3), of 10] e(1) unfolding b(1) option.sel
    by simp
  obtain b' rests where b': "insert_limit_order demo_clk b 10 BUY 101 9 = Some (b', rests)" "book_inv b'"
    "index_ok b \<and> ordered_ok (ids b) \<and> content (ids b) 10 = None \<longrightarrow> index_ok b'"
    using insert_inv [OF h(1), of demo_clk 10 BUY 101 9] e(2) unfolding b(1) option.sel by metis
  have "ordered_ok (ids b)" using h(5) at_home_ordered by (simp add: calm_on_def)
  moreover have "clash_book = b'"
    using b'(1) book_run_append [of demo_clk demo_start
      "[Insert 2 BUY 100 5, Insert 1 BUY 100 7]" "[Insert 10 BUY 101 9]", unfolded b(1)]
    by (simp add: clash_book_def del: book_run.simps(2)) simp
  ultimately show "book_ok clash_book" "index_ok clash_book" "tob_live clash_book s"
    using b'(2,3) new h(3) by (simp_all add: book_inv_def)
qed

lemma clash_ids: "cut_off (ids clash_book) 2 10"
proof -
  let ?m = "ids clash_book"
  have "shape_ok ?m" using index_okD(1) [OF clash_book_ok(2)] by (simp add: idmap_ok_def)
  note w = home_word [OF this]
  have "hash 2 AND mmask ?m = 5" "hash 10 AND mmask ?m = 5" "hash 1 AND mmask ?m = 6" by code_simp+
  then have h: "home ?m 2 = 5" "home ?m 10 = 5" "home ?m 1 = 6"
    using w [of 2] w [of 10] w [of 1] by simp_all
  have "tsize ?m = 8" "occ ?m 5" "key_at ?m 5 = 2" "occ ?m 6" "key_at ?m 6 = 1" by code_simp+
  then show ?thesis by (simp add: cut_off_def Let_def h)
qed

theorem collision_loses_a_cancel_witness:
  "\<exists>b'. cancel_order clash_book 2 = Some b' \<and> depth b' = drop_id 2 (depth clash_book) \<and> resting b' 10 \<and>
    cancel_order b' 10 = Some b' \<and> execute_order demo_clk b' 10 9 = Some (b', False) \<and>
    reduce_order_qty b' 10 9 = Some (b', False)"
proof (rule collision_loses_a_cancel)
  have "depth clash_book BUY 4 = [(2, 5), (1, 7)]" "depth clash_book BUY 5 = [(10, 9)]" by code_simp+
  then have "2 \<in> fst ` set (depth clash_book BUY 4)" "10 \<in> fst ` set (depth clash_book BUY 5)" by simp_all
  then show "resting clash_book 2" "resting clash_book 10" unfolding resting_def by blast+
  show "cut_off (ids clash_book) 2 10" by (rule clash_ids)
qed (simp_all add: clash_book_ok)

end
