(* ===== verification/Stl_Baseline.thy ===== *)
theory Stl_Baseline
  imports Book_Session "HOL-Library.RBT"
begin

text \<open>
  The textbook book of \<open>benchmarks/Stlbaselinebook.hpp\<close>, against which the optimised book is
  measured: a \<open>std::map\<close> from prices to \<open>std::list\<close>s per side, and an \<open>unordered_map\<close> from ids
  to iterators.  An ordered map is a red-black tree of the library, a list node has an address,
  and an iterator is the address of its node.  The second part shows that its matching loop is
  the sweep of \<open>Matching_Spec\<close>.
\<close>

section \<open>The code\<close>

record resting_order =
  res_id :: order_id
  res_qty :: quantity

type_synonym stl_level = "(nat \<times> resting_order) list"

record stl_book =
  stl_levels :: "side \<Rightarrow> (price, stl_level) RBT.rbt"
  stl_id_index :: "order_id \<Rightarrow> (side \<times> price \<times> nat) option"
  next_node :: nat

definition stl_new :: stl_book where
  "stl_new = \<lparr>stl_levels = (\<lambda>_. RBT.empty), stl_id_index = (\<lambda>_. None), next_node = 0\<rparr>"

text \<open>\<open>asks_.begin()\<close> and \<open>bids_.rbegin()\<close>.\<close>

definition stl_best :: "stl_book \<Rightarrow> side \<Rightarrow> price option" where
  "stl_best b s = (let ps = RBT.keys (stl_levels b s) in
     if ps = [] then None else Some (case s of BUY \<Rightarrow> last ps | SELL \<Rightarrow> hd ps))"

definition put_level :: "stl_book \<Rightarrow> side \<Rightarrow> price \<Rightarrow> stl_level \<Rightarrow> stl_book" where
  "put_level b s p l = b\<lparr>stl_levels := (stl_levels b)(s := RBT.insert p l (stl_levels b s))\<rparr>"

definition drop_level :: "stl_book \<Rightarrow> side \<Rightarrow> price \<Rightarrow> stl_book" where
  "drop_level b s p = b\<lparr>stl_levels := (stl_levels b)(s := RBT.delete p (stl_levels b s))\<rparr>"

text \<open>A level that has lost an order: an empty one is erased from the map.\<close>

definition shrink_level :: "stl_book \<Rightarrow> side \<Rightarrow> price \<Rightarrow> stl_level \<Rightarrow> stl_book" where
  "shrink_level b s p l = (if l = [] then drop_level b s p else put_level b s p l)"

definition stl_unindex :: "order_id \<Rightarrow> stl_book \<Rightarrow> stl_book" where
  "stl_unindex k b = b\<lparr>stl_id_index := (stl_id_index b)(k := None)\<rparr>"

text \<open>The body of the matching loops; \<open>front()\<close> of an empty list is undefined.\<close>

definition stl_fill :: "side \<Rightarrow> price \<Rightarrow> quantity \<Rightarrow> stl_book \<Rightarrow> (stl_book \<times> quantity) option" where
  "stl_fill s p qty b = do {
     level \<leftarrow> RBT.lookup (stl_levels b s) p;
     (a, r) \<leftarrow> (case level of [] \<Rightarrow> None | n # _ \<Rightarrow> Some n);
     let fill = min qty (res_qty r);
     let r = r\<lparr>res_qty := res_qty r - fill\<rparr>;
     Some (if res_qty r = 0 then stl_unindex (res_id r) (shrink_level b s p (tl level))
       else put_level b s p ((a, r) # tl level), qty - fill)
   }"

text \<open>The four loops differ in the side they consume and in the test on the price.\<close>

partial_function (option) stl_match ::
  "(price \<Rightarrow> bool) \<Rightarrow> side \<Rightarrow> quantity \<Rightarrow> stl_book \<Rightarrow> (stl_book \<times> quantity) option" where
  "stl_match crosses s qty b = (if qty > 0
     then (case stl_best b s of
         None \<Rightarrow> Some (b, qty)
       | Some p \<Rightarrow> if crosses p
           then do { (b, qty) \<leftarrow> stl_fill s p qty b; stl_match crosses s qty b }
           else Some (b, qty))
     else Some (b, qty))"

declare stl_match.simps [code]

text \<open>\<open>operator[]\<close> makes a missing level; the new node gets a fresh address.\<close>

definition stl_push_back :: "stl_book \<Rightarrow> order_id \<Rightarrow> side \<Rightarrow> price \<Rightarrow> quantity \<Rightarrow> stl_book" where
  "stl_push_back b k s p qty = (let a = next_node b;
       level = (case RBT.lookup (stl_levels b s) p of None \<Rightarrow> [] | Some l \<Rightarrow> l) in
     (put_level b s p (level @ [(a, \<lparr>res_id = k, res_qty = qty\<rparr>)]))
       \<lparr>stl_id_index := (stl_id_index b)(k \<mapsto> (s, p, a)), next_node := a + 1\<rparr>)"

definition stl_insert_limit_order ::
  "stl_book \<Rightarrow> order_id \<Rightarrow> side \<Rightarrow> price \<Rightarrow> quantity \<Rightarrow> (stl_book \<times> bool) option" where
  "stl_insert_limit_order b k s p qty = do {
     (b, qty) \<leftarrow> (case s of BUY \<Rightarrow> stl_match (\<lambda>x. x \<le> p) SELL qty b
                         | SELL \<Rightarrow> stl_match (\<lambda>x. x \<ge> p) BUY qty b);
     Some (if qty > 0 then (stl_push_back b k s p qty, True) else (b, False))
   }"

definition stl_cancel_order :: "stl_book \<Rightarrow> order_id \<Rightarrow> (stl_book \<times> bool) option" where
  "stl_cancel_order b k = (case stl_id_index b k of
       None \<Rightarrow> Some (b, False)
     | Some (s, p, a) \<Rightarrow> do {
         level \<leftarrow> RBT.lookup (stl_levels b s) p;
         (if a \<notin> fst ` set level then None
          else Some (stl_unindex k (shrink_level b s p (filter (\<lambda>n. fst n \<noteq> a) level)), True))
       })"

definition stl_process_market_order :: "stl_book \<Rightarrow> side \<Rightarrow> quantity \<Rightarrow> stl_book option" where
  "stl_process_market_order b s qty = map_option fst
     (case s of BUY \<Rightarrow> stl_match (\<lambda>_. True) SELL qty b | SELL \<Rightarrow> stl_match (\<lambda>_. True) BUY qty b)"

section \<open>Nodes and depth\<close>

definition stl_nodes :: "stl_book \<Rightarrow> side \<Rightarrow> price \<Rightarrow> stl_level" where
  "stl_nodes b s p = (case RBT.lookup (stl_levels b s) p of None \<Rightarrow> [] | Some l \<Rightarrow> l)"

definition node_views :: "stl_level \<Rightarrow> (order_id \<times> quantity) list" where
  "node_views l = map (\<lambda>n. (res_id (snd n), res_qty (snd n))) l"

definition stl_depth :: "stl_book \<Rightarrow> side \<Rightarrow> price \<Rightarrow> (order_id \<times> quantity) list" where
  "stl_depth b s p = node_views (stl_nodes b s p)"

definition stl_ok :: "stl_book \<Rightarrow> bool" where
  "stl_ok b \<longleftrightarrow> (\<forall>s p. RBT.lookup (stl_levels b s) p \<noteq> Some []) \<and>
     (\<forall>s p. distinct (map fst (stl_nodes b s p))) \<and>
     (\<forall>s p n. n \<in> set (stl_nodes b s p) \<longrightarrow> fst n < next_node b \<and> res_qty (snd n) \<noteq> 0) \<and>
     (\<forall>k s p a. stl_id_index b k = Some (s, p, a) \<longleftrightarrow>
        (\<exists>n \<in> set (stl_nodes b s p). fst n = a \<and> res_id (snd n) = k))"

lemma stl_okD:
  assumes "stl_ok b"
  shows "RBT.lookup (stl_levels b s) p = (if stl_nodes b s p = [] then None else Some (stl_nodes b s p))"
    and "distinct (map fst (stl_nodes b s p))"
    and "n \<in> set (stl_nodes b s p) \<Longrightarrow> fst n < next_node b \<and> res_qty (snd n) \<noteq> 0"
    and "stl_id_index b k = Some (s, p, a) \<longleftrightarrow> (\<exists>n \<in> set (stl_nodes b s p). fst n = a \<and> res_id (snd n) = k)"
proof -
  show "RBT.lookup (stl_levels b s) p = (if stl_nodes b s p = [] then None else Some (stl_nodes b s p))"
    using assms by (auto simp: stl_ok_def stl_nodes_def split: option.splits)
qed (use assms in \<open>unfold stl_ok_def, blast\<close>)+

lemma node_views_simps [simp]:
  "node_views [] = []" "node_views (n # l) = (res_id (snd n), res_qty (snd n)) # node_views l"
  "node_views (l @ l') = node_views l @ node_views l'" "node_views l = [] \<longleftrightarrow> l = []"
  by (simp_all add: node_views_def)

lemma stl_depth_empty: "stl_depth b s p = [] \<longleftrightarrow> stl_nodes b s p = []"
  by (simp add: stl_depth_def)

lemma put_level_simps [simp]:
  "stl_nodes (put_level b s p l) s' p' = (if s' = s \<and> p' = p then l else stl_nodes b s' p')"
  "stl_id_index (put_level b s p l) = stl_id_index b" "next_node (put_level b s p l) = next_node b"
  by (auto simp: put_level_def stl_nodes_def)

lemma shrink_level_simps [simp]:
  "stl_nodes (shrink_level b s p l) s' p' = (if s' = s \<and> p' = p then l else stl_nodes b s' p')"
  "stl_id_index (shrink_level b s p l) = stl_id_index b" "next_node (shrink_level b s p l) = next_node b"
  by (auto simp: shrink_level_def drop_level_def put_level_def stl_nodes_def)

lemma stl_unindex_simps [simp]:
  "stl_nodes (stl_unindex k b) = stl_nodes b" "next_node (stl_unindex k b) = next_node b"
  "stl_id_index (stl_unindex k b) = (stl_id_index b)(k := None)" "stl_levels (stl_unindex k b) = stl_levels b"
  by (auto simp: stl_unindex_def stl_nodes_def fun_eq_iff)

text \<open>The best price is an occupied price that no other one beats.\<close>

lemma stl_keys: "stl_ok b \<Longrightarrow> x \<in> set (RBT.keys (stl_levels b s)) \<longleftrightarrow> stl_nodes b s x \<noteq> []"
  using stl_okD(1) [of b s x] by (auto simp: RBT.keys_entries simp flip: RBT.lookup_in_tree)

lemma sorted_ends:
  assumes "sorted xs" and "xs \<noteq> []"
  shows "\<forall>x \<in> set xs. hd xs \<le> x" and "\<forall>x \<in> set xs. x \<le> last xs"
proof -
  show "\<forall>x \<in> set xs. hd xs \<le> x" using assms by (cases xs) auto
  show "\<forall>x \<in> set xs. x \<le> last xs" using assms by (cases xs rule: rev_cases) (auto simp: sorted_append)
qed

lemma stl_best_NoneD: "stl_ok b \<Longrightarrow> stl_best b s = None \<Longrightarrow> stl_nodes b s p = []"
  using stl_keys [of b p s] by (auto simp: stl_best_def Let_def split: if_splits)

lemma stl_best_SomeD:
  assumes ok: "stl_ok b" and best: "stl_best b s = Some p"
  shows "stl_nodes b s p \<noteq> []" and "stl_nodes b s p' \<noteq> [] \<Longrightarrow> \<not> better s (unat p') (unat p)"
proof -
  let ?ks = "RBT.keys (stl_levels b s)"
  have ne: "?ks \<noteq> []" and p: "p = (case s of BUY \<Rightarrow> last ?ks | SELL \<Rightarrow> hd ?ks)"
    using best by (auto simp: stl_best_def Let_def split: if_splits)
  have "p \<in> set ?ks" using p ne by (cases s) simp_all
  then show "stl_nodes b s p \<noteq> []" using stl_keys [OF ok] by blast
  assume "stl_nodes b s p' \<noteq> []"
  then have "p' \<in> set ?ks" using stl_keys [OF ok] by blast
  then show "\<not> better s (unat p') (unat p)"
    using sorted_ends [OF RBT.sorted_keys ne] p by (cases s) (auto simp: better_def word_le_nat_alt not_less)
qed

text \<open>\<open>stl_top\<close>: no occupied price beats \<open>p\<close>.\<close>

definition stl_top :: "stl_book \<Rightarrow> side \<Rightarrow> price \<Rightarrow> bool" where
  "stl_top b s p \<longleftrightarrow> (\<forall>p'. stl_nodes b s p' \<noteq> [] \<longrightarrow> \<not> better s (unat p') (unat p))"

lemma stl_best_top:
  assumes "stl_ok b" and "stl_top b s p" and "stl_nodes b s p \<noteq> []"
  shows "stl_best b s = Some p"
proof (cases "stl_best b s")
  case None
  then show ?thesis using stl_best_NoneD assms by blast
next
  case (Some x)
  note x = stl_best_SomeD [OF assms(1) Some]
  have "\<not> better s (unat x) (unat p)" "\<not> better s (unat p) (unat x)"
    using assms(2,3) x by (auto simp: stl_top_def)
  then have "unat x = unat p" by (cases s) (auto simp: better_def)
  then have "x = p" using word_unat_eq_iff by blast
  then show ?thesis using Some by simp
qed

section \<open>Changing one level\<close>

lemma stl_no_empty: "stl_ok b \<Longrightarrow> RBT.lookup (stl_levels b s) p \<noteq> Some []"
  by (simp add: stl_ok_def)

lemma stl_index: "stl_ok b \<Longrightarrow> n \<in> set (stl_nodes b s p) \<Longrightarrow> stl_id_index b (res_id (snd n)) = Some (s, p, fst n)"
  using stl_okD(4) [of b "res_id (snd n)" s p "fst n"] by blast

text \<open>An id is on at most one node.\<close>

lemma stl_unique:
  assumes ok: "stl_ok b" and n: "n \<in> set (stl_nodes b s p)" and m: "m \<in> set (stl_nodes b s' p')"
    and e: "res_id (snd n) = res_id (snd m)"
  shows "s = s'" and "p = p'" and "fst n = fst m"
proof -
  have "stl_id_index b (res_id (snd n)) = Some (s, p, fst n)" "stl_id_index b (res_id (snd n)) = Some (s', p', fst m)"
    using stl_index [OF ok n] stl_index [OF ok m] e by simp_all
  then show "s = s'" "p = p'" "fst n = fst m" by simp_all
qed

lemma stl_okI:
  assumes "\<And>s p. RBT.lookup (stl_levels b s) p \<noteq> Some []"
    and "\<And>s p. distinct (map fst (stl_nodes b s p))"
    and "\<And>s p n. n \<in> set (stl_nodes b s p) \<Longrightarrow> fst n < next_node b \<and> res_qty (snd n) \<noteq> 0"
    and "\<And>k s p a. stl_id_index b k = Some (s, p, a) \<longleftrightarrow> (\<exists>n \<in> set (stl_nodes b s p). fst n = a \<and> res_id (snd n) = k)"
  shows "stl_ok b"
  unfolding stl_ok_def using assms by blast

lemma stl_remove:
  assumes ok: "stl_ok b" and n: "n \<in> set (stl_nodes b s p)"
  defines "b' \<equiv> stl_unindex (res_id (snd n)) (shrink_level b s p (filter (\<lambda>m. fst m \<noteq> fst n) (stl_nodes b s p)))"
  shows "stl_ok b'"
proof (rule stl_okI)
  show "RBT.lookup (stl_levels b' s') p' \<noteq> Some []" for s' p'
    using stl_no_empty [OF ok, of s' p'] by (auto simp: b'_def shrink_level_def drop_level_def put_level_def)
  have nodes: "stl_nodes b' s' p' = (if s' = s \<and> p' = p then filter (\<lambda>m. fst m \<noteq> fst n) (stl_nodes b s p) else stl_nodes b s' p')" for s' p'
    by (simp add: b'_def)
  have idx: "stl_id_index b' = (stl_id_index b)(res_id (snd n) := None)" "next_node b' = next_node b"
    by (simp_all add: b'_def)
  show "distinct (map fst (stl_nodes b' s' p'))" for s' p'
    using stl_okD(2) [OF ok] by (simp add: nodes distinct_map_filter)
  show "m \<in> set (stl_nodes b' s' p') \<Longrightarrow> fst m < next_node b' \<and> res_qty (snd m) \<noteq> 0" for s' p' m
    using stl_okD(3) [OF ok, of m s' p'] by (auto simp: nodes idx split: if_splits)
  show "stl_id_index b' k = Some (s', p', a) \<longleftrightarrow> (\<exists>m \<in> set (stl_nodes b' s' p'). fst m = a \<and> res_id (snd m) = k)" for k s' p' a
  proof (cases "k = res_id (snd n)")
    case True
    have "res_id (snd m) \<noteq> k" if m: "m \<in> set (stl_nodes b' s' p')" for m
    proof
      assume "res_id (snd m) = k"
      moreover have "m \<in> set (stl_nodes b s' p')" using m by (auto simp: nodes split: if_splits)
      ultimately have "s = s'" "p = p'" "fst n = fst m" using stl_unique [OF ok n] True by metis+
      then show False using m by (simp add: nodes)
    qed
    then show ?thesis using True by (auto simp: idx)
  next
    case False
    have "m = n" if "m \<in> set (stl_nodes b s p)" "fst m = fst n" for m
      using stl_okD(2) [OF ok, of s p] n that by (simp add: distinct_map inj_on_def)
    then have "m \<in> set (stl_nodes b' s' p') \<longleftrightarrow> m \<in> set (stl_nodes b s' p')" if "res_id (snd m) = k" for m
      using False that by (simp add: nodes) blast
    then have "(\<exists>m \<in> set (stl_nodes b' s' p'). fst m = a \<and> res_id (snd m) = k) \<longleftrightarrow>
        (\<exists>m \<in> set (stl_nodes b s' p'). fst m = a \<and> res_id (snd m) = k)"
      by blast
    then show ?thesis using stl_okD(4) [OF ok, of k s' p' a] False by (simp add: idx)
  qed
qed

lemma stl_lower:
  assumes ok: "stl_ok b" and l: "stl_nodes b s p = (a, r) # l" and v: "v \<noteq> 0"
  shows "stl_ok (put_level b s p ((a, r\<lparr>res_qty := v\<rparr>) # l))" (is "stl_ok ?b")
proof (rule stl_okI)
  show "RBT.lookup (stl_levels ?b s') p' \<noteq> Some []" for s' p'
    using stl_no_empty [OF ok, of s' p'] by (auto simp: put_level_def)
  show "distinct (map fst (stl_nodes ?b s' p'))" for s' p'
    using stl_okD(2) [OF ok, of s' p'] l by (simp split: if_split) force
  show "m \<in> set (stl_nodes ?b s' p') \<Longrightarrow> fst m < next_node ?b \<and> res_qty (snd m) \<noteq> 0" for s' p' m
    using stl_okD(3) [OF ok, of m s' p'] stl_okD(3) [OF ok, of "(a, r)" s p] l v by (auto split: if_splits)
  show "stl_id_index ?b k = Some (s', p', a') \<longleftrightarrow> (\<exists>m \<in> set (stl_nodes ?b s' p'). fst m = a' \<and> res_id (snd m) = k)" for k s' p' a'
    using stl_okD(4) [OF ok, of k s' p' a'] l by (auto split: if_splits)
qed

lemma stl_push_back_simps:
  "stl_nodes (stl_push_back b k s p q) s' p' = (if s' = s \<and> p' = p
     then stl_nodes b s p @ [(next_node b, \<lparr>res_id = k, res_qty = q\<rparr>)] else stl_nodes b s' p')"
  "stl_id_index (stl_push_back b k s p q) = (stl_id_index b)(k \<mapsto> (s, p, next_node b))"
  "next_node (stl_push_back b k s p q) = next_node b + 1"
  by (auto simp: stl_push_back_def Let_def put_level_def stl_nodes_def)

lemma stl_push_back_ok:
  assumes ok: "stl_ok b" and k: "stl_id_index b k = None" and q: "q \<noteq> 0"
  shows "stl_ok (stl_push_back b k s p q)" (is "stl_ok ?b")
proof (rule stl_okI)
  note P = stl_push_back_simps
  show "RBT.lookup (stl_levels ?b s') p' \<noteq> Some []" for s' p'
    using stl_no_empty [OF ok, of s' p'] by (auto simp: stl_push_back_def Let_def put_level_def)
  have fresh: "next_node b \<notin> fst ` set (stl_nodes b s' p')" for s' p' using stl_okD(3) [OF ok] by fastforce
  show "distinct (map fst (stl_nodes ?b s' p'))" for s' p'
    using stl_okD(2) [OF ok] fresh by (simp add: P)
  show "m \<in> set (stl_nodes ?b s' p') \<Longrightarrow> fst m < next_node ?b \<and> res_qty (snd m) \<noteq> 0" for s' p' m
    using stl_okD(3) [OF ok, of m s' p'] q by (auto simp: P split: if_splits)
  show "stl_id_index ?b k' = Some (s', p', a) \<longleftrightarrow> (\<exists>m \<in> set (stl_nodes ?b s' p'). fst m = a \<and> res_id (snd m) = k')" for k' s' p' a
  proof (cases "k' = k")
    case True
    then have "\<not> (\<exists>m \<in> set (stl_nodes b s' p'). res_id (snd m) = k')"
      using stl_okD(4) [OF ok, of k s' p'] k by auto
    then show ?thesis using True by (auto simp: P)
  next
    case False
    then show ?thesis using stl_okD(4) [OF ok, of k' s' p' a] by (auto simp: P)
  qed
qed

section \<open>The matching loop is the sweep\<close>

text \<open>One turn of the loop pops the front of the level or lowers it.\<close>

lemma stl_fill_pops:
  assumes ok: "stl_ok b" and l: "stl_nodes b s p = (a, r) # l" and q: "res_qty r \<le> q"
  obtains b' where "stl_fill s p q b = Some (b', q - res_qty r)" "stl_ok b'"
    "\<And>s' p'. stl_nodes b' s' p' = (if s' = s \<and> p' = p then l else stl_nodes b s' p')"
proof
  let ?b = "stl_unindex (res_id r) (shrink_level b s p l)"
  have "RBT.lookup (stl_levels b s) p = Some ((a, r) # l)" using stl_okD(1) [OF ok, of s p] l by simp
  then show "stl_fill s p q b = Some (?b, q - res_qty r)" using q by (simp add: stl_fill_def min_def)
  have "filter (\<lambda>m. fst m \<noteq> a) l = l"
    using stl_okD(2) [OF ok, of s p] l by (auto simp: filter_id_conv)
  then show "stl_ok ?b" using stl_remove [OF ok, of "(a, r)" s p] l by simp
qed simp

lemma stl_fill_lowers:
  assumes ok: "stl_ok b" and l: "stl_nodes b s p = (a, r) # l" and q: "q < res_qty r"
  obtains b' where "stl_fill s p q b = Some (b', 0)" "stl_ok b'"
    "\<And>s' p'. stl_nodes b' s' p' = (if s' = s \<and> p' = p
       then (a, r\<lparr>res_qty := res_qty r - q\<rparr>) # l else stl_nodes b s' p')"
proof
  let ?b = "put_level b s p ((a, r\<lparr>res_qty := res_qty r - q\<rparr>) # l)"
  have "RBT.lookup (stl_levels b s) p = Some ((a, r) # l)" using stl_okD(1) [OF ok, of s p] l by simp
  moreover have "res_qty r - q \<noteq> 0" using q by simp
  ultimately show "stl_fill s p q b = Some (?b, 0)" "stl_ok ?b"
    using q stl_lower [OF ok l] by (simp_all add: stl_fill_def min_def)
qed simp

text \<open>The turns at the best price are \<open>fifo\<close> on its queue.\<close>

lemma stl_match_level:
  assumes "stl_ok b" and "stl_top b s p" and "crosses p" and "stl_depth b s p = os"
    and "fifo q os = (fs, rest, r)"
  shows "\<exists>b'. stl_match crosses s q b = stl_match crosses s r b' \<and> stl_ok b' \<and>
    (\<forall>s' p'. stl_depth b' s' p' = (if s' = s \<and> p' = p then rest else stl_depth b s' p'))"
  using assms
proof (induction q os arbitrary: b fs rest r rule: fifo.induct)
  case (1 q)
  then show ?case by (intro exI [of _ b]) auto
next
  case (2 q k v os)
  show ?case
  proof (cases "q = 0")
    case True
    then show ?thesis using 2(2-6) by (intro exI [of _ b]) auto
  next
    case False
    obtain a x l where n: "stl_nodes b s p = (a, x) # l" and x: "res_id x = k" "res_qty x = v" "node_views l = os"
      using 2(5) by (cases "stl_nodes b s p") (auto simp: stl_depth_def)
    have "stl_best b s = Some p" using stl_best_top [OF 2(2,3)] n by simp
    then have step: "stl_match crosses s q b = Option.bind (stl_fill s p q b) (\<lambda>(b, q). stl_match crosses s q b)"
      using False 2(4) by (subst stl_match.simps) (simp add: word_gt_0)
    show ?thesis
    proof (cases "v \<le> q")
      case True
      obtain b1 where b1: "stl_fill s p q b = Some (b1, q - v)" "stl_ok b1"
        "\<And>s' p'. stl_nodes b1 s' p' = (if s' = s \<and> p' = p then l else stl_nodes b s' p')"
        using stl_fill_pops [OF 2(2) n] x True by metis
      obtain gs where f: "fifo (q - v) os = (gs, rest, r)" using 2(6) True False by (auto split: prod.splits)
      have "stl_top b1 s p" using 2(3) n b1(3) by (auto simp: stl_top_def)
      moreover have "stl_depth b1 s p = os" using b1(3) x by (simp add: stl_depth_def)
      ultimately obtain b2 where "stl_match crosses s (q - v) b1 = stl_match crosses s r b2" "stl_ok b2"
        "\<And>s' p'. stl_depth b2 s' p' = (if s' = s \<and> p' = p then rest else stl_depth b1 s' p')"
        using 2(1) [OF False True b1(2) _ 2(4) _ f] by metis
      then show ?thesis using b1 step by (intro exI [of _ b2]) (simp add: stl_depth_def)
    next
      case False
      obtain b1 where "stl_fill s p q b = Some (b1, 0)" "stl_ok b1"
        "\<And>s' p'. stl_nodes b1 s' p' = (if s' = s \<and> p' = p
           then (a, x\<lparr>res_qty := res_qty x - q\<rparr>) # l else stl_nodes b s' p')"
        using stl_fill_lowers [OF 2(2) n] x False by (metis not_le)
      then show ?thesis using 2(6) False \<open>q \<noteq> 0\<close> step x by (intro exI [of _ b1]) (auto simp: stl_depth_def)
    qed
  qed
qed

text \<open>The levels of a window that starts at price \<open>B\<close>.\<close>

definition framed :: "nat \<Rightarrow> depth \<Rightarrow> stl_book \<Rightarrow> bool" where
  "framed B V b \<longleftrightarrow> (\<forall>s p. stl_depth b s p = (if B \<le> unat p then V s (unat p - B) else [])) \<and>
     (\<forall>s j. V s j \<noteq> [] \<longrightarrow> B + j < 4294967296)"

lemma framed_at:
  assumes "framed B V b" and "B + j < 4294967296"
  shows "stl_depth b s (of_nat (B + j)) = V s j"
  using assms by (simp add: framed_def unat_of_nat_u32 del: of_nat_add)

lemma framed_qput:
  assumes f: "framed B V b" and j: "B + j < 4294967296"
    and d: "\<And>s' p'. stl_depth b' s' p' = (if s' = s \<and> p' = of_nat (B + j) then l else stl_depth b s' p')"
  shows "framed B (qput V s j l) b'"
proof -
  have "p = of_nat (B + j) \<longleftrightarrow> B \<le> unat p \<and> unat p - B = j" for p :: u32
    using j unat_of_nat_u32 [OF j] by (metis add_diff_cancel_left' le_add1 le_add_diff_inverse u32_eq_of_nat)
  then show ?thesis using f j unfolding framed_def d by auto
qed

lemma stl_match_sweep:
  assumes "stl_ok b" and "framed B V b" and "sorted_wrt (better s) is"
    and "\<And>j. V s j \<noteq> [] \<Longrightarrow> crosses (of_nat (B + j)) \<longleftrightarrow> j \<in> set is"
    and "\<And>i j. V s j \<noteq> [] \<Longrightarrow> j \<notin> set is \<Longrightarrow> i \<in> set is \<Longrightarrow> better s i j"
  shows "\<exists>b'. stl_match crosses s q b = Some (b', snd (snd (sweep s is q V))) \<and> stl_ok b' \<and>
    framed B (fst (snd (sweep s is q V))) b'"
  using assms
proof (induction "is" arbitrary: q V b)
  case Nil
  note t = Nil.prems
  have "\<not> crosses p" if "stl_best b s = Some p" for p
  proof -
    have "stl_depth b s p \<noteq> []" using stl_best_SomeD(1) [OF t(1) that] by (simp add: stl_depth_empty)
    then have "B \<le> unat p" "V s (unat p - B) \<noteq> []" using t(2) by (auto simp: framed_def split: if_splits)
    then show ?thesis using t(4) [of "unat p - B"] by simp
  qed
  then have "stl_match crosses s q b = Some (b, q)"
    by (subst stl_match.simps) (auto split: option.split)
  then show ?case using t(1,2) by simp
next
  case (Cons i "is")
  note t = Cons.prems
  show ?case
  proof (cases "V s i = []")
    case True
    then have "sweep s (i # is) q V = sweep s is q V" using sweep_empty(1) [of "[i]" V s "is" q] by simp
    moreover have "\<exists>b'. stl_match crosses s q b = Some (b', snd (snd (sweep s is q V))) \<and> stl_ok b' \<and>
        framed B (fst (snd (sweep s is q V))) b'"
    proof (rule Cons.IH [OF t(1,2)])
      show "V s j \<noteq> [] \<Longrightarrow> crosses (of_nat (B + j)) \<longleftrightarrow> j \<in> set is" for j using t(4) [of j] True by auto
      show "V s j \<noteq> [] \<Longrightarrow> j \<notin> set is \<Longrightarrow> k \<in> set is \<Longrightarrow> better s k j" for k j
        using t(5) [of j k] True by auto
    qed (use t(3) in simp)
    ultimately show ?thesis by simp
  next
    case False
    let ?p = "of_nat (B + i) :: u32"
    have i: "B + i < 4294967296" using t(2) False unfolding framed_def by blast
    obtain fs rest r where f: "fifo q (V s i) = (fs, rest, r)" by (metis surj_pair)
    have "stl_top b s ?p"
      unfolding stl_top_def
    proof (intro allI impI)
      fix p' assume "stl_nodes b s p' \<noteq> []"
      then have "stl_depth b s p' \<noteq> []" by (simp add: stl_depth_empty)
      then have p': "B \<le> unat p'" "V s (unat p' - B) \<noteq> []" using t(2) by (auto simp: framed_def split: if_splits)
      then have "unat p' - B = i \<or> better s i (unat p' - B)"
        using t(3) t(5) [of "unat p' - B" i] by auto
      then show "\<not> better s (unat p') (unat ?p)"
        using p' i by (cases s) (auto simp: better_def unat_of_nat_u32 simp del: of_nat_add)
    qed
    moreover have "crosses ?p" using t(4) [OF False] by simp
    ultimately obtain b1 where b1: "stl_match crosses s q b = stl_match crosses s r b1" "stl_ok b1"
      "\<And>s' p'. stl_depth b1 s' p' = (if s' = s \<and> p' = ?p then rest else stl_depth b s' p')"
      using stl_match_level [OF t(1) _ _ framed_at [OF t(2) i] f] by metis
    have fr: "framed B (qput V s i rest) b1" by (rule framed_qput [OF t(2) i b1(3)])
    have sw: "snd (sweep s (i # is) q V) = snd (sweep s is r (qput V s i rest))" by (simp add: f split_beta)
    show ?thesis
    proof (cases "rest = []")
      case True
      have ne: "qput V s i rest s j \<noteq> [] \<Longrightarrow> V s j \<noteq> [] \<and> j \<noteq> i" for j using True by (auto split: if_splits)
      have "\<exists>b'. stl_match crosses s r b1 = Some (b', snd (snd (sweep s is r (qput V s i rest)))) \<and> stl_ok b' \<and>
          framed B (fst (snd (sweep s is r (qput V s i rest)))) b'"
      proof (rule Cons.IH [OF b1(2) fr])
        show "crosses (of_nat (B + j)) \<longleftrightarrow> j \<in> set is" if "qput V s i rest s j \<noteq> []" for j
          using t(4) [OF conjunct1 [OF ne [OF that]]] ne [OF that] by simp
        show "better s k j" if "qput V s i rest s j \<noteq> []" "j \<notin> set is" "k \<in> set is" for k j
          using t(5) [of j k] ne [OF that(1)] that by simp
      qed (use t(3) in simp)
      then show ?thesis unfolding sw b1(1) .
    next
      case False
      then have r: "r = 0" using fifo_rest [of q "V s i"] f by simp
      have "stl_match crosses s 0 b1 = Some (b1, 0)" by (subst stl_match.simps) simp
      then show ?thesis using b1(2) fr unfolding sw b1(1) r sweep_0 snd_conv fst_conv by blast
    qed
  qed
qed

end
