(* ===== verification/Baseline_Agreement.thy ===== *)
theory Baseline_Agreement
  imports Operation_Theorems Stl_Baseline
begin

text \<open>
  The optimised book against the textbook book: as long as the price window does not move, no
  price lies outside it and the pool has room, the two answer every insertion alike and hold
  the same orders, in the same order and with the same quantities, at every price.
\<close>

section \<open>Operations of the textbook book on a framed depth\<close>

lemma stl_index_None:
  assumes "stl_ok t"
  shows "stl_id_index t k = None \<longleftrightarrow> (\<forall>s p. k \<notin> fst ` set (stl_depth t s p))"
proof -
  have "k \<in> fst ` set (stl_depth t s p) \<longleftrightarrow> (\<exists>n \<in> set (stl_nodes t s p). res_id (snd n) = k)" for s p
    by (auto simp: stl_depth_def node_views_def image_iff)
  moreover have "stl_id_index t k \<noteq> None \<longleftrightarrow> (\<exists>s p. \<exists>n \<in> set (stl_nodes t s p). res_id (snd n) = k)"
    using stl_okD(4) [OF assms, of k] by (metis not_None_eq surj_pair)
  ultimately show ?thesis by blast
qed

lemma framed_fresh: "framed B V t \<Longrightarrow> (\<And>s j. k \<notin> fst ` set (V s j)) \<Longrightarrow> k \<notin> fst ` set (stl_depth t s p)"
  by (cases "B \<le> unat p") (simp_all add: framed_def)

lemma sweep_fresh: "(\<And>s j. k \<notin> fst ` set (V s j)) \<Longrightarrow> k \<notin> fst ` set (fst (snd (sweep s is q V)) s' j)"
  using sweep_ids [of k _ s "is" q V s' j] by force

text \<open>The levels a limit order sweeps, in the order the ordered map yields them.\<close>

lemma better_up: "sorted_wrt (better SELL) [i..<j]"
  using sorted_wrt_upt [of i j] by (rule sorted_wrt_mono_rel [rotated]) (simp add: better_def)

lemma better_down: "sorted_wrt (better BUY) (rev [i..<j])"
  unfolding sorted_wrt_rev
  using sorted_wrt_upt [of i j] by (rule sorted_wrt_mono_rel [rotated]) (simp add: better_def)

lemma ladder_sorted: "sorted_wrt (better (opp s)) (ladder b s i)"
  by (cases s) (simp_all only: ladder_def opp_def side.case better_up better_down)

lemma ladder_crosses:
  assumes "tob_exact b (opp s)" and "depth b (opp s) j \<noteq> []"
  shows "j \<in> set (ladder b s i) \<longleftrightarrow> \<not> better (opp s) i j"
    and "j \<notin> set (ladder b s i) \<Longrightarrow> i' \<in> set (ladder b s i) \<Longrightarrow> better (opp s) i' j"
proof -
  have n: "best b (opp s) \<noteq> NULL_IDX" "\<not> better (opp s) j (unat (best b (opp s)))"
    using assms by (auto simp: tob_exact_def)
  show "j \<in> set (ladder b s i) \<longleftrightarrow> \<not> better (opp s) i j"
    using n by (cases s) (auto simp: ladder_def opp_def better_def bid_top_def)
  show "j \<notin> set (ladder b s i) \<Longrightarrow> i' \<in> set (ladder b s i) \<Longrightarrow> better (opp s) i' j"
    using n by (cases s) (auto simp: ladder_def opp_def better_def bid_top_def)
qed

definition crossing :: "side \<Rightarrow> price \<Rightarrow> price \<Rightarrow> bool" where
  "crossing s p x \<longleftrightarrow> (case s of BUY \<Rightarrow> x \<le> p | SELL \<Rightarrow> x \<ge> p)"

lemma stl_insert_crossing:
  "stl_insert_limit_order t k s p q = do {
     (t, q) \<leftarrow> stl_match (crossing s p) (opp s) q t;
     Some (if q > 0 then (stl_push_back t k s p q, True) else (t, False)) }"
  by (induction s) (simp_all add: stl_insert_limit_order_def crossing_def [abs_def] opp_def)

lemma crossing_index:
  assumes "B + j < 4294967296" and "B \<le> unat p"
  shows "crossing s p (of_nat (B + j)) \<longleftrightarrow> \<not> better (opp s) (unat p - B) j"
  using assms unat_of_nat_u32 [OF assms(1)]
  by (cases s) (auto simp: crossing_def better_def opp_def word_le_nat_alt simp del: of_nat_add)

lemma stl_insert_framed:
  assumes ok: "stl_ok t" and f: "framed B (depth b) t" and B: "B \<le> unat p"
    and ex: "tob_exact b (opp s)" and k: "\<And>s j. k \<notin> fst ` set (depth b s j)"
    and W: "sweep (opp s) (ladder b s (unat p - B)) q (depth b) = (fs, W, r)"
  shows "\<exists>t'. stl_insert_limit_order t k s p q = Some (t', r \<noteq> 0) \<and> stl_ok t' \<and>
    framed B (if r \<noteq> 0 then qput W s (unat p - B) (W s (unat p - B) @ [(k, r)]) else W) t'"
proof -
  let ?i = "unat p - B"
  have "\<exists>t1. stl_match (crossing s p) (opp s) q t =
      Some (t1, snd (snd (sweep (opp s) (ladder b s ?i) q (depth b)))) \<and> stl_ok t1 \<and>
      framed B (fst (snd (sweep (opp s) (ladder b s ?i) q (depth b)))) t1"
  proof (rule stl_match_sweep [OF ok f ladder_sorted])
    show "crossing s p (of_nat (B + j)) \<longleftrightarrow> j \<in> set (ladder b s ?i)" if "depth b (opp s) j \<noteq> []" for j
    proof -
      have "B + j < 4294967296" using f that unfolding framed_def by blast
      then show ?thesis using crossing_index [OF _ B] ladder_crosses(1) [OF ex that] by blast
    qed
  qed (rule ladder_crosses(2) [OF ex])
  then obtain t1 where t1: "stl_match (crossing s p) (opp s) q t = Some (t1, r)" "stl_ok t1" "framed B W t1"
    unfolding W by auto
  show ?thesis
  proof (cases "r = 0")
    case True
    then show ?thesis using t1 by (simp add: stl_insert_crossing)
  next
    case False
    have "k \<notin> fst ` set (W s' j)" for s' j
      using sweep_fresh [of k "depth b" "opp s" "ladder b s ?i" q s' j, OF k] W by simp
    then have "stl_id_index t1 k = None" using stl_index_None [OF t1(2)] framed_fresh [OF t1(3)] by blast
    from stl_push_back_ok [OF t1(2) this False]
    have ok2: "stl_ok (stl_push_back t1 k s p r)" .
    have p: "of_nat (B + ?i) = p" "B + ?i < 4294967296" using B unsigned_less [of p] by simp_all
    have "framed B (qput W s ?i (stl_depth t1 s p @ [(k, r)])) (stl_push_back t1 k s p r)"
      by (rule framed_qput [OF t1(3) p(2)]) (simp add: p(1) stl_depth_def stl_push_back_simps del: of_nat_add)
    moreover have "stl_depth t1 s p = W s ?i" using framed_at [OF t1(3) p(2), of s] unfolding p(1) .
    ultimately show ?thesis using t1(1) ok2 False by (simp add: stl_insert_crossing word_gt_0)
  qed
qed

lemma stl_cancel_framed:
  assumes ok: "stl_ok t" and f: "framed B V t"
  shows "\<exists>t'. stl_cancel_order t k = Some (t', stl_id_index t k \<noteq> None) \<and> stl_ok t' \<and> framed B (drop_id k V) t'"
proof (cases "stl_id_index t k")
  case None
  have "drop_id k V s j = V s j" for s j
  proof (cases "V s j = []")
    case False
    then have "B + j < 4294967296" using f unfolding framed_def by blast
    then have "k \<notin> fst ` set (V s j)"
      using framed_at [OF f] stl_index_None [OF ok] None by metis
    then show ?thesis by (auto simp: drop_id_def filter_id_conv)
  qed (simp add: drop_id_def)
  then have "drop_id k V = V" by (intro ext)
  then show ?thesis using None ok f by (simp add: stl_cancel_order_def)
next
  case (Some x)
  obtain s p a where x: "x = (s, p, a)" by (cases x)
  obtain n where n: "n \<in> set (stl_nodes t s p)" "fst n = a" "res_id (snd n) = k"
    using stl_okD(4) [OF ok, of k s p a] Some x by auto
  let ?l = "filter (\<lambda>m. fst m \<noteq> a) (stl_nodes t s p)"
  let ?t = "stl_unindex k (shrink_level t s p ?l)"
  have "RBT.lookup (stl_levels t s) p = Some (stl_nodes t s p)" using stl_okD(1) [OF ok, of s p] n by auto
  then have run: "stl_cancel_order t k = Some (?t, True)"
    using n by (auto simp: stl_cancel_order_def Some x image_iff)
  have same: "fst m = a \<longleftrightarrow> res_id (snd m) = k" if "m \<in> set (stl_nodes t s p)" for m
    using stl_index [OF ok that] stl_unique(3) [OF ok n(1) that] n stl_okD(2) [OF ok, of s p] that
    by (metis distinct_map inj_onD)
  have other: "res_id (snd m) \<noteq> k" if "m \<in> set (stl_nodes t s' p')" "\<not> (s' = s \<and> p' = p)" for m s' p'
    using stl_unique [OF ok n(1) that(1)] n that(2) by metis
  have d: "stl_depth ?t s' p' = filter (\<lambda>kv. fst kv \<noteq> k) (stl_depth t s' p')" for s' p'
  proof (cases "s' = s \<and> p' = p")
    case True
    have "?l = filter (\<lambda>m. res_id (snd m) \<noteq> k) (stl_nodes t s p)" using same by (intro filter_cong) auto
    then show ?thesis using True by (simp add: stl_depth_def node_views_def filter_map comp_def)
  next
    case False
    have "filter (\<lambda>m. res_id (snd m) \<noteq> k) (stl_nodes t s' p') = stl_nodes t s' p'"
      using other [OF _ False] by (simp add: filter_id_conv)
    then show ?thesis using False by (auto simp: stl_depth_def node_views_def filter_map comp_def)
  qed
  have "framed B (drop_id k V) ?t"
    using f unfolding framed_def d by (auto simp: drop_id_def) (metis filter.simps(1))
  then show ?thesis using run stl_remove [OF ok n(1)] n Some by simp
qed

section \<open>The two books side by side\<close>

text \<open>A call and its answer; only \<open>insert_limit_order\<close> answers in both programs.\<close>

fun book_call :: "(nat \<Rightarrow> u64) \<Rightarrow> order_book \<Rightarrow> book_op \<Rightarrow> (order_book \<times> bool option) option" where
  "book_call clk b (Insert k s p q) = map_option (map_prod id Some) (insert_limit_order clk b k s p q)"
| "book_call clk b op = map_option (\<lambda>b. (b, None)) (book_do clk b op)"

fun stl_call :: "stl_book \<Rightarrow> book_op \<Rightarrow> (stl_book \<times> bool option) option" where
  "stl_call t (Insert k s p q) = map_option (map_prod id Some) (stl_insert_limit_order t k s p q)"
| "stl_call t (Cancel k) = map_option (\<lambda>(t, _). (t, None)) (stl_cancel_order t k)"
| "stl_call t (Market s q) = map_option (\<lambda>t. (t, None)) (stl_process_market_order t s q)"
| "stl_call t _ = None"

primrec run_calls :: "('b \<Rightarrow> book_op \<Rightarrow> ('b \<times> 'a) option) \<Rightarrow> 'b \<Rightarrow> book_op list \<Rightarrow> ('b \<times> 'a list) option" where
  "run_calls f b [] = Some (b, [])"
| "run_calls f b (op # ops) = do {
     (b, a) \<leftarrow> f b op;
     (b, answers) \<leftarrow> run_calls f b ops;
     Some (b, a # answers)
   }"

text \<open>The calls both books have, while the price is in the window and a slot is free.\<close>

fun plain :: "order_book \<Rightarrow> book_op \<Rightarrow> bool" where
  "plain b (Insert k s p q) \<longleftrightarrow>
     in_band (anchored b p) (to_idx (anchored b p) p) \<and> free_head (pool b) \<noteq> NULL_IDX"
| "plain b (Cancel k) \<longleftrightarrow> True"
| "plain b (Market s q) \<longleftrightarrow> True"
| "plain b _ \<longleftrightarrow> False"

definition agree :: "order_book \<Rightarrow> stl_book \<Rightarrow> bool" where
  "agree b t \<longleftrightarrow> stl_ok t \<and> framed (unat (base b)) (depth b) t"

lemma book_do_call: "book_do clk b op = map_option fst (book_call clk b op)"
  by (cases op) (simp_all add: option.map_comp comp_def option.map_ident)

lemma plain_steady: "plain b op \<Longrightarrow> \<not> moves_window b op"
  by (cases op) simp_all

lemma free_slot_exists:
  assumes "book_ok b" and "free_head (pool b) \<noteq> NULL_IDX"
  shows "free_list (pool b) \<noteq> []"
proof -
  have "chain (nxt (pool b)) (free_head (pool b)) (free_list (pool b))"
    using linksD(2) [OF book_okD(2) [OF assms(1)]] by (simp add: free_rep_def)
  then show ?thesis using assms(2) by (cases "free_list (pool b)") simp_all
qed

text \<open>Before the first insertion the base is arbitrary, since nothing rests.\<close>

lemma anchored_agree: "anchor_ok b \<Longrightarrow> agree b t \<Longrightarrow> agree (anchored b p) t"
  by (auto simp: anchored_def anchor_ok_def agree_def framed_def)

lemma agree_insert:
  assumes h: "healthy n m K b" and od: "orderly b" and k: "k \<in> K" "\<not> resting b k"
    and pl: "plain b (Insert k s p q)" and ag: "agree b t"
  shows "\<exists>b' t' a. insert_limit_order clk b k s p q = Some (b', a) \<and>
    stl_insert_limit_order t k s p q = Some (t', a) \<and> agree b' t'"
proof -
  note h' = healthyD [OF h]
  let ?b = "anchored b p"
  let ?i = "unat p - unat (base ?b)"
  obtain b2 b' rests where run: "insert_limit_order clk b k s p q = Some (b', rests)" "windowed b p b2"
    and c: "in_band b2 (to_idx b2 p) \<Longrightarrow>
       placed clk b2 k s (unat p - unat (base b2)) q b' rests \<and> carried b2 k b'"
    using insert_limit_order_correct [OF h'(1) healthy_room(1) [OF h k], of clk k s p q] by metis
  have b2: "b2 = ?b" using run(2) pl by (simp add: windowed_def)
  obtain fs W r where W: "sweep (opp s) (ladder ?b s ?i) q (depth ?b) = (fs, W, r)" by (metis surj_pair)
  have fr: "free_list (pool ?b) \<noteq> []" using free_slot_exists [OF h'(2)] pl by (simp add: anchored_def)
  have "placed clk ?b k s ?i q b' rests" "carried ?b k b'" using c pl by (simp_all add: b2)
  then have b': "depth b' = (if r \<noteq> 0 then qput W s ?i (W s ?i @ [(k, r)]) else W)" "rests \<longleftrightarrow> r \<noteq> 0" "base b' = base ?b"
    using W fr by (auto simp: placed_def carried_def)
  have "unat (base ?b) \<le> unat p" using pl by (simp add: in_band_def to_idx_def del: of_nat_unat)
  moreover have "tob_exact ?b (opp s)" using od by (simp add: orderly_def)
  moreover have "k \<notin> fst ` set (depth ?b s j)" for s j using k(2) by (auto simp: resting_def)
  moreover have "agree ?b t" by (rule anchored_agree [OF h'(8) ag])
  ultimately have "\<exists>t'. stl_insert_limit_order t k s p q = Some (t', r \<noteq> 0) \<and> stl_ok t' \<and>
      framed (unat (base ?b)) (if r \<noteq> 0 then qput W s ?i (W s ?i @ [(k, r)]) else W) t'"
    by (intro stl_insert_framed [OF _ _ _ _ _ W]) (unfold agree_def, blast+)
  then show ?thesis using run(1) b' by (auto simp: agree_def)
qed

lemma agree_cancel:
  assumes h: "healthy n m K b" and ag: "agree b t"
  shows "\<exists>b' t' a. cancel_order b k = Some b' \<and> stl_cancel_order t k = Some (t', a) \<and> agree b' t'"
proof -
  note h' = healthyD [OF h]
  obtain t' where t': "stl_cancel_order t k = Some (t', stl_id_index t k \<noteq> None)" "stl_ok t'"
    "framed (unat (base b)) (drop_id k (depth b)) t'"
    using stl_cancel_framed ag unfolding agree_def by metis
  show ?thesis
  proof (cases "content (ids b) k")
    case None
    then have "k \<notin> fst ` set (depth b s i)" for s i using index_ok_ids [OF h'(3)] by blast
    then have "drop_id k (depth b) s i = depth b s i" for s i
      by (force simp: drop_id_def filter_id_conv)
    then have "drop_id k (depth b) = depth b" by (intro ext)
    then show ?thesis using cancel_unknown [OF h'(3) None] t' by (simp add: agree_def)
  next
    case (Some x)
    obtain b' where "cancel_order b k = Some b'" "edited b (drop_id k (depth b)) b'"
      using cancel_known [OF h'(2,3,4) Some] by metis
    then show ?thesis using t' editedD(2,5) by (simp add: agree_def)
  qed
qed

text \<open>A market order sweeps every level.\<close>

lemma stl_market_framed:
  assumes "agree b t" and "sorted_wrt (better s) is" and "\<And>j. depth b s j \<noteq> [] \<Longrightarrow> j \<in> set is"
    and o: "outcome clk 0 b (fst (sweep s is q (depth b))) (fst (snd (sweep s is q (depth b)))) ks b'"
  shows "\<exists>t' r. stl_match (\<lambda>_. True) s q t = Some (t', r) \<and> agree b' t'"
proof -
  have "\<exists>t'. stl_match (\<lambda>_. True) s q t = Some (t', snd (snd (sweep s is q (depth b)))) \<and> stl_ok t' \<and>
      framed (unat (base b)) (fst (snd (sweep s is q (depth b)))) t'"
    by (rule stl_match_sweep) (use assms(1-3) in \<open>auto simp: agree_def\<close>)
  then show ?thesis using outcomeD(2,6) [OF o] by (auto simp: agree_def)
qed

lemma agree_market:
  assumes h: "healthy n m K b" and od: "orderly b" and ag: "agree b t"
  shows "\<exists>b' t'. process_market_order clk b s q = Some b' \<and> stl_process_market_order t s q = Some t' \<and> agree b' t'"
proof -
  note h' = healthyD [OF h]
  have ex: "tob_exact b s" for s using od by (simp add: orderly_def)
  show ?thesis
  proof (cases s)
    case BUY
    obtain b' where r: "process_market_order clk b BUY q = Some b'"
      "outcome clk 0 b (fst (sweep SELL [unat (best b SELL)..<band b] q (depth b)))
        (fst (snd (sweep SELL [unat (best b SELL)..<band b] q (depth b))))
        (sweep_dead SELL [unat (best b SELL)..<band b] q (depth b)) b'"
      using market_buy [OF h'(2,4)] by metis
    have "j \<in> set [unat (best b SELL)..<band b]" if "depth b SELL j \<noteq> []" for j
      using ex [of SELL] that book_okD(5) [OF h'(2), of j SELL] by (force simp: tob_exact_def better_def not_less)
    from stl_market_framed [OF ag better_up this r(2)] show ?thesis
      using r(1) BUY by (auto simp: stl_process_market_order_def)
  next
    case SELL
    obtain b' where r: "process_market_order clk b SELL q = Some b'"
      "outcome clk 0 b (fst (sweep BUY (rev [0..<bid_top b]) q (depth b)))
        (fst (snd (sweep BUY (rev [0..<bid_top b]) q (depth b))))
        (sweep_dead BUY (rev [0..<bid_top b]) q (depth b)) b'"
      using market_sell [OF h'(2,4)] by metis
    have "j \<in> set (rev [0..<bid_top b])" if "depth b BUY j \<noteq> []" for j
      using ex [of BUY] that by (force simp: tob_exact_def better_def bid_top_def not_less)
    from stl_market_framed [OF ag better_down this r(2)] show ?thesis
      using r(1) SELL by (auto simp: stl_process_market_order_def)
  qed
qed

lemma agree_call:
  assumes "healthy n m K b" and "orderly b" and "op_ok K b op" and "plain b op" and "agree b t"
  shows "\<exists>b' t' a. book_call clk b op = Some (b', a) \<and> stl_call t op = Some (t', a) \<and> agree b' t'"
proof (cases op)
  case (Insert k s p q)
  obtain b' t' a where "insert_limit_order clk b k s p q = Some (b', a)"
    "stl_insert_limit_order t k s p q = Some (t', a)" "agree b' t'"
    using agree_insert [OF assms(1,2) _ _ assms(4) [unfolded Insert] assms(5)] assms(3) Insert by fastforce
  then show ?thesis using Insert by simp
next
  case (Cancel k)
  then show ?thesis using agree_cancel [OF assms(1,5), of k] by auto
next
  case (Market s q)
  then show ?thesis using agree_market [OF assms(1,2,5), of clk s q] by auto
qed (use assms(4) in auto)

lemma agree_run:
  assumes "healthy n m (set ks) b" and "orderly b" and "ops_ok ks plain clk b ops" and "agree b t"
  shows "\<exists>b' t' answers. run_calls (book_call clk) b ops = Some (b', answers) \<and>
    run_calls stl_call t ops = Some (t', answers) \<and> agree b' t'"
  using assms
proof (induction ops arbitrary: b t)
  case (Cons op ops)
  note t = Cons.prems
  have ok: "op_ok (set ks) b op" using t(3) not_resting [OF healthyD(3) [OF t(1)]] by (cases op) auto
  have pl: "plain b op" using t(3) by simp
  obtain b' t' a where r: "book_call clk b op = Some (b', a)" "stl_call t op = Some (t', a)" "agree b' t'"
    using agree_call [OF t(1,2) ok pl t(4)] by blast
  then have d: "book_do clk b op = Some b'" by (simp add: book_do_call)
  have "healthy n m (set ks) b'" using healthy_do [OF t(1) ok, of clk] d by (metis option.inject)
  moreover have "orderly b'" by (rule orderly_do [OF t(1,2) ok plain_steady [OF pl] d])
  moreover have "ops_ok ks plain clk b' ops" using t(3) d by simp
  ultimately show ?case using Cons.IH r by fastforce
qed simp

lemma stl_new_ok: "stl_ok stl_new" "stl_depth stl_new s p = []"
  by (simp_all add: stl_new_def stl_ok_def stl_depth_def stl_nodes_def)

text \<open>
  C12: a list of insertions, cancels and market orders, from the empty books on (with a band of 1
  to 2 ^ 32 - 1 levels and a pool of 1 to 2 ^ 30 slots), in which the inserted ids come from a
  collision-free set, and each insertion meets its id not in the id table, its price inside the
  window and a free slot in the pool.  No call is assumed to return.
  The optimised book and the textbook book (\<open>std::map\<close> of \<open>std::list\<close>s) both process
  the whole list, give the same answers to the insertions, and end with the same queue, in order
  and with the same quantities, at every side and price.
\<close>

theorem book_agrees_with_the_baseline:
  assumes "0 < n" and "n \<le> 4294967295" and "0 < m" and "m \<le> 1073741824"
    and "collision_free m (set ks)" and "book_new n m = Some b0" and "ops_ok ks plain clk b0 ops"
  shows "\<exists>b t answers. run_calls (book_call clk) b0 ops = Some (b, answers) \<and>
    run_calls stl_call stl_new ops = Some (t, answers) \<and>
    (\<forall>s p. at_price b s (unat p) = stl_depth t s p)"
proof -
  have b0: "healthy n m (set ks) b0" "\<forall>s i. depth b0 s i = []" "\<forall>s. tob_exact b0 s"
    using healthy_new [OF assms(1-5)] assms(6) by (metis option.inject)+
  have "orderly b0" using b0 by (simp add: orderly_def uncrossed_def)
  moreover have "agree b0 stl_new" using b0(2) by (simp add: agree_def framed_def stl_new_ok)
  ultimately show ?thesis
    using agree_run [OF b0(1) _ assms(7)] by (fastforce simp: agree_def framed_def at_price_def)
qed

theorem book_agrees_with_the_baseline_witness:
  "\<exists>b t answers. run_calls (book_call demo_clk) demo_start
      [Insert 1 BUY 100 5, Insert 2 SELL 102 7, Insert 3 BUY 102 4, Cancel 1, Market BUY 1] = Some (b, answers) \<and>
    run_calls stl_call stl_new
      [Insert 1 BUY 100 5, Insert 2 SELL 102 7, Insert 3 BUY 102 4, Cancel 1, Market BUY 1] = Some (t, answers) \<and>
    at_price b SELL (unat (102 :: price)) = stl_depth t SELL 102"
proof -
  let ?ops = "[Insert 1 BUY 100 5, Insert 2 SELL 102 7, Insert 3 BUY 102 4, Cancel 1, Market BUY 1]"
  have "ops_ok demo_ids plain demo_clk demo_start ?ops" by code_simp
  then show ?thesis
    using book_agrees_with_the_baseline [OF _ _ _ _ demo_free demo_start_ok(1)] by fastforce
qed

section \<open>The textbook book alone\<close>

text \<open>The loop returns; it leaves no crossing level unless the taker is filled.\<close>

lemma stl_match_total:
  assumes ok: "stl_ok t" and cl: "\<And>x y. crosses x \<Longrightarrow> better s (unat y) (unat x) \<Longrightarrow> crosses y"
  obtains t' r where "stl_match crosses s q t = Some (t', r)" "stl_ok t'"
    "\<And>p. r \<noteq> 0 \<Longrightarrow> crosses p \<Longrightarrow> stl_depth t' s p = []"
    "\<And>s' p. stl_depth t' s' p \<noteq> [] \<Longrightarrow> stl_depth t s' p \<noteq> []"
    "\<And>k. stl_id_index t k = None \<Longrightarrow> stl_id_index t' k = None"
proof -
  obtain N :: nat where N: "N = 4294967296" by simp
  have wd1: "unat (p :: u32) < N" for p
    using unsigned_less [of p] by (simp add: N)
  have wd2: "unat (of_nat j :: u32) = j \<longleftrightarrow> j < N" for j
    using wd1 [of "of_nat j"] unat_of_nat_u32 [of j] unfolding N by metis
  note wd = wd1 wd2
  define V where "V s j = (if j < N then stl_depth t s (of_nat j) else [])" for s j
  define js where "js = filter (\<lambda>j. crosses (of_nat j)) [0..<N]"
  define lvls where "lvls = (case s of BUY \<Rightarrow> rev js | SELL \<Rightarrow> js)"
  have in_lvls: "j \<in> set lvls \<longleftrightarrow> j < N \<and> crosses (of_nat j)" for j by (cases s) (auto simp: lvls_def js_def)
  have f: "framed 0 V t"
    using wd(1) by (auto simp: framed_def V_def N)
  have "sorted_wrt (better s) lvls"
    using sorted_wrt_filter [OF better_up] sorted_wrt_filter [OF better_down]
    by (cases s) (simp_all add: lvls_def js_def rev_filter)
  moreover have "crosses (of_nat (0 + j)) \<longleftrightarrow> j \<in> set lvls" if "V s j \<noteq> []" for j
    using that by (auto simp: in_lvls V_def split: if_splits)
  moreover have "better s i j" if "V s j \<noteq> []" "j \<notin> set lvls" "i \<in> set lvls" for i j
  proof -
    have j: "j < N" "\<not> crosses (of_nat j)" "i < N" "crosses (of_nat i)"
      using that by (auto simp: in_lvls V_def split: if_splits)
    have "unat (of_nat i :: u32) = i" "unat (of_nat j :: u32) = j" using wd(2) j by blast+
    then have "\<not> better s j i" "i \<noteq> j" using cl [OF j(4), of "of_nat j"] j(2,4) by metis+
    then show ?thesis by (cases s) (auto simp: better_def)
  qed
  ultimately obtain t' where t': "stl_match crosses s q t = Some (t', snd (snd (sweep s lvls q V)))" "stl_ok t'"
    "framed 0 (fst (snd (sweep s lvls q V))) t'"
    using stl_match_sweep [OF ok f, of s lvls crosses q] by blast
  have d: "stl_depth t' s' p = fst (snd (sweep s lvls q V)) s' (unat p)" for s' p using t'(3) by (simp add: framed_def)
  have old: "stl_depth t s' p = V s' (unat p)" for s' p using f by (simp add: framed_def)
  show ?thesis
  proof (rule that [OF t'(1,2)])
    show "stl_depth t' s p = []" if "snd (snd (sweep s lvls q V)) \<noteq> 0" "crosses p" for p
      using sweep_rest [OF that(1)] that(2) wd(1) by (simp add: d in_lvls)
    show "stl_depth t' s' p \<noteq> [] \<Longrightarrow> stl_depth t s' p \<noteq> []" for s' p
      unfolding d old by (rule sweep_nonempty)
    show "stl_id_index t' k = None" if "stl_id_index t k = None" for k
    proof -
      have "k \<notin> fst ` set (V s' j)" for s' j
        using that stl_index_None [OF ok] by (cases "j < N") (simp_all add: V_def)
      then have "k \<notin> fst ` set (stl_depth t' s' p)" for s' p unfolding d by (rule sweep_fresh)
      then show ?thesis using stl_index_None [OF t'(2)] by blast
    qed
  qed
qed

definition stl_uncrossed :: "stl_book \<Rightarrow> bool" where
  "stl_uncrossed t \<longleftrightarrow> (\<forall>x y. stl_depth t BUY x \<noteq> [] \<and> stl_depth t SELL y \<noteq> [] \<longrightarrow> x < y)"

text \<open>What a caller must respect, and nothing about prices: an id on the book is not inserted again.\<close>

fun stl_ops_ok :: "stl_book \<Rightarrow> book_op list \<Rightarrow> bool" where
  "stl_ops_ok t [] \<longleftrightarrow> True"
| "stl_ops_ok t (op # ops) \<longleftrightarrow>
     (case op of Insert k s p q \<Rightarrow> stl_id_index t k = None | Cancel k \<Rightarrow> True | Market s q \<Rightarrow> True | _ \<Rightarrow> False) \<and>
     (case stl_call t op of None \<Rightarrow> True | Some (t', _) \<Rightarrow> stl_ops_ok t' ops)"

lemma stl_uncrossed_shrink:
  "stl_uncrossed t \<Longrightarrow> (\<And>s p. stl_depth t' s p \<noteq> [] \<Longrightarrow> stl_depth t s p \<noteq> []) \<Longrightarrow> stl_uncrossed t'"
  unfolding stl_uncrossed_def by blast

lemma crossing_closed: "crossing s p x \<Longrightarrow> better (opp s) (unat y) (unat x) \<Longrightarrow> crossing s p y"
  by (cases s) (auto simp: crossing_def better_def opp_def word_le_nat_alt)

lemma stl_insert_uncrossed:
  assumes ok: "stl_ok t" and u: "stl_uncrossed t" and k: "stl_id_index t k = None"
  shows "\<exists>t' a. stl_insert_limit_order t k s p q = Some (t', a) \<and> stl_ok t' \<and> stl_uncrossed t'"
proof -
  obtain t1 r where t1: "stl_match (crossing s p) (opp s) q t = Some (t1, r)" "stl_ok t1"
    "\<And>x. r \<noteq> 0 \<Longrightarrow> crossing s p x \<Longrightarrow> stl_depth t1 (opp s) x = []"
    "\<And>s' x. stl_depth t1 s' x \<noteq> [] \<Longrightarrow> stl_depth t s' x \<noteq> []" "stl_id_index t1 k = None"
    by (rule stl_match_total [where crosses = "crossing s p" and s = "opp s" and q = q, OF ok crossing_closed])
      (assumption, assumption, use k in blast)
  have u1: "stl_uncrossed t1" by (rule stl_uncrossed_shrink [OF u t1(4)])
  show ?thesis
  proof (cases "r = 0")
    case True
    then show ?thesis using t1(1,2) u1 by (auto simp: stl_insert_crossing)
  next
    case False
    let ?t = "stl_push_back t1 k s p r"
    have d: "stl_depth ?t s' x = stl_depth t1 s' x @ (if s' = s \<and> x = p then [(k, r)] else [])" for s' x
      by (simp add: stl_depth_def stl_push_back_simps)
    have "\<not> crossing s p x" if "stl_depth t1 (opp s) x \<noteq> []" for x using t1(3) [OF False] that by blast
    then have "stl_uncrossed ?t" using u1 unfolding stl_uncrossed_def d
      by (cases s) (auto simp: crossing_def opp_def not_le split: if_splits)
    moreover have "stl_ok ?t" by (rule stl_push_back_ok [OF t1(2,5) False])
    ultimately show ?thesis using t1(1) False by (auto simp: stl_insert_crossing word_gt_0)
  qed
qed

lemma framed_self:
  assumes "stl_ok t"
  obtains V where "framed 0 V t"
proof
  show "framed 0 (\<lambda>s j. if j < 4294967296 then stl_depth t s (of_nat j) else []) t"
    using unsigned_less [where 'b = 32] by (auto simp: framed_def)
qed

lemma stl_call_uncrossed:
  assumes ok: "stl_ok t" and u: "stl_uncrossed t" and op: "stl_ops_ok t (op # ops)"
  shows "\<exists>t' a. stl_call t op = Some (t', a) \<and> stl_ok t' \<and> stl_uncrossed t'"
proof (cases op)
  case (Insert k s p q)
  then show ?thesis using stl_insert_uncrossed [OF ok u, of k s p q] op by auto
next
  case (Cancel k)
  obtain V where V: "framed 0 V t" by (rule framed_self [OF ok])
  obtain t' a where t': "stl_cancel_order t k = Some (t', a)" "stl_ok t'" "framed 0 (drop_id k V) t'"
    using stl_cancel_framed [OF ok V] by metis
  have "stl_depth t' s p \<noteq> [] \<Longrightarrow> stl_depth t s p \<noteq> []" for s p
    using V t'(3) drop_id_nonempty by (simp add: framed_def)
  then show ?thesis using t'(1,2) stl_uncrossed_shrink [OF u, of t'] Cancel by auto
next
  case (Market s q)
  obtain t' r where "stl_match (\<lambda>_. True) (opp s) q t = Some (t', r)" "stl_ok t'"
    "\<And>s' x. stl_depth t' s' x \<noteq> [] \<Longrightarrow> stl_depth t s' x \<noteq> []"
    using stl_match_total [OF ok, of "\<lambda>_. True" "opp s" q] by metis
  then show ?thesis using stl_uncrossed_shrink [OF u, of t'] Market
    by (cases s) (auto simp: stl_process_market_order_def opp_def)
qed (use op in simp_all)

lemma stl_run_uncrossed:
  "stl_ok t \<Longrightarrow> stl_uncrossed t \<Longrightarrow> stl_ops_ok t ops \<Longrightarrow>
    \<exists>t' answers. run_calls stl_call t ops = Some (t', answers) \<and> stl_ok t' \<and> stl_uncrossed t'"
proof (induction ops arbitrary: t)
  case (Cons op ops)
  obtain t' a where t': "stl_call t op = Some (t', a)" "stl_ok t'" "stl_uncrossed t'"
    using stl_call_uncrossed [OF Cons.prems] by blast
  then have "stl_ops_ok t' ops" using Cons.prems(3) by simp
  then show ?case using Cons.IH [OF t'(2,3)] t' by auto
qed simp

text \<open>
  C25: the textbook book processes every list of insertions, cancels and market orders in which no
  id is inserted while it is on the book, whatever the prices are: the loops end, no iterator is
  invalid, and every bid it holds is below every offer.  The optimised book has no such
  guarantee: the calls of the witness leave it crossed once its window has moved.
\<close>

theorem baseline_never_crosses:
  assumes "stl_ops_ok stl_new ops"
  shows "\<exists>t answers. run_calls stl_call stl_new ops = Some (t, answers) \<and>
    (\<forall>x y. stl_depth t BUY x \<noteq> [] \<and> stl_depth t SELL y \<noteq> [] \<longrightarrow> x < y)"
  using stl_run_uncrossed [OF stl_new_ok(1) _ assms] stl_new_ok(2) by (fastforce simp: stl_uncrossed_def)

theorem baseline_never_crosses_witness:
  "\<exists>t answers. run_calls stl_call stl_new [Insert 1 BUY 100 5, Insert 2 BUY 97 3, Insert 3 SELL 95 2] = Some (t, answers) \<and>
    (stl_depth t BUY 97 = [] \<or> stl_depth t SELL 95 = [])"
proof -
  have "stl_ops_ok stl_new [Insert 1 BUY 100 5, Insert 2 BUY 97 3, Insert 3 SELL 95 2]" by code_simp
  then obtain t answers where
    "run_calls stl_call stl_new [Insert 1 BUY 100 5, Insert 2 BUY 97 3, Insert 3 SELL 95 2] = Some (t, answers)"
    and u: "\<forall>x y. stl_depth t BUY x \<noteq> [] \<and> stl_depth t SELL y \<noteq> [] \<longrightarrow> x < y"
    using baseline_never_crosses by blast
  moreover have "\<not> (97 :: price) < 95" by simp
  ultimately show ?thesis by blast
qed

end
