(* ===== verification/Spsc_Queue.thy ===== *)
theory Spsc_Queue
  imports Nano_Prelude
begin

text \<open>
  The single-producer single-consumer ring of \<open>src/logging/SPSCQueue.hpp\<close>.  \<open>emplace\<close> and
  \<open>pop\<close> are given twice: as one function each, and cut at their accesses to shared memory
  into the steps of a producer and a consumer that interleave.  One step performs at most one
  load or store of \<open>head_\<close>, \<open>tail_\<close> or a buffer element; the acquire and release orderings
  of the code make an interleaving of such steps an adequate picture, because a release
  store publishes every earlier step of its thread.  The lists \<open>pushed\<close> and \<open>popped\<close> are
  history variables.  Indices are 64-bit words that wrap.
\<close>

section \<open>The code\<close>

record 'a spsc =
  head_index :: u64
  tail_index :: u64
  head_cached :: u64
  tail_cached :: u64
  tail_cached_consumer :: u64
  head_cached_consumer :: u64
  buffer :: "'a list"

definition spsc_new :: "nat \<Rightarrow> 'a \<Rightarrow> 'a spsc" where
  "spsc_new cap x = \<lparr>head_index = 0, tail_index = 0, head_cached = 0, tail_cached = 0,
     tail_cached_consumer = 0, head_cached_consumer = 0, buffer = replicate cap x\<rparr>"

definition ring_slot :: "nat \<Rightarrow> u64 \<Rightarrow> nat" where
  "ring_slot cap i = unat (i AND (of_nat cap - 1))"

definition emplace_check :: "nat \<Rightarrow> 'a spsc \<Rightarrow> bool \<times> 'a spsc" where
  "emplace_check cap r = (let tail = tail_cached r in
     if tail - head_cached r \<ge> of_nat cap
     then let r = r\<lparr>head_cached := head_index r\<rparr> in (\<not> tail - head_cached r \<ge> of_nat cap, r)
     else (True, r))"

definition emplace_write :: "nat \<Rightarrow> 'a \<Rightarrow> 'a spsc \<Rightarrow> 'a spsc option" where
  "emplace_write cap x r = do {
     buf \<leftarrow> vset (buffer r) (ring_slot cap (tail_cached r)) x;
     Some (r\<lparr>buffer := buf\<rparr>)
   }"

definition emplace_publish :: "'a spsc \<Rightarrow> 'a spsc" where
  "emplace_publish r = r\<lparr>tail_index := tail_cached r + 1, tail_cached := tail_cached r + 1\<rparr>"

definition emplace :: "nat \<Rightarrow> 'a spsc \<Rightarrow> 'a \<Rightarrow> ('a spsc \<times> bool) option" where
  "emplace cap r x = (case emplace_check cap r of (room, r) \<Rightarrow>
     if \<not> room then Some (r, False)
     else do { r \<leftarrow> emplace_write cap x r; Some (emplace_publish r, True) })"

definition pop_check :: "'a spsc \<Rightarrow> bool \<times> 'a spsc" where
  "pop_check r = (let head = head_cached_consumer r in
     if head = tail_cached_consumer r
     then let r = r\<lparr>tail_cached_consumer := tail_index r\<rparr> in (head \<noteq> tail_cached_consumer r, r)
     else (True, r))"

definition pop_read :: "nat \<Rightarrow> 'a spsc \<Rightarrow> 'a option" where
  "pop_read cap r = vget (buffer r) (ring_slot cap (head_cached_consumer r))"

definition pop_release :: "'a spsc \<Rightarrow> 'a spsc" where
  "pop_release r = r\<lparr>head_index := head_cached_consumer r + 1,
     head_cached_consumer := head_cached_consumer r + 1\<rparr>"

text \<open>The item is handed out by reference: \<open>None\<close> in the result stands for the answer false.\<close>

definition pop :: "nat \<Rightarrow> 'a spsc \<Rightarrow> ('a spsc \<times> 'a option) option" where
  "pop cap r = (case pop_check r of (some, r) \<Rightarrow>
     if \<not> some then Some (r, None)
     else do { x \<leftarrow> pop_read cap r; Some (pop_release r, Some x) })"

section \<open>Two threads\<close>

datatype 'a producer = P_idle | P_write 'a | P_publish 'a

datatype 'a consumer = C_idle | C_read | C_release 'a

record 'a spsc_sys =
  ring :: "'a spsc"
  prod_at :: "'a producer"
  cons_at :: "'a consumer"
  pushed :: "'a list"
  popped :: "'a list"

datatype 'a spsc_event =
    Emplace_full 'a | Emplace_room 'a | Write | Publish
  | Pop_empty | Pop_some | Read | Release

inductive spsc_step :: "nat \<Rightarrow> 'a spsc_sys \<Rightarrow> 'a spsc_event \<Rightarrow> 'a spsc_sys \<Rightarrow> bool" for cap where
  p_full: "prod_at s = P_idle \<Longrightarrow> emplace_check cap (ring s) = (False, r) \<Longrightarrow>
    spsc_step cap s (Emplace_full x) (s\<lparr>ring := r\<rparr>)"
| p_room: "prod_at s = P_idle \<Longrightarrow> emplace_check cap (ring s) = (True, r) \<Longrightarrow>
    spsc_step cap s (Emplace_room x) (s\<lparr>ring := r, prod_at := P_write x\<rparr>)"
| p_write: "prod_at s = P_write x \<Longrightarrow> emplace_write cap x (ring s) = Some r \<Longrightarrow>
    spsc_step cap s Write (s\<lparr>ring := r, prod_at := P_publish x\<rparr>)"
| p_publish: "prod_at s = P_publish x \<Longrightarrow>
    spsc_step cap s Publish (s\<lparr>ring := emplace_publish (ring s), prod_at := P_idle, pushed := pushed s @ [x]\<rparr>)"
| c_empty: "cons_at s = C_idle \<Longrightarrow> pop_check (ring s) = (False, r) \<Longrightarrow>
    spsc_step cap s Pop_empty (s\<lparr>ring := r\<rparr>)"
| c_some: "cons_at s = C_idle \<Longrightarrow> pop_check (ring s) = (True, r) \<Longrightarrow>
    spsc_step cap s Pop_some (s\<lparr>ring := r, cons_at := C_read\<rparr>)"
| c_read: "cons_at s = C_read \<Longrightarrow> pop_read cap (ring s) = Some x \<Longrightarrow>
    spsc_step cap s Read (s\<lparr>cons_at := C_release x\<rparr>)"
| c_release: "cons_at s = C_release x \<Longrightarrow>
    spsc_step cap s Release (s\<lparr>ring := pop_release (ring s), cons_at := C_idle, popped := popped s @ [x]\<rparr>)"

inductive_cases spsc_stepE: "spsc_step cap s e s'"

definition spsc_start :: "nat \<Rightarrow> 'a \<Rightarrow> 'a spsc_sys" where
  "spsc_start cap x = \<lparr>ring = spsc_new cap x, prod_at = P_idle, cons_at = C_idle, pushed = [], popped = []\<rparr>"

inductive spsc_run :: "nat \<Rightarrow> 'a \<Rightarrow> 'a spsc_sys \<Rightarrow> bool" for cap x0 where
  init: "spsc_run cap x0 (spsc_start cap x0)"
| step: "spsc_run cap x0 s \<Longrightarrow> spsc_step cap s e s' \<Longrightarrow> spsc_run cap x0 s'"

section \<open>Counters\<close>

text \<open>
  \<open>Capacity\<close> is a power of two that fits the 64-bit counters, as the static assertion demands; it
  would also admit a ring without slots, which is left out.
\<close>

definition cap_ok :: "nat \<Rightarrow> bool" where
  "cap_ok cap \<longleftrightarrow> (\<exists>e < 64. cap = 2 ^ e)"

lemma cap_okD:
  assumes "cap_ok cap"
  shows "0 < cap" "cap < 18446744073709551616"
proof -
  obtain e where e: "e < 64" "cap = 2 ^ e" using assms by (auto simp: cap_ok_def)
  then have "(2 :: nat) ^ e \<le> 2 ^ 63" by (intro power_increasing) simp_all
  then show "0 < cap" "cap < 18446744073709551616" using e by simp_all
qed

lemma unat_of_nat_u64: "n < 18446744073709551616 \<Longrightarrow> unat (of_nat n :: u64) = n"
  by (simp add: unat_of_nat)

lemma unat_counter_diff:
  assumes "h \<le> p" and "p - h < 18446744073709551616"
  shows "unat (of_nat p - of_nat h :: u64) = p - h"
proof -
  have "(of_nat p - of_nat h :: u64) = of_nat (p - h)" using assms(1) by (simp add: of_nat_diff)
  then show ?thesis using assms(2) by (simp only: unat_of_nat_u64)
qed

lemma counter_full_iff:
  assumes "cap_ok cap" and "h \<le> p" and "p \<le> h + cap"
  shows "(of_nat cap :: u64) \<le> of_nat p - of_nat h \<longleftrightarrow> p = h + cap"
proof -
  have "unat (of_nat p - of_nat h :: u64) = p - h" "unat (of_nat cap :: u64) = cap"
    using assms cap_okD [OF assms(1)] by (auto intro!: unat_counter_diff unat_of_nat_u64)
  then show ?thesis using assms by (auto simp: word_le_nat_alt)
qed

lemma counter_eq_iff:
  assumes "cap_ok cap" and "c \<le> t" and "t \<le> c + cap"
  shows "(of_nat c :: u64) = of_nat t \<longleftrightarrow> c = t"
proof
  assume "(of_nat c :: u64) = of_nat t"
  then have "unat (of_nat t - of_nat c :: u64) = 0" by simp
  then show "c = t" using assms cap_okD [OF assms(1)] unat_counter_diff [of c t] by simp
qed simp

lemma ring_slot_of_nat:
  assumes "cap_ok cap"
  shows "ring_slot cap (of_nat n) = n mod cap"
proof -
  obtain e where e: "e < 64" "cap = 2 ^ e" using assms by (auto simp: cap_ok_def)
  have "(of_nat cap - 1 :: u64) = mask e" by (simp add: e mask_eq_exp_minus_1)
  then have "ring_slot cap (of_nat n) = unat (take_bit e (of_nat n :: u64))"
    by (simp add: ring_slot_def take_bit_eq_mask)
  also have "\<dots> = take_bit e (unat (of_nat n :: u64))" by (simp add: unsigned_take_bit_eq)
  also have "\<dots> = n mod 18446744073709551616 mod 2 ^ e" by (simp add: take_bit_nat_def unat_of_nat)
  also have "\<dots> = n mod 2 ^ e"
  proof (rule mod_mod_cancel)
    have "(2 :: nat) ^ e dvd 2 ^ 64" using e(1) by (intro le_imp_power_dvd) simp
    then show "2 ^ e dvd (18446744073709551616 :: nat)" by simp
  qed
  finally show ?thesis by (simp add: e)
qed

section \<open>The invariant\<close>

text \<open>
  \<open>h\<close> and \<open>t\<close> are the counts behind the two stale copies: the producer's copy of the
  consumer's counter and the consumer's copy of the producer's.
\<close>

definition spsc_at :: "nat \<Rightarrow> 'a spsc_sys \<Rightarrow> nat \<Rightarrow> nat \<Rightarrow> bool" where
  "spsc_at cap s h t \<longleftrightarrow> (let r = ring s; c = length (popped s); p = length (pushed s) in
     head_index r = of_nat c \<and> head_cached_consumer r = of_nat c \<and>
     tail_index r = of_nat p \<and> tail_cached r = of_nat p \<and>
     head_cached r = of_nat h \<and> tail_cached_consumer r = of_nat t \<and>
     h \<le> c \<and> c \<le> t \<and> t \<le> p \<and> p \<le> h + cap \<and>
     length (buffer r) = cap \<and> popped s = take c (pushed s) \<and>
     (\<forall>j. c \<le> j \<and> j < p \<longrightarrow> buffer r ! (j mod cap) = pushed s ! j) \<and>
     (case prod_at s of P_idle \<Rightarrow> True | P_write x \<Rightarrow> p < h + cap
      | P_publish x \<Rightarrow> p < h + cap \<and> buffer r ! (p mod cap) = x) \<and>
     (case cons_at s of C_idle \<Rightarrow> True | C_read \<Rightarrow> c < t | C_release v \<Rightarrow> c < t \<and> v = pushed s ! c))"

definition spsc_inv :: "nat \<Rightarrow> 'a spsc_sys \<Rightarrow> bool" where
  "spsc_inv cap s \<longleftrightarrow> cap_ok cap \<and> (\<exists>h t. spsc_at cap s h t)"

lemma spsc_atD:
  assumes "spsc_at cap s h t"
  shows "head_index (ring s) = of_nat (length (popped s))"
    "head_cached_consumer (ring s) = of_nat (length (popped s))"
    "tail_index (ring s) = of_nat (length (pushed s))" "tail_cached (ring s) = of_nat (length (pushed s))"
    "head_cached (ring s) = of_nat h" "tail_cached_consumer (ring s) = of_nat t"
    "h \<le> length (popped s)" "length (popped s) \<le> t" "t \<le> length (pushed s)"
    "length (pushed s) \<le> h + cap" "length (buffer (ring s)) = cap"
    "popped s = take (length (popped s)) (pushed s)"
    "length (popped s) \<le> j \<Longrightarrow> j < length (pushed s) \<Longrightarrow> buffer (ring s) ! (j mod cap) = pushed s ! j"
    "prod_at s = P_write x \<Longrightarrow> length (pushed s) < h + cap"
    "prod_at s = P_publish x \<Longrightarrow> length (pushed s) < h + cap \<and> buffer (ring s) ! (length (pushed s) mod cap) = x"
    "cons_at s = C_read \<Longrightarrow> length (popped s) < t"
    "cons_at s = C_release v \<Longrightarrow> length (popped s) < t \<and> v = pushed s ! length (popped s)"
  using assms by (simp_all add: spsc_at_def Let_def)

text \<open>Distinct counts that are less than a capacity apart use distinct slots.\<close>

lemma slots_apart: "j < p \<Longrightarrow> p < j + cap \<Longrightarrow> j mod cap \<noteq> p mod (cap :: nat)"
proof
  assume a: "j < p" "p < j + cap" and e: "j mod cap = p mod cap"
  then have "cap dvd p - j" by (metis less_imp_le mod_eq_dvd_iff_nat)
  then show False using a by (auto dest!: dvd_imp_le)
qed

text \<open>What the two checks answer.\<close>

lemma emplace_check_at:
  assumes "cap_ok cap" and a: "spsc_at cap s h t"
  shows "emplace_check cap (ring s) = (if length (pushed s) < h + cap then (True, ring s)
    else (length (pushed s) < length (popped s) + cap, (ring s)\<lparr>head_cached := of_nat (length (popped s))\<rparr>))"
proof -
  note d = spsc_atD [OF a]
  have "(of_nat cap :: u64) \<le> of_nat (length (pushed s)) - of_nat h \<longleftrightarrow> length (pushed s) = h + cap"
    using d(7-10) by (intro counter_full_iff assms) linarith+
  moreover have "(of_nat cap :: u64) \<le> of_nat (length (pushed s)) - of_nat (length (popped s)) \<longleftrightarrow>
      length (pushed s) = length (popped s) + cap"
    using d(7-10) by (intro counter_full_iff assms) linarith+
  ultimately show ?thesis
    using d(1,4,5,7,10) by (auto simp: emplace_check_def Let_def)
qed

lemma pop_check_at:
  assumes "cap_ok cap" and a: "spsc_at cap s h t"
  shows "pop_check (ring s) = (if length (popped s) < t then (True, ring s)
    else (length (popped s) < length (pushed s), (ring s)\<lparr>tail_cached_consumer := of_nat (length (pushed s))\<rparr>))"
proof -
  note d = spsc_atD [OF a]
  have "(of_nat (length (popped s)) :: u64) = of_nat t \<longleftrightarrow> length (popped s) = t"
    using d(7-10) by (intro counter_eq_iff [OF assms(1)]) linarith+
  moreover have "(of_nat (length (popped s)) :: u64) = of_nat (length (pushed s)) \<longleftrightarrow>
      length (popped s) = length (pushed s)"
    using d(7-10) by (intro counter_eq_iff [OF assms(1)]) linarith+
  ultimately show ?thesis
    using d(2,3,6,8,9) by (auto simp: pop_check_def Let_def)
qed

text \<open>Within the invariant no buffer access is out of bounds.\<close>

lemma emplace_write_at:
  assumes "cap_ok cap" and a: "spsc_at cap s h t"
  shows "emplace_write cap x (ring s) =
    Some ((ring s)\<lparr>buffer := (buffer (ring s))[length (pushed s) mod cap := x]\<rparr>)"
  using spsc_atD(4,11) [OF a] cap_okD(1) [OF assms(1)]
  by (simp add: emplace_write_def ring_slot_of_nat [OF assms(1)] vset_in)

lemma pop_read_at:
  assumes "cap_ok cap" and a: "spsc_at cap s h t" and "length (popped s) < t"
  shows "pop_read cap (ring s) = Some (pushed s ! length (popped s))"
  using spsc_atD(2,11) [OF a] cap_okD(1) [OF assms(1)] spsc_atD(9,13) [OF a] assms(3)
  by (simp add: pop_read_def ring_slot_of_nat [OF assms(1)] vget_in)

lemma spsc_step_at:
  assumes ok: "cap_ok cap" and a: "spsc_at cap s h t" and st: "spsc_step cap s e s'"
  shows "\<exists>h t. spsc_at cap s' h t"
proof -
  note d = spsc_atD [OF a]
  let ?c = "length (popped s)" and ?p = "length (pushed s)"
  from st show ?thesis
  proof (cases rule: spsc_step.cases)
    case (p_full r x)
    then have "r = (ring s)\<lparr>head_cached := of_nat ?c\<rparr>"
      using emplace_check_at [OF ok a] by (auto split: if_splits)
    then have "spsc_at cap s' ?c t" using a d(7-10) p_full
      by (auto simp: spsc_at_def Let_def split: consumer.splits)
    then show ?thesis by blast
  next
    case (p_room r x)
    show ?thesis
    proof (cases "?p < h + cap")
      case True
      then have "spsc_at cap s' h t" using a p_room emplace_check_at [OF ok a]
        by (auto simp: spsc_at_def Let_def split: consumer.splits)
      then show ?thesis by blast
    next
      case False
      then have "r = (ring s)\<lparr>head_cached := of_nat ?c\<rparr>" "?p < ?c + cap"
        using p_room emplace_check_at [OF ok a] by auto
      then have "spsc_at cap s' ?c t" using a d(7-10) p_room
        by (auto simp: spsc_at_def Let_def split: consumer.splits)
      then show ?thesis by blast
    qed
  next
    case (p_write x r)
    have r: "r = (ring s)\<lparr>buffer := (buffer (ring s))[?p mod cap := x]\<rparr>"
      using p_write emplace_write_at [OF ok a] by simp
    have lt: "?p < h + cap" by (rule d(14) [OF p_write(3)])
    have "(buffer (ring s))[?p mod cap := x] ! (j mod cap) = pushed s ! j" if "?c \<le> j" "j < ?p" for j
    proof -
      have "j mod cap \<noteq> ?p mod cap" using that lt d(7) by (intro slots_apart) linarith+
      then show ?thesis using d(13) [OF that] by simp
    qed
    moreover have "(buffer (ring s))[?p mod cap := x] ! (?p mod cap) = x"
      using d(11) cap_okD(1) [OF ok] by simp
    ultimately have "spsc_at cap s' h t" using a lt p_write r by (simp add: spsc_at_def Let_def split: consumer.splits)
    then show ?thesis by blast
  next
    case (p_publish x)
    have x: "?p < h + cap" "buffer (ring s) ! (?p mod cap) = x" using d(15) [OF p_publish(3)] by auto
    have "buffer (ring s) ! (j mod cap) = (pushed s @ [x]) ! j" if "?c \<le> j" "j < Suc ?p" for j
      using that d(13) [of j] x(2) by (cases "j = ?p") (auto simp: nth_append)
    moreover have "popped s = take ?c (pushed s @ [x])" using d(8,9,12) by simp
    moreover have "v = (pushed s @ [x]) ! ?c" if "cons_at s = C_release v" for v
      using d(17) [OF that] d(9) by (simp add: nth_append)
    ultimately have "spsc_at cap s' h t" using a x(1) p_publish
      by (simp add: spsc_at_def Let_def emplace_publish_def split: consumer.splits)
    then show ?thesis by blast
  next
    case (c_empty r)
    then have "r = (ring s)\<lparr>tail_cached_consumer := of_nat ?p\<rparr>"
      using pop_check_at [OF ok a] by (auto split: if_splits)
    then have "spsc_at cap s' h ?p" using a d(7-10) c_empty
      by (auto simp: spsc_at_def Let_def split: producer.splits)
    then show ?thesis by blast
  next
    case (c_some r)
    show ?thesis
    proof (cases "?c < t")
      case True
      then have "spsc_at cap s' h t" using a c_some pop_check_at [OF ok a]
        by (auto simp: spsc_at_def Let_def split: producer.splits)
      then show ?thesis by blast
    next
      case False
      then have "r = (ring s)\<lparr>tail_cached_consumer := of_nat ?p\<rparr>" "?c < ?p"
        using c_some pop_check_at [OF ok a] by auto
      then have "spsc_at cap s' h ?p" using a d(7-10) c_some
        by (auto simp: spsc_at_def Let_def split: producer.splits)
      then show ?thesis by blast
    qed
  next
    case (c_read x)
    have lt: "?c < t" by (rule d(16) [OF c_read(3)])
    then have "x = pushed s ! ?c" using c_read(4) pop_read_at [OF ok a] by simp
    then have "spsc_at cap s' h t" using a lt c_read by (simp add: spsc_at_def Let_def split: producer.splits)
    then show ?thesis by blast
  next
    case (c_release x)
    have x: "?c < t" "x = pushed s ! ?c" using d(17) [OF c_release(3)] by auto
    then have "popped s @ [x] = take (Suc ?c) (pushed s)"
      using d(9,12) by (metis less_le_trans take_Suc_conv_app_nth)
    then have "spsc_at cap s' h t" using a x(1) c_release
      by (simp add: spsc_at_def Let_def pop_release_def split: producer.splits)
    then show ?thesis by blast
  qed
qed

lemma spsc_start_inv: "cap_ok cap \<Longrightarrow> spsc_inv cap (spsc_start cap x)"
  by (auto simp: spsc_inv_def spsc_at_def spsc_start_def spsc_new_def)

lemma spsc_run_inv: "spsc_run cap x0 s \<Longrightarrow> cap_ok cap \<Longrightarrow> spsc_inv cap s"
proof (induction rule: spsc_run.induct)
  case (step s e s')
  then show ?case using spsc_step_at unfolding spsc_inv_def by metis
qed (rule spsc_start_inv)

section \<open>The contract of a bounded queue\<close>

text \<open>What a caller of the queue relies on when its calls do not overlap.\<close>

locale bounded_fifo =
  fixes enq :: "'q \<Rightarrow> 'a \<Rightarrow> ('q \<times> bool) option" and deq :: "'q \<Rightarrow> ('q \<times> 'a option) option"
    and items :: "'q \<Rightarrow> 'a list" and ok :: "'q \<Rightarrow> bool" and limit :: nat
  assumes items_limit: "ok r \<Longrightarrow> length (items r) \<le> limit"
    and enq_room: "ok r \<Longrightarrow> length (items r) < limit \<Longrightarrow>
      \<exists>r'. enq r x = Some (r', True) \<and> ok r' \<and> items r' = items r @ [x]"
    and enq_full: "ok r \<Longrightarrow> length (items r) = limit \<Longrightarrow>
      \<exists>r'. enq r x = Some (r', False) \<and> ok r' \<and> items r' = items r"
    and deq_empty: "ok r \<Longrightarrow> items r = [] \<Longrightarrow> \<exists>r'. deq r = Some (r', None) \<and> ok r' \<and> items r' = []"
    and deq_first: "ok r \<Longrightarrow> items r = x # xs \<Longrightarrow> \<exists>r'. deq r = Some (r', Some x) \<and> ok r' \<and> items r' = xs"
begin

fun enqs :: "'q \<Rightarrow> 'a list \<Rightarrow> ('q \<times> nat) option" where
  "enqs r [] = Some (r, 0)"
| "enqs r (x # xs) = do {
     (r, stored) \<leftarrow> enq r x;
     (r, lost) \<leftarrow> enqs r xs;
     Some (r, if stored then lost else Suc lost)
   }"

text \<open>A burst of calls without a reader: the first ones are stored, the rest is lost.\<close>

lemma enqs_correct:
  "ok r \<Longrightarrow> \<exists>r'. enqs r xs = Some (r', length xs - (limit - length (items r))) \<and> ok r' \<and>
    items r' = items r @ take (limit - length (items r)) xs"
proof (induction xs arbitrary: r)
  case (Cons x xs)
  show ?case
  proof (cases "length (items r) < limit")
    case True
    obtain r1 where r1: "enq r x = Some (r1, True)" "ok r1" "items r1 = items r @ [x]"
      using enq_room [OF Cons.prems True] by blast
    obtain r2 where "enqs r1 xs = Some (r2, length xs - (limit - length (items r1)))" "ok r2"
      "items r2 = items r1 @ take (limit - length (items r1)) xs"
      using Cons.IH [OF r1(2)] by blast
    moreover have "limit - length (items r) = Suc (limit - length (items r1))" using True r1(3) by simp
    ultimately show ?thesis using r1 by simp
  next
    case False
    then have full: "length (items r) = limit" using items_limit [OF Cons.prems] by simp
    obtain r1 where r1: "enq r x = Some (r1, False)" "ok r1" "items r1 = items r"
      using enq_full [OF Cons.prems full] by blast
    obtain r2 where "enqs r1 xs = Some (r2, length xs - (limit - length (items r1)))" "ok r2"
      "items r2 = items r1 @ take (limit - length (items r1)) xs"
      using Cons.IH [OF r1(2)] by blast
    then show ?thesis using r1 full by simp
  qed
qed simp

text \<open>Any loop that reads until the queue answers that it is empty ends, and has read everything.\<close>

lemma drain_loop:
  assumes loop: "\<And>r a. loop r a = do { (r, m) \<leftarrow> deq r;
      (case m of None \<Rightarrow> Some (r, a) | Some x \<Rightarrow> loop r (f x a)) }"
    and "ok r"
  shows "\<exists>r'. loop r a = Some (r', fold f (items r) a) \<and> ok r' \<and> items r' = []"
  using assms(2)
proof (induction "items r" arbitrary: r a)
  case Nil
  then obtain r' where "deq r = Some (r', None)" "ok r'" "items r' = []" using deq_empty by metis
  then show ?case using Nil by (subst loop) simp
next
  case (Cons x xs)
  obtain r1 where r1: "deq r = Some (r1, Some x)" "ok r1" "items r1 = xs"
    using deq_first [OF Cons.prems Cons.hyps(2) [symmetric]] by blast
  show ?case using Cons.hyps(1) [OF r1(3) [symmetric] r1(2), of "f x a"] r1 Cons.hyps(2) [symmetric]
    by (subst loop) simp
qed

end

section \<open>The ring honours it\<close>

text \<open>The items in the ring, and a ring on which no call is under way.\<close>

definition ring_items :: "nat \<Rightarrow> 'a spsc \<Rightarrow> 'a list" where
  "ring_items cap r = map (\<lambda>j. buffer r ! ring_slot cap (head_index r + of_nat j))
     [0..<unat (tail_index r - head_index r)]"

definition idle :: "'a spsc \<Rightarrow> 'a list \<Rightarrow> 'a list \<Rightarrow> 'a spsc_sys" where
  "idle r pu po = \<lparr>ring = r, prod_at = P_idle, cons_at = C_idle, pushed = pu, popped = po\<rparr>"

definition spsc_ok :: "nat \<Rightarrow> 'a spsc \<Rightarrow> bool" where
  "spsc_ok cap r \<longleftrightarrow> cap_ok cap \<and> (\<exists>pu po h t. spsc_at cap (idle r pu po) h t)"

lemma idle_simps [simp]: "ring (idle r pu po) = r" "prod_at (idle r pu po) = P_idle"
  "cons_at (idle r pu po) = C_idle" "pushed (idle r pu po) = pu" "popped (idle r pu po) = po"
  by (simp_all add: idle_def)

lemma ring_items_at:
  assumes "cap_ok cap" and a: "spsc_at cap s h t"
  shows "ring_items cap (ring s) = drop (length (popped s)) (pushed s)"
proof (rule nth_equalityI)
  note d = spsc_atD [OF a]
  have n: "unat (tail_index (ring s) - head_index (ring s)) = length (pushed s) - length (popped s)"
    unfolding d(1,3) using d(7-10) cap_okD(2) [OF assms(1)] by (intro unat_counter_diff) linarith+
  show "length (ring_items cap (ring s)) = length (drop (length (popped s)) (pushed s))"
    by (simp add: ring_items_def n)
  fix j assume "j < length (ring_items cap (ring s))"
  then have j: "j < length (pushed s) - length (popped s)" by (simp add: ring_items_def n)
  have "ring_slot cap (head_index (ring s) + of_nat j) = (length (popped s) + j) mod cap"
    using ring_slot_of_nat [OF assms(1), of "length (popped s) + j"] by (simp add: d(1))
  then show "ring_items cap (ring s) ! j = drop (length (popped s)) (pushed s) ! j"
    using j d(13) [of "length (popped s) + j"] by (simp add: ring_items_def n)
qed

lemma spsc_new_ok:
  assumes "cap_ok cap"
  shows "spsc_ok cap (spsc_new cap x)" "ring_items cap (spsc_new cap x) = []"
proof -
  have "spsc_at cap (idle (spsc_new cap x) [] []) 0 0" by (simp add: spsc_at_def spsc_new_def)
  then show "spsc_ok cap (spsc_new cap x)" using assms by (auto simp: spsc_ok_def)
  show "ring_items cap (spsc_new cap x) = []" by (simp add: ring_items_def spsc_new_def)
qed

text \<open>An uninterrupted call is its steps, one after the other.\<close>

lemma emplace_idle:
  assumes ok: "cap_ok cap" and a: "spsc_at cap (idle r pu po) h t"
  shows "\<exists>r'. emplace cap r x = Some (r', length pu < length po + cap) \<and>
    (\<exists>h t. spsc_at cap (idle r' (if length pu < length po + cap then pu @ [x] else pu) po) h t)"
proof -
  let ?s = "idle r pu po"
  obtain r1 where c: "emplace_check cap r = (length pu < length po + cap, r1)"
    using emplace_check_at [OF ok a] spsc_atD(7,10) [OF a] by (auto split: if_splits)
  show ?thesis
  proof (cases "length pu < length po + cap")
    case False
    then have "spsc_step cap ?s (Emplace_full x) (?s\<lparr>ring := r1\<rparr>)" using c by (intro p_full) auto
    then have "spsc_step cap ?s (Emplace_full x) (idle r1 pu po)" by (simp add: idle_def)
    from spsc_step_at [OF ok a this] show ?thesis using False c by (simp add: emplace_def)
  next
    case True
    have "spsc_step cap ?s (Emplace_room x) (?s\<lparr>ring := r1, prod_at := P_write x\<rparr>)"
      using True c by (intro p_room) auto
    from spsc_step_at [OF ok a this] obtain h1 t1 where
      a1: "spsc_at cap (?s\<lparr>ring := r1, prod_at := P_write x\<rparr>) h1 t1" by blast
    obtain r2 where w: "emplace_write cap x r1 = Some r2" using emplace_write_at [OF ok a1] by simp
    have "spsc_step cap (?s\<lparr>ring := r1, prod_at := P_write x\<rparr>) Write
        (?s\<lparr>ring := r1, prod_at := P_write x\<rparr>\<lparr>ring := r2, prod_at := P_publish x\<rparr>)"
      using w by (intro p_write) auto
    from spsc_step_at [OF ok a1 this] obtain h2 t2 where
      a2: "spsc_at cap (?s\<lparr>ring := r2, prod_at := P_publish x\<rparr>) h2 t2" by auto
    have "spsc_step cap (?s\<lparr>ring := r2, prod_at := P_publish x\<rparr>) Publish
        (?s\<lparr>ring := r2, prod_at := P_publish x\<rparr>\<lparr>ring := emplace_publish r2, prod_at := P_idle, pushed := pu @ [x]\<rparr>)"
      using p_publish [of "?s\<lparr>ring := r2, prod_at := P_publish x\<rparr>" x cap] by simp
    then have "spsc_step cap (?s\<lparr>ring := r2, prod_at := P_publish x\<rparr>) Publish (idle (emplace_publish r2) (pu @ [x]) po)"
      by (simp add: idle_def)
    from spsc_step_at [OF ok a2 this] show ?thesis using True c w by (simp add: emplace_def)
  qed
qed

lemma pop_idle:
  assumes ok: "cap_ok cap" and a: "spsc_at cap (idle r pu po) h t"
  shows "\<exists>r'. pop cap r = Some (r', if length po < length pu then Some (pu ! length po) else None) \<and>
    (\<exists>h t. spsc_at cap (idle r' pu (if length po < length pu then po @ [pu ! length po] else po)) h t)"
proof -
  let ?s = "idle r pu po"
  obtain r1 where c: "pop_check r = (length po < length pu, r1)"
    using pop_check_at [OF ok a] spsc_atD(8,9) [OF a] by (auto split: if_splits)
  show ?thesis
  proof (cases "length po < length pu")
    case False
    then have "spsc_step cap ?s Pop_empty (?s\<lparr>ring := r1\<rparr>)" using c by (intro c_empty) auto
    then have "spsc_step cap ?s Pop_empty (idle r1 pu po)" by (simp add: idle_def)
    from spsc_step_at [OF ok a this] show ?thesis using False c by (simp add: pop_def)
  next
    case True
    let ?x = "pu ! length po"
    have "spsc_step cap ?s Pop_some (?s\<lparr>ring := r1, cons_at := C_read\<rparr>)"
      using True c by (intro c_some) auto
    from spsc_step_at [OF ok a this] obtain h1 t1 where
      a1: "spsc_at cap (?s\<lparr>ring := r1, cons_at := C_read\<rparr>) h1 t1" by blast
    then have "length po < t1" using spsc_atD(16) [OF a1] by simp
    then have rd: "pop_read cap r1 = Some ?x" using pop_read_at [OF ok a1] by simp
    have "spsc_step cap (?s\<lparr>ring := r1, cons_at := C_read\<rparr>) Read
        (?s\<lparr>ring := r1, cons_at := C_read\<rparr>\<lparr>cons_at := C_release ?x\<rparr>)"
      using rd by (intro c_read) auto
    from spsc_step_at [OF ok a1 this] obtain h2 t2 where
      a2: "spsc_at cap (?s\<lparr>ring := r1, cons_at := C_release ?x\<rparr>) h2 t2" by auto
    have "spsc_step cap (?s\<lparr>ring := r1, cons_at := C_release ?x\<rparr>) Release
        (?s\<lparr>ring := r1, cons_at := C_release ?x\<rparr>\<lparr>ring := pop_release r1, cons_at := C_idle, popped := po @ [?x]\<rparr>)"
      using c_release [of "?s\<lparr>ring := r1, cons_at := C_release ?x\<rparr>" ?x cap] by simp
    then have "spsc_step cap (?s\<lparr>ring := r1, cons_at := C_release ?x\<rparr>) Release (idle (pop_release r1) pu (po @ [?x]))"
      by (simp add: idle_def)
    from spsc_step_at [OF ok a2 this] show ?thesis using True c rd by (simp add: pop_def)
  qed
qed

lemma spsc_okE:
  assumes "spsc_ok cap r"
  obtains pu po h t where "cap_ok cap" "spsc_at cap (idle r pu po) h t" "ring_items cap r = drop (length po) pu"
    "length po \<le> length pu" "length pu \<le> length po + cap"
proof -
  obtain pu po h t where a: "cap_ok cap" "spsc_at cap (idle r pu po) h t" using assms by (auto simp: spsc_ok_def)
  show ?thesis
    using that [OF a] ring_items_at [OF a] spsc_atD(7-10) [OF a(2)] by simp
qed

interpretation spsc_fifo: bounded_fifo "emplace cap" "pop cap" "ring_items cap" "spsc_ok cap" cap for cap
proof unfold_locales
  fix r :: "'a spsc" and x
  assume "spsc_ok cap r"
  then obtain pu po h t where a: "cap_ok cap" "spsc_at cap (idle r pu po) h t"
    and it: "ring_items cap r = drop (length po) pu" and le: "length po \<le> length pu" "length pu \<le> length po + cap"
    by (rule spsc_okE)
  have new: "spsc_ok cap r' \<and> ring_items cap r' = drop (length po') pu'"
    if "\<exists>h t. spsc_at cap (idle r' pu' po') h t" for r' pu' po'
    using that a(1) ring_items_at [OF a(1)] by (fastforce simp: spsc_ok_def)
  show "length (ring_items cap r) \<le> cap" using it le by simp
  obtain r' where e: "emplace cap r x = Some (r', length pu < length po + cap)"
    "\<exists>h t. spsc_at cap (idle r' (if length pu < length po + cap then pu @ [x] else pu) po) h t"
    using emplace_idle [OF a] by blast
  show "length (ring_items cap r) < cap \<Longrightarrow>
      \<exists>r'. emplace cap r x = Some (r', True) \<and> spsc_ok cap r' \<and> ring_items cap r' = ring_items cap r @ [x]"
    using e new [OF e(2)] it le by auto
  show "length (ring_items cap r) = cap \<Longrightarrow>
      \<exists>r'. emplace cap r x = Some (r', False) \<and> spsc_ok cap r' \<and> ring_items cap r' = ring_items cap r"
    using e new [OF e(2)] it le by auto
  obtain r'' where p: "pop cap r = Some (r'', if length po < length pu then Some (pu ! length po) else None)"
    "\<exists>h t. spsc_at cap (idle r'' pu (if length po < length pu then po @ [pu ! length po] else po)) h t"
    using pop_idle [OF a] by blast
  show "ring_items cap r = [] \<Longrightarrow> \<exists>r'. pop cap r = Some (r', None) \<and> spsc_ok cap r' \<and> ring_items cap r' = []"
    using p new [OF p(2)] it le by auto
  fix y xs
  assume i: "ring_items cap r = y # xs"
  then have lt: "length po < length pu" using it by (cases "length po < length pu") auto
  have "pu ! length po = y" "drop (Suc (length po)) pu = xs"
    using Cons_nth_drop_Suc [OF lt] i it by simp_all
  then show "\<exists>r'. pop cap r = Some (r', Some y) \<and> spsc_ok cap r' \<and> ring_items cap r' = xs"
    using lt p new [OF p(2)] by auto
qed

section \<open>Running a schedule\<close>

text \<open>The step relation as a function of the event, for concrete schedules.\<close>

fun spsc_exec :: "nat \<Rightarrow> 'a spsc_sys \<Rightarrow> 'a spsc_event \<Rightarrow> 'a spsc_sys option" where
  "spsc_exec cap s (Emplace_full x) = (case prod_at s of P_idle \<Rightarrow>
     (case emplace_check cap (ring s) of (room, r) \<Rightarrow> if room then None else Some (s\<lparr>ring := r\<rparr>)) | _ \<Rightarrow> None)"
| "spsc_exec cap s (Emplace_room x) = (case prod_at s of P_idle \<Rightarrow>
     (case emplace_check cap (ring s) of (room, r) \<Rightarrow>
       if room then Some (s\<lparr>ring := r, prod_at := P_write x\<rparr>) else None) | _ \<Rightarrow> None)"
| "spsc_exec cap s Write = (case prod_at s of P_write x \<Rightarrow>
     do { r \<leftarrow> emplace_write cap x (ring s); Some (s\<lparr>ring := r, prod_at := P_publish x\<rparr>) } | _ \<Rightarrow> None)"
| "spsc_exec cap s Publish = (case prod_at s of P_publish x \<Rightarrow>
     Some (s\<lparr>ring := emplace_publish (ring s), prod_at := P_idle, pushed := pushed s @ [x]\<rparr>) | _ \<Rightarrow> None)"
| "spsc_exec cap s Pop_empty = (case cons_at s of C_idle \<Rightarrow>
     (case pop_check (ring s) of (some, r) \<Rightarrow> if some then None else Some (s\<lparr>ring := r\<rparr>)) | _ \<Rightarrow> None)"
| "spsc_exec cap s Pop_some = (case cons_at s of C_idle \<Rightarrow>
     (case pop_check (ring s) of (some, r) \<Rightarrow>
       if some then Some (s\<lparr>ring := r, cons_at := C_read\<rparr>) else None) | _ \<Rightarrow> None)"
| "spsc_exec cap s Read = (case cons_at s of C_read \<Rightarrow>
     do { x \<leftarrow> pop_read cap (ring s); Some (s\<lparr>cons_at := C_release x\<rparr>) } | _ \<Rightarrow> None)"
| "spsc_exec cap s Release = (case cons_at s of C_release x \<Rightarrow>
     Some (s\<lparr>ring := pop_release (ring s), cons_at := C_idle, popped := popped s @ [x]\<rparr>) | _ \<Rightarrow> None)"

lemma spsc_exec_step: "spsc_exec cap s e = Some s' \<Longrightarrow> spsc_step cap s e s'"
  by (cases e) (auto split: producer.splits consumer.splits prod.splits if_splits bind_splits intro: spsc_step.intros)

fun spsc_execs :: "nat \<Rightarrow> 'a spsc_sys \<Rightarrow> 'a spsc_event list \<Rightarrow> 'a spsc_sys option" where
  "spsc_execs cap s [] = Some s"
| "spsc_execs cap s (e # es) = do { s \<leftarrow> spsc_exec cap s e; spsc_execs cap s es }"

lemma spsc_execs_run: "spsc_execs cap s es = Some s' \<Longrightarrow> spsc_run cap x0 s \<Longrightarrow> spsc_run cap x0 s'"
  by (induction es arbitrary: s) (auto split: bind_splits dest: spsc_exec_step intro: spsc_run.step)

text \<open>Under the invariant each thread can make its next step; what the step leaves behind.\<close>

lemma spsc_exec_inv: "spsc_inv cap s \<Longrightarrow> spsc_exec cap s e = Some s' \<Longrightarrow> spsc_inv cap s'"
  using spsc_exec_step spsc_step_at unfolding spsc_inv_def by metis

lemma exec_offer:
  assumes "spsc_inv cap s" and "prod_at s = P_idle"
  obtains (room) r where "spsc_exec cap s (Emplace_room x) = Some (s\<lparr>ring := r, prod_at := P_write x\<rparr>)"
  | (full) r where "spsc_exec cap s (Emplace_room x) = None" "spsc_exec cap s (Emplace_full x) = Some (s\<lparr>ring := r\<rparr>)"
      "length (pushed s) = length (popped s) + cap"
proof -
  obtain h t where ok: "cap_ok cap" and a: "spsc_at cap s h t" using assms(1) by (auto simp: spsc_inv_def)
  obtain c r where c: "emplace_check cap (ring s) = (c, r)" by (metis surj_pair)
  show ?thesis
  proof (cases c)
    case True
    then show ?thesis using room [of r] c assms(2) by simp
  next
    case False
    then have "length (pushed s) = length (popped s) + cap"
      using c emplace_check_at [OF ok a] spsc_atD(7,10) [OF a] by (auto split: if_splits)
    then show ?thesis using full [of r] False c assms(2) by simp
  qed
qed

lemma exec_write:
  assumes "spsc_inv cap s" and "prod_at s = P_write x"
  obtains r where "spsc_exec cap s Write = Some (s\<lparr>ring := r, prod_at := P_publish x\<rparr>)"
proof -
  obtain h t where ok: "cap_ok cap" and a: "spsc_at cap s h t" using assms(1) by (auto simp: spsc_inv_def)
  show ?thesis using that emplace_write_at [OF ok a, of x] assms(2) by simp
qed

lemma exec_take:
  assumes "spsc_inv cap s" and "cons_at s = C_idle"
  obtains (some) r where "spsc_exec cap s Pop_some = Some (s\<lparr>ring := r, cons_at := C_read\<rparr>)"
      "length (popped s) < length (pushed s)"
  | (empty) r where "spsc_exec cap s Pop_some = None" "spsc_exec cap s Pop_empty = Some (s\<lparr>ring := r\<rparr>)"
      "popped s = pushed s"
proof -
  obtain h t where ok: "cap_ok cap" and a: "spsc_at cap s h t" using assms(1) by (auto simp: spsc_inv_def)
  note d = spsc_atD [OF a]
  obtain c r where c: "pop_check (ring s) = (c, r)" by (metis surj_pair)
  have "c \<longleftrightarrow> length (popped s) < length (pushed s)"
    using c pop_check_at [OF ok a] d(8,9) by (auto split: if_splits)
  then show ?thesis using some [of r] empty [of r] c assms(2) d(8,9,12) by (cases c) auto
qed

lemma exec_read:
  assumes "spsc_inv cap s" and "cons_at s = C_read"
  obtains x where "spsc_exec cap s Read = Some (s\<lparr>cons_at := C_release x\<rparr>)" "length (popped s) < length (pushed s)"
proof -
  obtain h t where ok: "cap_ok cap" and a: "spsc_at cap s h t" using assms(1) by (auto simp: spsc_inv_def)
  have "length (popped s) < t" by (rule spsc_atD(16) [OF a assms(2)])
  then show ?thesis using that pop_read_at [OF ok a] assms(2) spsc_atD(9) [OF a] by simp
qed

lemma spsc_inv_popped:
  assumes "spsc_inv cap s"
  shows "popped s = take (length (popped s)) (pushed s)" "length (popped s) \<le> length (pushed s)"
    "cons_at s \<noteq> C_idle \<Longrightarrow> length (popped s) < length (pushed s)"
proof -
  obtain h t where a: "spsc_at cap s h t" using assms by (auto simp: spsc_inv_def)
  note d = spsc_atD [OF a]
  show "popped s = take (length (popped s)) (pushed s)" "length (popped s) \<le> length (pushed s)"
    using d(8,9,12) by simp_all
  show "cons_at s \<noteq> C_idle \<Longrightarrow> length (popped s) < length (pushed s)"
    using d(9,16) d(17) by (cases "cons_at s") fastforce+
qed

lemma spsc_inv_idle:
  assumes "spsc_inv cap s" and "prod_at s = P_idle" and "cons_at s = C_idle"
  shows "spsc_ok cap (ring s)" "ring_items cap (ring s) = drop (length (popped s)) (pushed s)"
proof -
  obtain h t where ok: "cap_ok cap" and a: "spsc_at cap s h t" using assms(1) by (auto simp: spsc_inv_def)
  have "idle (ring s) (pushed s) (popped s) = s" using assms(2,3) by (simp add: idle_def)
  then show "spsc_ok cap (ring s)" using ok a unfolding spsc_ok_def by metis
  show "ring_items cap (ring s) = drop (length (popped s)) (pushed s)" by (rule ring_items_at [OF ok a])
qed

definition demo_sys :: "nat spsc_sys" where
  "demo_sys = the (spsc_execs 2 (spsc_start 2 0)
     [Emplace_room 7, Write, Publish, Emplace_room 8, Pop_some])"

lemma demo_sys_run: "spsc_run 2 0 demo_sys" "prod_at demo_sys = P_write 8" "cons_at demo_sys = C_read"
  "pushed demo_sys = [7]" "popped demo_sys = []"
proof -
  let ?r = "spsc_execs 2 (spsc_start 2 (0 :: nat)) [Emplace_room 7, Write, Publish, Emplace_room 8, Pop_some]"
  have "?r \<noteq> None" by code_simp
  then have "?r = Some demo_sys" by (auto simp: demo_sys_def)
  then show "spsc_run 2 0 demo_sys" by (rule spsc_execs_run) (rule spsc_run.init)
  show "prod_at demo_sys = P_write 8" by code_simp
  show "cons_at demo_sys = C_read" by code_simp
  show "pushed demo_sys = [7]" by code_simp
  show "popped demo_sys = []" by code_simp
qed

lemma demo_cap: "cap_ok 2" "cap_ok 1"
  unfolding cap_ok_def by (rule exI [of _ 1]; simp) (rule exI [of _ 0]; simp)

section \<open>Properties\<close>

text \<open>
  C32: in every interleaving of the two threads the items handed out are, in order and without
  loss or repetition, the first ones of those accepted, and never more than the capacity are
  under way, also after the 64-bit counters have wrapped.
\<close>

theorem spsc_is_fifo:
  assumes "cap_ok cap" and "spsc_run cap x0 s"
  shows "popped s = take (length (popped s)) (pushed s) \<and> length (pushed s) \<le> length (popped s) + cap \<and>
    ring_items cap (ring s) = drop (length (popped s)) (pushed s)"
proof -
  obtain h t where a: "spsc_at cap s h t" using spsc_run_inv [OF assms(2,1)] by (auto simp: spsc_inv_def)
  show ?thesis using spsc_atD(7,10,12) [OF a] ring_items_at [OF assms(1) a] by linarith
qed

theorem spsc_is_fifo_witness:
  "popped demo_sys = take (length (popped demo_sys)) (pushed demo_sys) \<and>
    length (pushed demo_sys) \<le> length (popped demo_sys) + 2 \<and> ring_items 2 (ring demo_sys) = [7]"
  using spsc_is_fifo [OF demo_cap(1) demo_sys_run(1)] by (simp add: demo_sys_run)

text \<open>
  C33: the buffer element the producer is about to write is never the one the consumer is about
  to read: the unsynchronised accesses to the buffer do not race.
\<close>

theorem spsc_has_no_race:
  assumes "cap_ok cap" and "spsc_run cap x0 s" and "prod_at s = P_write x" and "cons_at s = C_read"
  shows "ring_slot cap (tail_cached (ring s)) \<noteq> ring_slot cap (head_cached_consumer (ring s))"
proof -
  obtain h t where a: "spsc_at cap s h t" using spsc_run_inv [OF assms(2,1)] by (auto simp: spsc_inv_def)
  note d = spsc_atD [OF a]
  have "length (popped s) mod cap \<noteq> length (pushed s) mod cap"
    using d(7-9) d(14) [OF assms(3)] d(16) [OF assms(4)] by (intro slots_apart) linarith+
  then show ?thesis by (simp add: d(2,4) ring_slot_of_nat [OF assms(1)])
qed

theorem spsc_has_no_race_witness:
  "ring_slot 2 (tail_cached (ring demo_sys)) \<noteq> ring_slot 2 (head_cached_consumer (ring demo_sys))"
  by (rule spsc_has_no_race [OF demo_cap(1) demo_sys_run(1-3)])

text \<open>
  C34: the answer false is justified.  The producer gives up only when a full capacity of items
  is under way, the consumer only when every accepted item has been handed out.
\<close>

theorem spsc_refusals_are_genuine:
  assumes "cap_ok cap" and "spsc_run cap x0 s" and "spsc_step cap s e s'"
  shows "(case e of Emplace_full x \<Rightarrow> length (pushed s) = length (popped s) + cap
    | Pop_empty \<Rightarrow> popped s = pushed s | _ \<Rightarrow> True)"
proof -
  obtain h t where a: "spsc_at cap s h t" using spsc_run_inv [OF assms(2,1)] by (auto simp: spsc_inv_def)
  note d = spsc_atD [OF a]
  from assms(3) show ?thesis
  proof (cases rule: spsc_step.cases)
    case (p_full r x)
    then show ?thesis using emplace_check_at [OF assms(1) a] d(7,10) by (auto split: if_splits)
  next
    case (c_empty r)
    then have "length (popped s) = length (pushed s)"
      using pop_check_at [OF assms(1) a] d(8,9) by (auto split: if_splits)
    then have "popped s = pushed s" using d(12) by simp
    then show ?thesis using c_empty by simp
  qed simp_all
qed

definition demo_full :: "nat spsc_sys" where
  "demo_full = the (spsc_execs 1 (spsc_start 1 0) [Emplace_room 7, Write, Publish])"

lemma demo_full_run: "spsc_run 1 0 demo_full"
proof -
  have "spsc_execs 1 (spsc_start 1 (0 :: nat)) [Emplace_room 7, Write, Publish] \<noteq> None" by code_simp
  then have "spsc_execs 1 (spsc_start 1 0) [Emplace_room 7, Write, Publish] = Some demo_full"
    unfolding demo_full_def by (metis option.exhaust_sel)
  then show ?thesis by (rule spsc_execs_run) (rule spsc_run.init)
qed

theorem spsc_refusals_are_genuine_witness:
  "\<exists>s'. spsc_step 1 demo_full (Emplace_full 9) s' \<and> length (pushed demo_full) = length (popped demo_full) + 1"
proof -
  have "spsc_exec 1 demo_full (Emplace_full 9) \<noteq> None" by code_simp
  then obtain s' where "spsc_step 1 demo_full (Emplace_full 9) s'" using spsc_exec_step by blast
  then show ?thesis using spsc_refusals_are_genuine [OF demo_cap(2) demo_full_run] by fastforce
qed

text \<open>
  C35: neither thread ever waits for the other or accesses the buffer out of bounds: in every
  reachable state each of them has a next step.
\<close>

theorem spsc_is_wait_free:
  assumes "cap_ok cap" and "spsc_run cap x0 s"
  shows "(\<exists>e s'. e \<in> {Emplace_full x, Emplace_room x, Write, Publish} \<and> spsc_step cap s e s') \<and>
    (\<exists>e s'. e \<in> {Pop_empty, Pop_some, Read, Release} \<and> spsc_step cap s e s')"
proof
  obtain h t where a: "spsc_at cap s h t" using spsc_run_inv [OF assms(2,1)] by (auto simp: spsc_inv_def)
  show "\<exists>e s'. e \<in> {Emplace_full x, Emplace_room x, Write, Publish} \<and> spsc_step cap s e s'"
  proof (cases "prod_at s")
    case P_idle
    obtain room r where c: "emplace_check cap (ring s) = (room, r)" by (metis surj_pair)
    show ?thesis
    proof (cases room)
      case True
      with c have "emplace_check cap (ring s) = (True, r)" by simp
      from p_room [OF P_idle this, where x = x] show ?thesis by blast
    next
      case False
      with c have "emplace_check cap (ring s) = (False, r)" by simp
      from p_full [OF P_idle this, where x = x] show ?thesis by blast
    qed
  next
    case (P_write y)
    from p_write [OF P_write emplace_write_at [OF assms(1) a]] show ?thesis by blast
  next
    case (P_publish y)
    from p_publish [OF P_publish] show ?thesis by blast
  qed
  show "\<exists>e s'. e \<in> {Pop_empty, Pop_some, Read, Release} \<and> spsc_step cap s e s'"
  proof (cases "cons_at s")
    case C_idle
    obtain some r where c: "pop_check (ring s) = (some, r)" by (metis surj_pair)
    show ?thesis
    proof (cases some)
      case True
      with c have "pop_check (ring s) = (True, r)" by simp
      from c_some [OF C_idle this] show ?thesis by blast
    next
      case False
      with c have "pop_check (ring s) = (False, r)" by simp
      from c_empty [OF C_idle this] show ?thesis by blast
    qed
  next
    case C_read
    from c_read [OF C_read pop_read_at [OF assms(1) a spsc_atD(16) [OF a C_read]]] show ?thesis by blast
  next
    case (C_release v)
    from c_release [OF C_release] show ?thesis by blast
  qed
qed

theorem spsc_is_wait_free_witness:
  "(\<exists>e s'. e \<in> {Emplace_full 5, Emplace_room 5, Write, Publish} \<and> spsc_step 2 demo_sys e s') \<and>
    (\<exists>e s'. e \<in> {Pop_empty, Pop_some, Read, Release} \<and> spsc_step 2 demo_sys e s')"
  by (rule spsc_is_wait_free [OF demo_cap(1) demo_sys_run(1)])

end
