(* ===== verification/Async_Logger.thy ===== *)
theory Async_Logger
  imports Spsc_Queue Nano_Types "HOL-Library.Sublist"
begin

text \<open>
  The trade log of \<open>src/logging/AsyncLogger.hpp\<close>: the matching thread hands trades to the
  ring, a worker thread drains it into a CSV file, and \<open>stop\<close> joins the worker and drains what
  is left.  The two threads are cut at their accesses to shared memory: inside \<open>emplace\<close> and
  \<open>pop\<close> as in \<open>Spsc_Queue\<close>, and around them at the load of \<open>running_\<close>, the write of a line and
  the count of a dropped trade.  A schedule is the list of the steps taken.  The file is the list
  of characters written since \<open>start\<close> opened it.  The capacity is a parameter; the code's is
  \<open>kCapacity\<close>.
\<close>

section \<open>The code\<close>

definition kCapacity :: nat where
  "kCapacity = 4194304"

text \<open>Where the matching thread is outside \<open>emplace\<close>, and where the worker is outside \<open>pop\<close>.\<close>

datatype main_thread = M_run | M_lost | M_join | M_done

datatype worker_thread = W_test | W_drain | W_line trade | W_gone

record async_logger =
  queue :: "trade spsc_sys"
  out :: string
  dropped :: u64
  running :: bool
  warned :: bool
  main_at :: main_thread
  worker_at :: worker_thread

definition logger_new :: "nat \<Rightarrow> trade \<Rightarrow> async_logger" where
  "logger_new cap t0 = \<lparr>queue = spsc_start cap t0, out = [], dropped = 0, running = False, warned = False,
     main_at = M_run, worker_at = W_gone\<rparr>"

text \<open>\<open>operator<<\<close> on an unsigned integer.\<close>

fun dec :: "nat \<Rightarrow> string" where
  "dec n = (if n < 10 then [char_of (48 + n)] else dec (n div 10) @ [char_of (48 + n mod 10)])"

declare dec.simps [simp del]

definition newline :: string where
  "newline = [char_of (10 :: nat)]"

definition header :: string where
  "header = ''maker_id,taker_id,price,qty,timestamp'' @ newline"

definition trade_line :: "trade \<Rightarrow> string" where
  "trade_line t = dec (unat (maker_id t)) @ '','' @ dec (unat (taker_id t)) @ '','' @
     dec (unat (tprice t)) @ '','' @ dec (unat (tqty t)) @ '','' @ dec (unat (timestamp t)) @ newline"

definition log_start :: "async_logger \<Rightarrow> async_logger" where
  "log_start l = (if running l then l else l\<lparr>running := True, out := header, worker_at := W_test\<rparr>)"

text \<open>
  \<open>enqueue_trade\<close>: the answer of \<open>emplace\<close> is known after its check; a refused trade is counted
  in a step of its own.
\<close>

definition enqueue_trade :: "nat \<Rightarrow> async_logger \<Rightarrow> trade \<Rightarrow> async_logger option" where
  "enqueue_trade cap l t = (case spsc_exec cap (queue l) (Emplace_room t) of
       Some q \<Rightarrow> Some (l\<lparr>queue := q\<rparr>)
     | None \<Rightarrow> map_option (\<lambda>q. l\<lparr>queue := q, main_at := M_lost\<rparr>) (spsc_exec cap (queue l) (Emplace_full t)))"

definition enqueue_more :: "nat \<Rightarrow> async_logger \<Rightarrow> async_logger option" where
  "enqueue_more cap l = (case prod_at (queue l) of
       P_idle \<Rightarrow> None
     | P_write t \<Rightarrow> map_option (\<lambda>q. l\<lparr>queue := q\<rparr>) (spsc_exec cap (queue l) Write)
     | P_publish t \<Rightarrow> map_option (\<lambda>q. l\<lparr>queue := q\<rparr>) (spsc_exec cap (queue l) Publish))"

definition count_dropped :: "async_logger \<Rightarrow> async_logger" where
  "count_dropped l = l\<lparr>dropped := dropped l + 1, main_at := M_run\<rparr>"

text \<open>The loop of \<open>drain\<close> as the worker runs it, one step at a time.\<close>

definition drain_step :: "nat \<Rightarrow> async_logger \<Rightarrow> async_logger option" where
  "drain_step cap l = (case cons_at (queue l) of
       C_idle \<Rightarrow> (case spsc_exec cap (queue l) Pop_some of
           Some q \<Rightarrow> Some (l\<lparr>queue := q\<rparr>)
         | None \<Rightarrow> map_option (\<lambda>q. l\<lparr>queue := q, worker_at := W_test\<rparr>) (spsc_exec cap (queue l) Pop_empty))
     | C_read \<Rightarrow> map_option (\<lambda>q. l\<lparr>queue := q\<rparr>) (spsc_exec cap (queue l) Read)
     | C_release t \<Rightarrow> map_option (\<lambda>q. l\<lparr>queue := q, worker_at := W_line t\<rparr>) (spsc_exec cap (queue l) Release))"

text \<open>\<open>run\<close>: the sleep after a pass without trades has no effect here.\<close>

definition worker_step :: "nat \<Rightarrow> async_logger \<Rightarrow> async_logger option" where
  "worker_step cap l = (case worker_at l of
       W_test \<Rightarrow> Some (l\<lparr>worker_at := if running l then W_drain else W_gone\<rparr>)
     | W_drain \<Rightarrow> drain_step cap l
     | W_line t \<Rightarrow> Some (l\<lparr>out := out l @ trade_line t, worker_at := W_drain\<rparr>)
     | W_gone \<Rightarrow> None)"

text \<open>\<open>drain\<close> without interruption, as \<open>stop\<close> calls it when the worker is gone.\<close>

partial_function (option) drain_while :: "nat \<Rightarrow> trade spsc \<Rightarrow> string \<Rightarrow> (trade spsc \<times> string) option" where
  "drain_while cap r w = do {
     (r, m) \<leftarrow> pop cap r;
     (case m of None \<Rightarrow> Some (r, w) | Some t \<Rightarrow> drain_while cap r (w @ trade_line t))
   }"

lemma drain_while_code [code]: "drain_while cap r w = do {
    (r, m) \<leftarrow> pop cap r;
    (if m = None then Some (r, w) else drain_while cap r (w @ trade_line (the m)))
  }"
  by (subst drain_while.simps) (auto intro!: Option.bind_cong split: option.split)

text \<open>\<open>stop\<close> up to the join; without a running worker it does nothing.\<close>

definition log_stop :: "async_logger \<Rightarrow> async_logger option" where
  "log_stop l = (if prod_at (queue l) \<noteq> P_idle then None
     else if \<not> running l then Some l
     else Some (l\<lparr>running := False, main_at := M_join\<rparr>))"

definition log_close :: "nat \<Rightarrow> async_logger \<Rightarrow> async_logger option" where
  "log_close cap l = (if worker_at l \<noteq> W_gone then None
     else do {
       (r, w) \<leftarrow> drain_while cap (ring (queue l)) (out l);
       Some (l\<lparr>queue := (queue l)\<lparr>ring := r\<rparr>, out := w, warned := dropped l > 0, main_at := M_done\<rparr>)
     })"

section \<open>Schedules\<close>

text \<open>
  The matching thread begins a call of \<open>enqueue_trade\<close> or of \<open>stop\<close>, or goes on with its call;
  the worker makes a step.
\<close>

datatype log_event = Log trade | Stop | Main | Worker

fun log_do :: "nat \<Rightarrow> async_logger \<Rightarrow> log_event \<Rightarrow> async_logger option" where
  "log_do cap l (Log t) = (if main_at l = M_run then enqueue_trade cap l t else None)"
| "log_do cap l Stop = (if main_at l = M_run then log_stop l else None)"
| "log_do cap l Main = (case main_at l of
       M_run \<Rightarrow> enqueue_more cap l
     | M_lost \<Rightarrow> Some (count_dropped l)
     | M_join \<Rightarrow> log_close cap l
     | M_done \<Rightarrow> None)"
| "log_do cap l Worker = worker_step cap l"

fun log_run :: "nat \<Rightarrow> async_logger \<Rightarrow> log_event list \<Rightarrow> async_logger option" where
  "log_run cap l [] = Some l"
| "log_run cap l (e # es) = do { l \<leftarrow> log_do cap l e; log_run cap l es }"

fun logged :: "log_event list \<Rightarrow> trade list" where
  "logged [] = []"
| "logged (Log t # es) = t # logged es"
| "logged (_ # es) = logged es"

text \<open>A session from \<open>start\<close> to the end of \<open>stop\<close> in which the trades \<open>ts\<close> are logged.\<close>

definition log_session :: "nat \<Rightarrow> trade \<Rightarrow> trade list \<Rightarrow> async_logger \<Rightarrow> bool" where
  "log_session cap t0 ts l \<longleftrightarrow>
     (\<exists>es. log_run cap (log_start (logger_new cap t0)) es = Some l \<and> main_at l = M_done \<and> logged es = ts)"

abbreviation lines :: "trade list \<Rightarrow> string" where
  "lines ts \<equiv> concat (map trade_line ts)"

lemma log_run_append: "log_run cap l (es @ es') = do { l \<leftarrow> log_run cap l es; log_run cap l es' }"
  by (induction es arbitrary: l) (auto split: Option.bind_splits)

lemma logged_append [simp]: "logged (es @ es') = logged es @ logged es'"
  by (induction es rule: logged.induct) simp_all

section \<open>The invariant\<close>

text \<open>
  \<open>lg\<close> are the trades logged so far.  They are those in the ring or in the file, the one in
  \<open>emplace\<close>, and \<open>n\<close> refused ones; what has been popped is in the file but for the line under way.
\<close>

definition entering :: "async_logger \<Rightarrow> trade list" where
  "entering l = (case prod_at (queue l) of P_idle \<Rightarrow> [] | P_write t \<Rightarrow> [t] | P_publish t \<Rightarrow> [t])"

definition leaving :: "async_logger \<Rightarrow> trade list" where
  "leaving l = (case worker_at l of W_line t \<Rightarrow> [t] | _ \<Rightarrow> [])"

definition log_at :: "nat \<Rightarrow> async_logger \<Rightarrow> trade list \<Rightarrow> nat \<Rightarrow> bool" where
  "log_at cap l lg n \<longleftrightarrow> main_at l \<noteq> M_done \<and> spsc_inv cap (queue l) \<and>
     subseq (pushed (queue l) @ entering l) lg \<and>
     length lg = length (pushed (queue l)) + length (entering l) + n \<and>
     dropped l = of_nat (if main_at l = M_lost then n - 1 else n) \<and>
     (main_at l = M_lost \<longrightarrow> 0 < n) \<and> (main_at l \<noteq> M_run \<longrightarrow> prod_at (queue l) = P_idle) \<and>
     (0 < n \<longrightarrow> cap < length lg) \<and>
     out l @ lines (leaving l) = header @ lines (popped (queue l)) \<and>
     (worker_at l \<noteq> W_drain \<longrightarrow> cons_at (queue l) = C_idle) \<and> (worker_at l = W_gone \<longrightarrow> main_at l = M_join) \<and>
     (running l \<longleftrightarrow> main_at l \<noteq> M_join)"

lemma log_atD:
  assumes "log_at cap l lg n"
  shows "main_at l \<noteq> M_done" "spsc_inv cap (queue l)" "subseq (pushed (queue l) @ entering l) lg"
    "length lg = length (pushed (queue l)) + length (entering l) + n"
    "dropped l = of_nat (if main_at l = M_lost then n - 1 else n)" "main_at l = M_lost \<Longrightarrow> 0 < n"
    "main_at l \<noteq> M_run \<Longrightarrow> prod_at (queue l) = P_idle" "0 < n \<Longrightarrow> cap < length lg"
    "out l @ lines (leaving l) = header @ lines (popped (queue l))"
    "worker_at l \<noteq> W_drain \<Longrightarrow> cons_at (queue l) = C_idle" "worker_at l = W_gone \<Longrightarrow> main_at l = M_join"
    "running l \<longleftrightarrow> main_at l \<noteq> M_join"
  using assms by (simp_all add: log_at_def)

lemma log_start_at: "cap_ok cap \<Longrightarrow> log_at cap (log_start (logger_new cap t0)) [] 0"
  using spsc_start_inv [of cap t0]
  by (simp add: log_at_def log_start_def logger_new_def spsc_start_def entering_def leaving_def)

text \<open>A trade enters \<open>emplace\<close>, or is refused because the ring is full.\<close>

lemma enqueue_trade_at:
  assumes a: "log_at cap l lg n" and m: "main_at l = M_run" "prod_at (queue l) = P_idle"
  obtains (enters) l' where "enqueue_trade cap l t = Some l'" "log_at cap l' (lg @ [t]) n"
      "main_at l' = M_run" "prod_at (queue l') = P_write t"
  | (refused) l' where "enqueue_trade cap l t = Some l'" "log_at cap l' (lg @ [t]) (Suc n)" "main_at l' = M_lost"
  using log_atD(2) [OF a] m(2)
proof (cases rule: exec_offer [where x = t])
  case (room r)
  let ?q = "(queue l)\<lparr>ring := r, prod_at := P_write t\<rparr>"
  have "spsc_inv cap ?q" by (rule spsc_exec_inv [OF log_atD(2) [OF a] room])
  then have "log_at cap (l\<lparr>queue := ?q\<rparr>) (lg @ [t]) n"
    using a m by (auto simp: log_at_def entering_def leaving_def)
  then show ?thesis using enters [of "l\<lparr>queue := ?q\<rparr>"] room m(1) by (simp add: enqueue_trade_def)
next
  case (full r)
  let ?q = "(queue l)\<lparr>ring := r\<rparr>"
  have "spsc_inv cap ?q" by (rule spsc_exec_inv [OF log_atD(2) [OF a] full(2)])
  moreover have "cap < length (lg @ [t])" using full(3) log_atD(4) [OF a] by simp
  ultimately have "log_at cap (l\<lparr>queue := ?q, main_at := M_lost\<rparr>) (lg @ [t]) (Suc n)"
    using a m by (auto simp: log_at_def entering_def leaving_def)
  then show ?thesis using refused [of "l\<lparr>queue := ?q, main_at := M_lost\<rparr>"] full by (simp add: enqueue_trade_def)
qed

lemma enqueue_more_at:
  assumes a: "log_at cap l lg n" and m: "main_at l = M_run" and p: "prod_at (queue l) \<noteq> P_idle"
  obtains l' where "enqueue_more cap l = Some l'" "log_at cap l' lg n" "main_at l' = M_run"
    "prod_at (queue l') = (case prod_at (queue l) of P_write t \<Rightarrow> P_publish t | _ \<Rightarrow> P_idle)"
proof (cases "prod_at (queue l)")
  case (P_write t)
  obtain r where r: "spsc_exec cap (queue l) Write = Some ((queue l)\<lparr>ring := r, prod_at := P_publish t\<rparr>)"
    by (rule exec_write [OF log_atD(2) [OF a] P_write])
  let ?q = "(queue l)\<lparr>ring := r, prod_at := P_publish t\<rparr>"
  have "spsc_inv cap ?q" by (rule spsc_exec_inv [OF log_atD(2) [OF a] r])
  then have "log_at cap (l\<lparr>queue := ?q\<rparr>) lg n"
    using a m P_write by (auto simp: log_at_def entering_def leaving_def)
  then show ?thesis using that [of "l\<lparr>queue := ?q\<rparr>"] r m P_write by (simp add: enqueue_more_def)
next
  case (P_publish t)
  let ?q = "(queue l)\<lparr>ring := emplace_publish (ring (queue l)), prod_at := P_idle, pushed := pushed (queue l) @ [t]\<rparr>"
  have r: "spsc_exec cap (queue l) Publish = Some ?q" using P_publish by simp
  have "spsc_inv cap ?q" by (rule spsc_exec_inv [OF log_atD(2) [OF a] r])
  then have "log_at cap (l\<lparr>queue := ?q\<rparr>) lg n"
    using a m P_publish by (auto simp: log_at_def entering_def leaving_def)
  then show ?thesis using that [of "l\<lparr>queue := ?q\<rparr>"] r m P_publish by (simp add: enqueue_more_def)
qed (use p in simp)

lemma count_dropped_at:
  assumes a: "log_at cap l lg n" and m: "main_at l = M_lost"
  shows "log_at cap (count_dropped l) lg n"
  using a m by (cases n) (auto simp: log_at_def count_dropped_def entering_def leaving_def add.commute)

lemma log_stop_at:
  assumes a: "log_at cap l lg n" and m: "main_at l = M_run" "prod_at (queue l) = P_idle"
  shows "log_stop l = Some (l\<lparr>running := False, main_at := M_join\<rparr>)"
    "log_at cap (l\<lparr>running := False, main_at := M_join\<rparr>) lg n"
  using a m by (auto simp: log_at_def log_stop_def entering_def leaving_def)

text \<open>The worker can always go on; once \<open>running_\<close> is false, only so many steps are left.\<close>

definition worker_left :: "async_logger \<Rightarrow> nat" where
  "worker_left l = (let k = length (pushed (queue l)) - length (popped (queue l)) in
     case worker_at l of W_gone \<Rightarrow> 0 | W_test \<Rightarrow> 1 | W_line t \<Rightarrow> 4 * k + 3
     | W_drain \<Rightarrow> (case cons_at (queue l) of C_idle \<Rightarrow> 4 * k + 2 | C_read \<Rightarrow> 4 * k + 1 | C_release t \<Rightarrow> 4 * k))"

lemma worker_step_at:
  assumes a: "log_at cap l lg n" and w: "worker_at l \<noteq> W_gone"
  obtains l' where "worker_step cap l = Some l'" "log_at cap l' lg n" "main_at l' = main_at l"
    "\<not> running l \<Longrightarrow> worker_left l = Suc (worker_left l')"
proof (cases "worker_at l")
  case W_test
  let ?l = "l\<lparr>worker_at := if running l then W_drain else W_gone\<rparr>"
  have "log_at cap ?l lg n" using a W_test log_atD(12) [OF a]
    by (auto simp: log_at_def entering_def leaving_def split: if_splits)
  then show ?thesis using that [of ?l] W_test by (simp add: worker_step_def worker_left_def)
next
  case (W_line t)
  let ?l = "l\<lparr>out := out l @ trade_line t, worker_at := W_drain\<rparr>"
  have "log_at cap ?l lg n" using a W_line by (auto simp: log_at_def entering_def leaving_def)
  then show ?thesis using that [of ?l] W_line log_atD(10) [OF a] by (simp add: worker_step_def worker_left_def)
next
  case W_drain
  note inv = log_atD(2) [OF a]
  show ?thesis
  proof (cases "cons_at (queue l)")
    case C_idle
    from inv C_idle show ?thesis
    proof (cases rule: exec_take)
      case (some r)
      let ?l = "l\<lparr>queue := (queue l)\<lparr>ring := r, cons_at := C_read\<rparr>\<rparr>"
      have "log_at cap ?l lg n" using a W_drain spsc_exec_inv [OF inv some(1)]
        by (auto simp: log_at_def entering_def leaving_def)
      then show ?thesis using that [of ?l] some W_drain C_idle
        by (simp add: worker_step_def drain_step_def worker_left_def)
    next
      case (empty r)
      let ?l = "l\<lparr>queue := (queue l)\<lparr>ring := r\<rparr>, worker_at := W_test\<rparr>"
      have "log_at cap ?l lg n" using a W_drain C_idle spsc_exec_inv [OF inv empty(2)]
        by (auto simp: log_at_def entering_def leaving_def)
      then show ?thesis using that [of ?l] empty W_drain C_idle
        by (simp add: worker_step_def drain_step_def worker_left_def)
    qed
  next
    case C_read
    obtain x where x: "spsc_exec cap (queue l) Read = Some ((queue l)\<lparr>cons_at := C_release x\<rparr>)"
      by (rule exec_read [OF inv C_read])
    let ?l = "l\<lparr>queue := (queue l)\<lparr>cons_at := C_release x\<rparr>\<rparr>"
    have "log_at cap ?l lg n" using a W_drain spsc_exec_inv [OF inv x]
      by (auto simp: log_at_def entering_def leaving_def)
    then show ?thesis using that [of ?l] x W_drain C_read
      by (simp add: worker_step_def drain_step_def worker_left_def)
  next
    case (C_release x)
    let ?q = "(queue l)\<lparr>ring := pop_release (ring (queue l)), cons_at := C_idle, popped := popped (queue l) @ [x]\<rparr>"
    let ?l = "l\<lparr>queue := ?q, worker_at := W_line x\<rparr>"
    have r: "spsc_exec cap (queue l) Release = Some ?q" using C_release by simp
    have "log_at cap ?l lg n" using a W_drain spsc_exec_inv [OF inv r]
      by (auto simp: log_at_def entering_def leaving_def)
    moreover have "length (popped (queue l)) < length (pushed (queue l))"
      using spsc_inv_popped(3) [OF inv] C_release by simp
    ultimately show ?thesis using that [of ?l] r W_drain C_release
      by (simp add: worker_step_def drain_step_def worker_left_def)
  qed
qed (use w in simp)

text \<open>The end of \<open>stop\<close>: the worker is gone, the rest of the ring goes to the file.\<close>

lemma fold_lines: "fold (\<lambda>t w. w @ trade_line t) ts w = w @ lines ts"
  by (induction ts arbitrary: w) simp_all

lemma log_close_at:
  assumes a: "log_at cap l lg n" and m: "main_at l = M_join" and w: "worker_at l = W_gone"
  obtains l' where "log_close cap l = Some l'" "main_at l' = M_done" "out l' = header @ lines (pushed (queue l))"
    "subseq (pushed (queue l)) lg" "length lg = length (pushed (queue l)) + n" "dropped l' = of_nat n"
    "warned l' \<longleftrightarrow> 0 < dropped l'" "0 < n \<Longrightarrow> cap < length lg"
proof -
  note A = log_atD [OF a]
  have p: "prod_at (queue l) = P_idle" and c: "cons_at (queue l) = C_idle" using A(7,10) m w by simp_all
  note q = spsc_inv_idle [OF A(2) p c]
  obtain r where r: "drain_while cap (ring (queue l)) (out l) =
      Some (r, fold (\<lambda>t w. w @ trade_line t) (ring_items cap (ring (queue l))) (out l))"
    using spsc_fifo.drain_loop [OF drain_while.simps q(1), of "out l"] by blast
  have "out l = header @ lines (popped (queue l))" using A(9) w by (simp add: leaving_def)
  then have "out l @ lines (ring_items cap (ring (queue l))) = header @ lines (pushed (queue l))"
    using spsc_inv_popped(1) [OF A(2)] unfolding q(2)
    by (metis append.assoc append_take_drop_id concat_append map_append)
  then show ?thesis using that r w m p A(3,4,5,8)
    by (simp add: log_close_def fold_lines entering_def)
qed

section \<open>Whole sessions\<close>

lemma log_do_at:
  assumes a: "log_at cap l lg n" and e: "log_do cap l e = Some l'" and m: "main_at l' \<noteq> M_done"
  shows "\<exists>n'. log_at cap l' (lg @ logged [e]) n'"
proof (cases e)
  case (Log t)
  then have r: "main_at l = M_run" "enqueue_trade cap l t = Some l'" using e by (auto split: if_splits)
  then have "prod_at (queue l) = P_idle"
    by (cases "prod_at (queue l)") (simp_all add: enqueue_trade_def)
  from a r(1) this show ?thesis
    by (cases rule: enqueue_trade_at [where t = t]) (use r(2) Log in auto)
next
  case Stop
  then have r: "main_at l = M_run" "log_stop l = Some l'" using e by (auto split: if_splits)
  then have "prod_at (queue l) = P_idle" by (auto simp: log_stop_def split: if_splits)
  then show ?thesis using log_stop_at [OF a r(1)] r(2) Stop by auto
next
  case Main
  show ?thesis
  proof (cases "main_at l")
    case M_run
    then have "enqueue_more cap l = Some l'" using e Main by simp
    moreover from this have "prod_at (queue l) \<noteq> P_idle" by (auto simp: enqueue_more_def)
    ultimately show ?thesis using enqueue_more_at [OF a M_run] Main by (metis append_Nil2 logged.simps(1,4) option.inject)
  next
    case M_lost
    then show ?thesis using count_dropped_at [OF a] e Main by auto
  next
    case M_join
    then have "main_at l' = M_done" using e Main by (auto simp: log_close_def split: if_splits Option.bind_splits)
    then show ?thesis using m by simp
  next
    case M_done
    then show ?thesis using log_atD(1) [OF a] by simp
  qed
next
  case Worker
  then have r: "worker_step cap l = Some l'" using e by simp
  then have "worker_at l \<noteq> W_gone" by (auto simp: worker_step_def)
  then show ?thesis using worker_step_at [OF a] r Worker by (metis append_Nil2 logged.simps(1,5) option.inject)
qed

definition log_closed :: "nat \<Rightarrow> async_logger \<Rightarrow> trade list \<Rightarrow> bool" where
  "log_closed cap l lg \<longleftrightarrow> main_at l = M_done \<and> worker_at l = W_gone \<and>
     (\<exists>acc. out l = header @ lines acc \<and> subseq acc lg \<and> dropped l = of_nat (length lg - length acc) \<and>
       (warned l \<longleftrightarrow> 0 < dropped l) \<and> (length lg \<le> cap \<longrightarrow> acc = lg))"

lemma log_close_closed:
  assumes a: "log_at cap l lg n" and m: "main_at l = M_join" and r: "log_close cap l = Some l'"
  shows "log_closed cap l' lg"
proof -
  have w: "worker_at l = W_gone" using r by (auto simp: log_close_def split: if_splits)
  then have w': "worker_at l' = W_gone" using r by (auto simp: log_close_def split: Option.bind_splits)
  from log_close_at [OF a m w] r obtain
    "main_at l' = M_done" "out l' = header @ lines (pushed (queue l))" "subseq (pushed (queue l)) lg"
    "length lg = length (pushed (queue l)) + n" "dropped l' = of_nat n" "warned l' \<longleftrightarrow> 0 < dropped l'"
    "0 < n \<Longrightarrow> cap < length lg" by (metis option.inject)
  moreover have "pushed (queue l) = lg" if "length lg \<le> cap"
  proof -
    have "n = 0" using that calculation(7) by (cases n) simp_all
    then show ?thesis using calculation(3,4) by (intro subseq_same_length) simp_all
  qed
  ultimately show ?thesis using w' unfolding log_closed_def by (intro conjI exI [of _ "pushed (queue l)"]) simp_all
qed

lemma log_closed_end: "log_closed cap l lg \<Longrightarrow> log_do cap l e = None"
  by (cases e) (auto simp: log_closed_def worker_step_def)

lemma log_do_closed:
  assumes a: "log_at cap l lg n" and e: "log_do cap l e = Some l'" and m: "main_at l' = M_done"
  shows "log_closed cap l' (lg @ logged [e])"
proof -
  have "e = Main \<and> main_at l = M_join"
  proof (cases "e = Main \<and> main_at l = M_join")
    case False
    have "main_at l' \<noteq> M_done"
    proof (cases e)
      case (Log t)
      then show ?thesis using e by (auto simp: enqueue_trade_def split: if_splits option.splits)
    next
      case Stop
      then show ?thesis using e by (auto simp: log_stop_def split: if_splits)
    next
      case Main
      then show ?thesis using e False log_atD(1) [OF a]
        by (auto simp: enqueue_more_def count_dropped_def split: main_thread.splits producer.splits)
    next
      case Worker
      then have "worker_at l \<noteq> W_gone" using e by (auto simp: worker_step_def)
      then show ?thesis using worker_step_at [OF a] e Worker log_atD(1) [OF a]
        by (metis log_do.simps(4) option.inject)
    qed
    then show ?thesis using m by simp
  qed simp
  then show ?thesis using log_close_closed [OF a] e by auto
qed

lemma log_run_at:
  "log_at cap l lg n \<Longrightarrow> log_run cap l es = Some l' \<Longrightarrow>
    (\<exists>n'. log_at cap l' (lg @ logged es) n') \<or> log_closed cap l' (lg @ logged es)"
proof (induction es arbitrary: l lg n)
  case (Cons e es)
  obtain l1 where l1: "log_do cap l e = Some l1" "log_run cap l1 es = Some l'"
    using Cons.prems(2) by (auto split: Option.bind_splits)
  have lg: "logged (e # es) = logged [e] @ logged es" by (cases e) simp_all
  show ?case
  proof (cases "main_at l1 = M_done")
    case True
    then have "log_closed cap l1 (lg @ logged [e])" by (rule log_do_closed [OF Cons.prems(1) l1(1)])
    moreover from this have "es = []" using l1(2) log_closed_end [of cap l1] by (cases es) auto
    ultimately show ?thesis using l1(2) by simp
  next
    case False
    then obtain n1 where "log_at cap l1 (lg @ logged [e]) n1" using log_do_at [OF Cons.prems(1) l1(1)] by blast
    from Cons.IH [OF this l1(2)] show ?thesis unfolding lg by simp
  qed
qed auto

lemma kCapacity_ok: "cap_ok kCapacity"
  unfolding cap_ok_def kCapacity_def by (rule exI [of _ 22]) simp

text \<open>What a session leaves in the file.\<close>

lemma log_session_report:
  assumes "cap_ok cap" and "log_session cap t0 ts l"
  shows "\<exists>acc. out l = header @ lines acc \<and> subseq acc ts \<and> dropped l = of_nat (length ts - length acc) \<and>
    (warned l \<longleftrightarrow> 0 < dropped l) \<and> (length ts \<le> cap \<longrightarrow> acc = ts)"
proof -
  obtain es where es: "log_run cap (log_start (logger_new cap t0)) es = Some l" "main_at l = M_done" "logged es = ts"
    using assms(2) by (auto simp: log_session_def)
  have "log_closed cap l ts"
    using log_run_at [OF log_start_at [OF assms(1)] es(1)] log_atD(1) es(2,3) by auto
  then show ?thesis by (simp add: log_closed_def)
qed

text \<open>A call of \<open>enqueue_trade\<close> takes at most three steps of its own thread.\<close>

lemma enqueue_returns:
  assumes a: "log_at cap l lg n" and m: "main_at l = M_run" "prod_at (queue l) = P_idle"
  shows "\<exists>k \<le> 2. \<exists>l' n'. log_run cap l (Log t # replicate k Main) = Some l' \<and> log_at cap l' (lg @ [t]) n' \<and>
    main_at l' = M_run \<and> prod_at (queue l') = P_idle"
  using a m
proof (cases rule: enqueue_trade_at [where t = t])
  case (enters l1)
  obtain l2 where l2: "enqueue_more cap l1 = Some l2" "log_at cap l2 (lg @ [t]) n" "main_at l2 = M_run"
    "prod_at (queue l2) = P_publish t"
    using enqueue_more_at [OF enters(2,3)] enters(4) by auto
  obtain l3 where "enqueue_more cap l2 = Some l3" "log_at cap l3 (lg @ [t]) n" "main_at l3 = M_run"
    "prod_at (queue l3) = P_idle"
    using enqueue_more_at [OF l2(2,3)] l2(4) by auto
  then show ?thesis using enters m l2 by (intro exI [of _ 2]) (auto simp: numeral_2_eq_2)
next
  case (refused l1)
  have "log_at cap (count_dropped l1) (lg @ [t]) (Suc n)" by (rule count_dropped_at [OF refused(2,3)])
  moreover have "prod_at (queue (count_dropped l1)) = P_idle" "main_at (count_dropped l1) = M_run"
    using log_atD(7) [OF refused(2)] refused(3) by (simp_all add: count_dropped_def)
  ultimately show ?thesis using refused m by (intro exI [of _ 1]) auto
qed

text \<open>Once \<open>stop\<close> has been called the worker ends by itself, and \<open>stop\<close> returns.\<close>

lemma stop_returns:
  "log_at cap l lg n \<Longrightarrow> main_at l = M_join \<Longrightarrow>
    \<exists>l'. log_run cap l (replicate (worker_left l) Worker @ [Main]) = Some l' \<and> main_at l' = M_done"
proof (induction "worker_left l" arbitrary: l)
  case 0
  then have "worker_at l = W_gone"
    using log_atD(2) [OF 0(2)] spsc_inv_popped(3) [of cap "queue l"]
    by (auto simp: worker_left_def Let_def split: worker_thread.splits consumer.splits)
  from log_close_at [OF 0(2,3) this] show ?case using 0 by (metis append_Nil bind.bind_lunit log_do.simps(3) log_run.simps main_thread.simps(15) replicate_0)
next
  case (Suc k)
  have "worker_at l \<noteq> W_gone" using Suc.hyps(2) by (auto simp: worker_left_def)
  moreover have "\<not> running l" using log_atD(12) [OF Suc.prems(1)] Suc.prems(2) by simp
  ultimately obtain l1 where l1: "worker_step cap l = Some l1" "log_at cap l1 lg n" "main_at l1 = M_join"
    "worker_left l = Suc (worker_left l1)"
    using worker_step_at [OF Suc.prems(1)] Suc.prems(2) by metis
  then show ?case using Suc.hyps by simp
qed

lemma logged_replicate [simp]: "logged (replicate k Main) = []" "logged (replicate k Worker) = []"
  by (induction k) simp_all

lemma log_all:
  "log_at cap l lg n \<Longrightarrow> main_at l = M_run \<Longrightarrow> prod_at (queue l) = P_idle \<Longrightarrow>
    \<exists>es l' n'. log_run cap l es = Some l' \<and> logged es = ts \<and> log_at cap l' (lg @ ts) n' \<and>
      main_at l' = M_run \<and> prod_at (queue l') = P_idle"
proof (induction ts arbitrary: l lg n)
  case Nil
  then show ?case by (intro exI [of _ "[]"] exI [of _ l] exI [of _ n]) simp
next
  case (Cons t ts)
  obtain k l1 n1 where l1: "log_run cap l (Log t # replicate k Main) = Some l1" "log_at cap l1 (lg @ [t]) n1"
    "main_at l1 = M_run" "prod_at (queue l1) = P_idle"
    using enqueue_returns [OF Cons.prems] by blast
  obtain es l2 n2 where "log_run cap l1 es = Some l2" "logged es = ts" "log_at cap l2 ((lg @ [t]) @ ts) n2"
    "main_at l2 = M_run" "prod_at (queue l2) = P_idle"
    using Cons.IH [OF l1(2-4)] by blast
  moreover have "log_run cap l ((Log t # replicate k Main) @ es) = log_run cap l1 es"
    using l1(1) by (simp only: log_run_append) simp
  ultimately show ?case
    by (intro exI [of _ "(Log t # replicate k Main) @ es"] exI [of _ l2] exI [of _ n2]) simp
qed

lemma log_session_exists:
  assumes "cap_ok cap"
  shows "\<exists>l. log_session cap t0 ts l"
proof -
  let ?l = "log_start (logger_new cap t0)"
  have "main_at ?l = M_run" "prod_at (queue ?l) = P_idle"
    by (simp_all add: log_start_def logger_new_def spsc_start_def)
  then obtain es l1 n1 where l1: "log_run cap ?l es = Some l1" "logged es = ts" "log_at cap l1 ts n1"
    "main_at l1 = M_run" "prod_at (queue l1) = P_idle"
    using log_all [OF log_start_at [OF assms], of t0 ts] by auto
  note st = log_stop_at [OF l1(3-5)]
  obtain l2 where "log_run cap (l1\<lparr>running := False, main_at := M_join\<rparr>)
      (replicate (worker_left (l1\<lparr>running := False, main_at := M_join\<rparr>)) Worker @ [Main]) = Some l2" "main_at l2 = M_done"
    using stop_returns [OF st(2)] by auto
  then show ?thesis using l1 st(1) unfolding log_session_def
    by (intro exI [of _ l2] exI [of _ "es @ Stop # replicate (worker_left (l1\<lparr>running := False, main_at := M_join\<rparr>)) Worker @ [Main]"])
      (simp add: log_run_append)
qed

section \<open>Properties\<close>

text \<open>
  C37: a session from \<open>start\<close> to the end of \<open>stop\<close>, in which the steps of the matching thread and
  of the worker interleave in any way, for a capacity that is a power of two.  The file then
  holds the header and one line for each accepted trade, in the order in which they were logged.
  The others are exactly as many as the 64-bit counter of dropped trades says, the warning
  appears when it is not zero, and there are none when at most as many trades are logged as the
  ring holds.
\<close>

theorem logger_writes_what_it_accepts:
  assumes "cap_ok cap" and "log_run cap (log_start (logger_new cap t0)) es = Some l" and "main_at l = M_done"
  shows "\<exists>acc. out l = header @ concat (map trade_line acc) \<and> subseq acc (logged es) \<and>
    dropped l = of_nat (length (logged es) - length acc) \<and> (warned l \<longleftrightarrow> 0 < dropped l) \<and>
    (length (logged es) \<le> cap \<longrightarrow> acc = logged es)"
  using assms by (intro log_session_report) (auto simp: log_session_def)

definition demo_trade :: trade where
  "demo_trade = \<lparr>maker_id = 8, taker_id = 9, tprice = 2, tqty = 7, timestamp = 6\<rparr>"

text \<open>
  A ring of two: the third trade is dropped, the worker pops the first, the fourth is accepted
  while the worker is still in the same \<open>drain\<close>, the fifth is dropped.
\<close>

definition demo_schedule :: "log_event list" where
  "demo_schedule = (let log = (\<lambda>k. Log (demo_trade\<lparr>maker_id := k\<rparr>)); accepted = (\<lambda>k. [log k, Main, Main]);
       refused = (\<lambda>k. [log k, Main]) in
     accepted 1 @ accepted 2 @ refused 3 @ replicate 4 Worker @ accepted 4 @ refused 5 @
     [Stop] @ replicate 11 Worker @ [Main])"

theorem logger_writes_what_it_accepts_witness:
  "\<exists>l acc. log_run 2 (log_start (logger_new 2 demo_trade)) demo_schedule = Some l \<and>
    out l = header @ concat (map trade_line acc) \<and> subseq acc (logged demo_schedule) \<and>
    length (logged demo_schedule) = 5 \<and> dropped l = 2 \<and> warned l"
proof -
  let ?r = "log_run 2 (log_start (logger_new 2 demo_trade)) demo_schedule"
  have v: "(case ?r of None \<Rightarrow> False | Some l \<Rightarrow> main_at l = M_done \<and> dropped l = 2)" by code_simp
  then obtain l where l: "?r = Some l" "main_at l = M_done" "dropped l = 2" by (auto split: option.splits)
  have "length (logged demo_schedule) = 5" by code_simp
  then show ?thesis using logger_writes_what_it_accepts [OF demo_cap(1) l(1,2)] l(1,3) by auto
qed

text \<open>
  C38: neither thread of the logger blocks the other.  In every state of a session, for a
  capacity that is a power of two: between two calls, \<open>enqueue_trade\<close> returns after at most three
  steps of the matching thread, without any step of the worker; inside a call the matching thread
  has a next step; the worker has a next step until it is gone; and once \<open>stop\<close> has been called,
  \<open>worker_left\<close> steps of the worker and the final drain end the session.
\<close>

theorem logger_never_blocks:
  assumes "cap_ok cap" and "log_run cap (log_start (logger_new cap t0)) es = Some l"
  shows "(main_at l = M_run \<and> prod_at (queue l) = P_idle \<longrightarrow>
      (\<exists>k \<le> 2. \<exists>l'. log_run cap l (Log t # replicate k Main) = Some l' \<and> main_at l' = M_run \<and>
        prod_at (queue l') = P_idle)) \<and>
    (main_at l = M_lost \<or> main_at l = M_run \<and> prod_at (queue l) \<noteq> P_idle \<longrightarrow>
      (\<exists>l'. log_run cap l [Main] = Some l')) \<and>
    (worker_at l \<noteq> W_gone \<longrightarrow> (\<exists>l'. log_run cap l [Worker] = Some l')) \<and>
    (main_at l = M_join \<longrightarrow>
      (\<exists>l'. log_run cap l (replicate (worker_left l) Worker @ [Main]) = Some l' \<and> main_at l' = M_done))"
  using log_run_at [OF log_start_at [OF assms(1)] assms(2)]
proof
  assume "\<exists>n. log_at cap l ([] @ logged es) n"
  then obtain n where a: "log_at cap l (logged es) n" by auto
  have "\<exists>l'. log_run cap l [Main] = Some l'"
    if "main_at l = M_lost \<or> main_at l = M_run \<and> prod_at (queue l) \<noteq> P_idle"
    using that enqueue_more_at [OF a] by fastforce
  then show ?thesis
    using enqueue_returns [OF a, of t] worker_step_at [OF a] stop_returns [OF a] by fastforce
qed (auto simp: log_closed_def)

theorem logger_never_blocks_witness:
  "\<exists>k \<le> 2. \<exists>l'. log_run 2 (log_start (logger_new 2 demo_trade)) (Log demo_trade # replicate k Main) = Some l' \<and>
    main_at l' = M_run \<and> prod_at (queue l') = P_idle"
  using logger_never_blocks [OF demo_cap(1), of demo_trade "[]"]
  by (simp add: log_start_def logger_new_def spsc_start_def)

end
