(* ===== verification/Itch_Protocols.thy ===== *)
theory Itch_Protocols
  imports Nano_Types
begin

text \<open>
  The wire format of \<open>src/ingestion/ItchProtocols.hpp\<close>: packed structs laid over the mapped
  bytes on a little-endian machine, and the byte swaps that turn their fields into numbers.
  A struct is a record with the raw fields; \<open>..._at m o\<close> is the view of a struct at offset
  \<open>o\<close> of the bytes \<open>m\<close>, undefined when it does not fit.
\<close>

section \<open>Memory\<close>

definition bytes_at :: "u8 list \<Rightarrow> nat \<Rightarrow> nat \<Rightarrow> u8 list option" where
  "bytes_at m i n = (if i + n \<le> length m then Some (take n (drop i m)) else None)"

text \<open>A character literal as the byte it stands for.\<close>

definition byte_of :: "char \<Rightarrow> u8" where
  "byte_of c = of_char c"

text \<open>A load on a little-endian machine: the first byte is the least significant.\<close>

primrec of_bytes :: "u8 list \<Rightarrow> 'a::len word" where
  "of_bytes [] = 0"
| "of_bytes (x # xs) = ucast x OR push_bit 8 (of_bytes xs)"

definition to_bytes :: "nat \<Rightarrow> 'a::len word \<Rightarrow> u8 list" where
  "to_bytes n w = map (\<lambda>i. ucast (drop_bit (8 * i) w)) [0..<n]"

definition load16 :: "u8 list \<Rightarrow> nat \<Rightarrow> u16 option" where
  "load16 m i = map_option of_bytes (bytes_at m i 2)"

definition load32 :: "u8 list \<Rightarrow> nat \<Rightarrow> u32 option" where
  "load32 m i = map_option of_bytes (bytes_at m i 4)"

definition load64 :: "u8 list \<Rightarrow> nat \<Rightarrow> u64 option" where
  "load64 m i = map_option of_bytes (bytes_at m i 8)"

definition bswap16 :: "u16 \<Rightarrow> u16" where
  "bswap16 w = of_bytes (rev (to_bytes 2 w))"

definition bswap32 :: "u32 \<Rightarrow> u32" where
  "bswap32 w = of_bytes (rev (to_bytes 4 w))"

definition bswap64 :: "u64 \<Rightarrow> u64" where
  "bswap64 w = of_bytes (rev (to_bytes 8 w))"

lemma bit_of_bytes:
  "bit (of_bytes xs :: 'a::len word) i \<longleftrightarrow> i < LENGTH('a) \<and> i < 8 * length xs \<and> bit (xs ! (i div 8)) (i mod 8)"
proof (induction xs arbitrary: i)
  case (Cons x xs)
  show ?case
  proof (cases "i < 8")
    case True
    then show ?thesis by (auto simp: bit_simps)
  next
    case False
    then obtain j where j: "i = 8 + j" using le_Suc_ex not_le by blast
    have "\<not> bit x i" using False bit_imp_le_length [of x i] by auto
    moreover have "i div 8 = Suc (j div 8)" "i mod 8 = j mod 8" using j by simp_all
    ultimately show ?thesis using Cons.IH [of j] j by (auto simp: bit_simps)
  qed
qed simp

lemma to_bytes_of_bytes:
  assumes "8 * length xs = LENGTH('a::len)"
  shows "to_bytes (length xs) (of_bytes xs :: 'a word) = xs"
proof (rule nth_equalityI)
  show "length (to_bytes (length xs) (of_bytes xs :: 'a word)) = length xs" by (simp add: to_bytes_def)
  fix i assume "i < length (to_bytes (length xs) (of_bytes xs :: 'a word))"
  then have i: "i < length xs" by (simp add: to_bytes_def)
  show "to_bytes (length xs) (of_bytes xs :: 'a word) ! i = xs ! i"
  proof (rule bit_word_eqI)
    fix k assume "k < LENGTH(8)"
    then have k: "k < 8" by simp
    then have "8 * i + k < 8 * length xs" "(8 * i + k) div 8 = i" "(8 * i + k) mod 8 = k"
      using i by auto
    then show "bit (to_bytes (length xs) (of_bytes xs :: 'a word) ! i) k \<longleftrightarrow> bit (xs ! i) k"
      using i k assms by (simp add: to_bytes_def bit_simps bit_of_bytes)
  qed
qed

lemma of_bytes_to_bytes:
  assumes "8 * n = LENGTH('a::len)"
  shows "of_bytes (to_bytes n (w :: 'a word)) = w"
proof (rule bit_word_eqI)
  fix i assume i: "i < LENGTH('a)"
  then have "i div 8 < n" using assms by (simp add: div_less_iff_less_mult mult.commute)
  moreover have "8 * (i div 8) + i mod 8 = i" by simp
  ultimately show "bit (of_bytes (to_bytes n w) :: 'a word) i \<longleftrightarrow> bit w i"
    using i assms by (simp add: bit_of_bytes to_bytes_def bit_simps)
qed

lemma length_to_bytes [simp]: "length (to_bytes n w) = n"
  by (simp add: to_bytes_def)

text \<open>Swapping what has been loaded reads the bytes in network order.\<close>

lemma bswap_of_bytes:
  "length xs = 2 \<Longrightarrow> bswap16 (of_bytes xs) = of_bytes (rev xs)"
  "length xs = 4 \<Longrightarrow> bswap32 (of_bytes xs) = of_bytes (rev xs)"
  "length xs = 8 \<Longrightarrow> bswap64 (of_bytes xs) = of_bytes (rev xs)"
  using to_bytes_of_bytes [of xs, where 'a = 16] to_bytes_of_bytes [of xs, where 'a = 32]
    to_bytes_of_bytes [of xs, where 'a = 64]
  by (simp_all add: bswap16_def bswap32_def bswap64_def)

section \<open>Contents of memory\<close>

text \<open>The bytes \<open>bs\<close> lie at offset \<open>i\<close> of \<open>m\<close>.\<close>

definition stored :: "u8 list \<Rightarrow> nat \<Rightarrow> u8 list \<Rightarrow> bool" where
  "stored m i bs \<longleftrightarrow> bytes_at m i (length bs) = Some bs"

lemma stored_iff: "stored m i bs \<longleftrightarrow> i + length bs \<le> length m \<and> take (length bs) (drop i m) = bs"
  by (simp add: stored_def bytes_at_def)

lemma stored_bytes_at: "stored m i bs \<Longrightarrow> length bs = n \<Longrightarrow> bytes_at m i n = Some bs"
  by (auto simp: stored_def)

lemma stored_append: "stored m i (xs @ ys) \<longleftrightarrow> stored m i xs \<and> stored m (i + length xs) ys"
proof
  assume "stored m i (xs @ ys)"
  then have n: "i + length xs + length ys \<le> length m" and t: "take (length xs + length ys) (drop i m) = xs @ ys"
    by (simp_all add: stored_iff)
  have "take (length xs) (drop i m) = xs"
    using arg_cong [OF t, of "take (length xs)"] by (simp add: min_def)
  moreover have "take (length ys) (drop (i + length xs) m) = ys"
    using arg_cong [OF t, of "drop (length xs)"] by (simp add: drop_take add.commute)
  ultimately show "stored m i xs \<and> stored m (i + length xs) ys" using n by (simp add: stored_iff)
next
  assume "stored m i xs \<and> stored m (i + length xs) ys"
  then show "stored m i (xs @ ys)" by (simp add: stored_iff take_add add.commute)
qed

lemma stored_Cons: "stored m i (x # ys) \<longleftrightarrow> vget m i = Some x \<and> stored m (Suc i) ys"
proof -
  have "stored m i [x] \<longleftrightarrow> vget m i = Some x"
  proof (cases "i < length m")
    case True
    then have "take 1 (drop i m) = [m ! i]" by (simp flip: Cons_nth_drop_Suc)
    then show ?thesis using True by (auto simp: stored_iff vget_def)
  qed (simp add: stored_iff vget_def)
  then show ?thesis using stored_append [of m i "[x]" ys] by simp
qed

lemma stored_Nil: "stored m i [] \<longleftrightarrow> i \<le> length m"
  by (simp add: stored_iff)

lemma stored_self: "stored (xs @ bs @ ys) (length xs) bs"
  by (simp add: stored_iff)

lemma stored_loads:
  "stored m i (to_bytes 2 a) \<Longrightarrow> load16 m i = Some a"
  "stored m i (to_bytes 4 b) \<Longrightarrow> load32 m i = Some b"
  "stored m i (to_bytes 8 c) \<Longrightarrow> load64 m i = Some c"
  by (simp_all add: stored_def load16_def load32_def load64_def of_bytes_to_bytes)

text \<open>On the wire a swapped word stands in network order, the most significant byte first.\<close>

lemma to_bytes_bswap:
  "to_bytes 2 (bswap16 a) = rev (to_bytes 2 a)"
  "to_bytes 4 (bswap32 b) = rev (to_bytes 4 b)"
  "to_bytes 8 (bswap64 c) = rev (to_bytes 8 c)"
  using to_bytes_of_bytes [of "rev (to_bytes 2 a)", where 'a = 16]
    to_bytes_of_bytes [of "rev (to_bytes 4 b)", where 'a = 32]
    to_bytes_of_bytes [of "rev (to_bytes 8 c)", where 'a = 64]
  by (simp_all add: bswap16_def bswap32_def bswap64_def)

lemma bswap_bswap [simp]:
  "bswap16 (bswap16 a) = a" "bswap32 (bswap32 b) = b" "bswap64 (bswap64 c) = c"
  unfolding bswap16_def [of "bswap16 a"] bswap32_def [of "bswap32 b"] bswap64_def [of "bswap64 c"]
  by (simp_all add: to_bytes_bswap of_bytes_to_bytes)

section \<open>The contract of a packed struct\<close>

text \<open>
  Every packed struct has a size, and a view that is defined wherever the struct fits and that
  reads back what a writer with the same layout has stored.
\<close>

locale packed_struct =
  fixes bytes :: "'s \<Rightarrow> u8 list" and size :: nat and view :: "u8 list \<Rightarrow> nat \<Rightarrow> 's option"
    and proper :: "'s \<Rightarrow> bool"
  assumes length_law: "proper x \<Longrightarrow> length (bytes x) = size"
    and read_law: "proper x \<Longrightarrow> stored m i (bytes x) \<Longrightarrow> view m i = Some x"
    and fits_law: "i + size \<le> length m \<Longrightarrow> view m i \<noteq> None"
begin

lemma length_all: "\<forall>x \<in> set xs. proper x \<Longrightarrow> length (concat (map bytes xs)) = size * length xs"
  by (induction xs) (auto simp: length_law)

lemma read_all:
  assumes "\<forall>x \<in> set xs. proper x" and "i < length xs"
  shows "view (concat (map bytes xs)) (size * i) = Some (xs ! i)"
proof -
  have x: "xs = take i xs @ xs ! i # drop (Suc i) xs" using assms(2) by (rule id_take_nth_drop)
  have "\<forall>x \<in> set (take i xs). proper x" using assms(1) by (meson in_set_takeD)
  then have "length (concat (map bytes (take i xs))) = size * i"
    using assms(2) by (simp add: length_all)
  moreover have "concat (map bytes xs) =
      concat (map bytes (take i xs)) @ bytes (xs ! i) @ concat (map bytes (drop (Suc i) xs))"
    by (subst x) simp
  ultimately have "stored (concat (map bytes xs)) (size * i) (bytes (xs ! i))"
    using stored_self by metis
  then show ?thesis using read_law assms by simp
qed

end

lemma loads_in [access_simps]:
  "i + n \<le> length m \<Longrightarrow> bytes_at m i n = Some (take n (drop i m))"
  "i + 2 \<le> length m \<Longrightarrow> load16 m i = Some (of_bytes (take 2 (drop i m)))"
  "i + 4 \<le> length m \<Longrightarrow> load32 m i = Some (of_bytes (take 4 (drop i m)))"
  "i + 8 \<le> length m \<Longrightarrow> load64 m i = Some (of_bytes (take 8 (drop i m)))"
  by (simp_all add: bytes_at_def load16_def load32_def load64_def)

lemmas stored_simps = stored_append stored_Cons stored_Nil stored_loads stored_bytes_at

section \<open>Structs\<close>

type_synonym itch_timestamp = "u8 list"

definition itch_ts_to_u64 :: "itch_timestamp \<Rightarrow> u64" where
  "itch_ts_to_u64 t = fold (\<lambda>x v. push_bit 8 v OR ucast x) t 0"

record itch_header =
  packet_length :: u16
  message_type :: u8

definition header_size :: nat where
  "header_size = 3"

definition header_at :: "u8 list \<Rightarrow> nat \<Rightarrow> itch_header option" where
  "header_at m i = do {
     l \<leftarrow> load16 m i; t \<leftarrow> vget m (i + 2);
     Some \<lparr>packet_length = l, message_type = t\<rparr>
   }"

text \<open>The members that all messages have first.\<close>

record itch_prefix =
  stock_locate :: u16
  tracking_number :: u16
  itch_time :: itch_timestamp

definition prefix_at :: "u8 list \<Rightarrow> nat \<Rightarrow> itch_prefix option" where
  "prefix_at m i = do {
     l \<leftarrow> load16 m i; n \<leftarrow> load16 m (i + 2); t \<leftarrow> bytes_at m (i + 4) 6;
     Some \<lparr>stock_locate = l, tracking_number = n, itch_time = t\<rparr>
   }"

record itch_add_order =
  add_prefix :: itch_prefix
  add_order_id :: u64
  add_side :: u8
  add_shares :: u32
  add_stock :: "u8 list"
  add_price :: u32

definition add_order_size :: nat where
  "add_order_size = 35"

definition add_order_at :: "u8 list \<Rightarrow> nat \<Rightarrow> itch_add_order option" where
  "add_order_at m i = do {
     p \<leftarrow> prefix_at m i;
     k \<leftarrow> load64 m (i + 10); s \<leftarrow> vget m (i + 18); q \<leftarrow> load32 m (i + 19);
     st \<leftarrow> bytes_at m (i + 23) 8; px \<leftarrow> load32 m (i + 31);
     Some \<lparr>add_prefix = p, add_order_id = k, add_side = s, add_shares = q, add_stock = st, add_price = px\<rparr>
   }"

record itch_stock_directory =
  dir_prefix :: itch_prefix
  dir_stock :: "u8 list"
  market_category :: u8
  financial_status :: u8
  round_lot_size :: u32
  round_lots_only :: u8
  issue_classification :: u8
  issue_subtype :: "u8 list"
  authenticity :: u8
  short_sale_threshold :: u8
  ipo_flag :: u8
  luld_tier :: u8
  etp_flag :: u8
  etp_leverage :: u32
  inverse_indicator :: u8

definition stock_directory_size :: nat where
  "stock_directory_size = 38"

definition stock_directory_at :: "u8 list \<Rightarrow> nat \<Rightarrow> itch_stock_directory option" where
  "stock_directory_at m i = do {
     p \<leftarrow> prefix_at m i; st \<leftarrow> bytes_at m (i + 10) 8; mc \<leftarrow> vget m (i + 18); fs \<leftarrow> vget m (i + 19);
     rl \<leftarrow> load32 m (i + 20); ro \<leftarrow> vget m (i + 24); ic \<leftarrow> vget m (i + 25); sub \<leftarrow> bytes_at m (i + 26) 2;
     au \<leftarrow> vget m (i + 28); ss \<leftarrow> vget m (i + 29); ipo \<leftarrow> vget m (i + 30); lu \<leftarrow> vget m (i + 31);
     ef \<leftarrow> vget m (i + 32); el \<leftarrow> load32 m (i + 33); inv \<leftarrow> vget m (i + 37);
     Some \<lparr>dir_prefix = p, dir_stock = st, market_category = mc, financial_status = fs, round_lot_size = rl,
       round_lots_only = ro, issue_classification = ic, issue_subtype = sub, authenticity = au,
       short_sale_threshold = ss, ipo_flag = ipo, luld_tier = lu, etp_flag = ef, etp_leverage = el,
       inverse_indicator = inv\<rparr>
   }"

record itch_add_attributed =
  attr_add :: itch_add_order
  attribution :: "u8 list"

definition add_attributed_size :: nat where
  "add_attributed_size = 39"

definition add_attributed_at :: "u8 list \<Rightarrow> nat \<Rightarrow> itch_add_attributed option" where
  "add_attributed_at m i = do {
     a \<leftarrow> add_order_at m i; t \<leftarrow> bytes_at m (i + 35) 4;
     Some \<lparr>attr_add = a, attribution = t\<rparr>
   }"

record itch_executed =
  exec_prefix :: itch_prefix
  exec_order_id :: u64
  exec_shares :: u32
  match_number :: u64

definition executed_size :: nat where
  "executed_size = 30"

definition executed_at :: "u8 list \<Rightarrow> nat \<Rightarrow> itch_executed option" where
  "executed_at m i = do {
     p \<leftarrow> prefix_at m i; k \<leftarrow> load64 m (i + 10); q \<leftarrow> load32 m (i + 18); n \<leftarrow> load64 m (i + 22);
     Some \<lparr>exec_prefix = p, exec_order_id = k, exec_shares = q, match_number = n\<rparr>
   }"

record itch_executed_price =
  priced_exec :: itch_executed
  printable :: u8
  execution_price :: u32

definition executed_price_size :: nat where
  "executed_price_size = 35"

definition executed_price_at :: "u8 list \<Rightarrow> nat \<Rightarrow> itch_executed_price option" where
  "executed_price_at m i = do {
     e \<leftarrow> executed_at m i; c \<leftarrow> vget m (i + 30); px \<leftarrow> load32 m (i + 31);
     Some \<lparr>priced_exec = e, printable = c, execution_price = px\<rparr>
   }"

record itch_cancel =
  cancel_prefix :: itch_prefix
  cancel_order_id :: u64
  canceled_shares :: u32

definition cancel_size :: nat where
  "cancel_size = 22"

definition cancel_at :: "u8 list \<Rightarrow> nat \<Rightarrow> itch_cancel option" where
  "cancel_at m i = do {
     p \<leftarrow> prefix_at m i; k \<leftarrow> load64 m (i + 10); q \<leftarrow> load32 m (i + 18);
     Some \<lparr>cancel_prefix = p, cancel_order_id = k, canceled_shares = q\<rparr>
   }"

record itch_delete =
  delete_prefix :: itch_prefix
  delete_order_id :: u64

definition delete_size :: nat where
  "delete_size = 18"

definition delete_at :: "u8 list \<Rightarrow> nat \<Rightarrow> itch_delete option" where
  "delete_at m i = do {
     p \<leftarrow> prefix_at m i; k \<leftarrow> load64 m (i + 10);
     Some \<lparr>delete_prefix = p, delete_order_id = k\<rparr>
   }"

record itch_replace =
  replace_prefix :: itch_prefix
  original_order_id :: u64
  new_order_id :: u64
  replace_shares :: u32
  replace_price :: u32

definition replace_size :: nat where
  "replace_size = 34"

definition replace_at :: "u8 list \<Rightarrow> nat \<Rightarrow> itch_replace option" where
  "replace_at m i = do {
     p \<leftarrow> prefix_at m i; k \<leftarrow> load64 m (i + 10); k' \<leftarrow> load64 m (i + 18);
     q \<leftarrow> load32 m (i + 26); px \<leftarrow> load32 m (i + 30);
     Some \<lparr>replace_prefix = p, original_order_id = k, new_order_id = k', replace_shares = q, replace_price = px\<rparr>
   }"

section \<open>Writers\<close>

text \<open>The same layouts written out, and the contract for each of them.\<close>

definition header_bytes :: "itch_header \<Rightarrow> u8 list" where
  "header_bytes h = to_bytes 2 (packet_length h) @ [message_type h]"

definition prefix_bytes :: "itch_prefix \<Rightarrow> u8 list" where
  "prefix_bytes p = to_bytes 2 (stock_locate p) @ to_bytes 2 (tracking_number p) @ itch_time p"

definition prefix_ok :: "itch_prefix \<Rightarrow> bool" where
  "prefix_ok p \<longleftrightarrow> length (itch_time p) = 6"

definition add_order_bytes :: "itch_add_order \<Rightarrow> u8 list" where
  "add_order_bytes a = prefix_bytes (add_prefix a) @ to_bytes 8 (add_order_id a) @ [add_side a] @
     to_bytes 4 (add_shares a) @ add_stock a @ to_bytes 4 (add_price a)"

definition add_order_ok :: "itch_add_order \<Rightarrow> bool" where
  "add_order_ok a \<longleftrightarrow> prefix_ok (add_prefix a) \<and> length (add_stock a) = 8"

definition add_attributed_bytes :: "itch_add_attributed \<Rightarrow> u8 list" where
  "add_attributed_bytes a = add_order_bytes (attr_add a) @ attribution a"

definition add_attributed_ok :: "itch_add_attributed \<Rightarrow> bool" where
  "add_attributed_ok a \<longleftrightarrow> add_order_ok (attr_add a) \<and> length (attribution a) = 4"

definition executed_bytes :: "itch_executed \<Rightarrow> u8 list" where
  "executed_bytes e = prefix_bytes (exec_prefix e) @ to_bytes 8 (exec_order_id e) @
     to_bytes 4 (exec_shares e) @ to_bytes 8 (match_number e)"

definition executed_ok :: "itch_executed \<Rightarrow> bool" where
  "executed_ok x \<longleftrightarrow> prefix_ok (exec_prefix x)"

definition executed_price_bytes :: "itch_executed_price \<Rightarrow> u8 list" where
  "executed_price_bytes e = executed_bytes (priced_exec e) @ [printable e] @ to_bytes 4 (execution_price e)"

definition executed_price_ok :: "itch_executed_price \<Rightarrow> bool" where
  "executed_price_ok x \<longleftrightarrow> executed_ok (priced_exec x)"

definition cancel_bytes :: "itch_cancel \<Rightarrow> u8 list" where
  "cancel_bytes c = prefix_bytes (cancel_prefix c) @ to_bytes 8 (cancel_order_id c) @
     to_bytes 4 (canceled_shares c)"

definition cancel_ok :: "itch_cancel \<Rightarrow> bool" where
  "cancel_ok x \<longleftrightarrow> prefix_ok (cancel_prefix x)"

definition delete_bytes :: "itch_delete \<Rightarrow> u8 list" where
  "delete_bytes d = prefix_bytes (delete_prefix d) @ to_bytes 8 (delete_order_id d)"

definition delete_ok :: "itch_delete \<Rightarrow> bool" where
  "delete_ok x \<longleftrightarrow> prefix_ok (delete_prefix x)"

definition replace_bytes :: "itch_replace \<Rightarrow> u8 list" where
  "replace_bytes r = prefix_bytes (replace_prefix r) @ to_bytes 8 (original_order_id r) @
     to_bytes 8 (new_order_id r) @ to_bytes 4 (replace_shares r) @ to_bytes 4 (replace_price r)"

definition replace_ok :: "itch_replace \<Rightarrow> bool" where
  "replace_ok x \<longleftrightarrow> prefix_ok (replace_prefix x)"

definition stock_directory_bytes :: "itch_stock_directory \<Rightarrow> u8 list" where
  "stock_directory_bytes d = prefix_bytes (dir_prefix d) @ dir_stock d @ [market_category d, financial_status d] @
     to_bytes 4 (round_lot_size d) @ [round_lots_only d, issue_classification d] @ issue_subtype d @
     [authenticity d, short_sale_threshold d, ipo_flag d, luld_tier d, etp_flag d] @
     to_bytes 4 (etp_leverage d) @ [inverse_indicator d]"

definition stock_directory_ok :: "itch_stock_directory \<Rightarrow> bool" where
  "stock_directory_ok d \<longleftrightarrow> prefix_ok (dir_prefix d) \<and> length (dir_stock d) = 8 \<and> length (issue_subtype d) = 2"

lemma prefix_in:
  "i + 10 \<le> length m \<Longrightarrow> prefix_at m i = Some \<lparr>stock_locate = of_bytes (take 2 (drop i m)),
     tracking_number = of_bytes (take 2 (drop (i + 2) m)), itch_time = take 6 (drop (i + 4) m)\<rparr>"
  by (simp add: prefix_at_def access_simps)

lemmas offset_simps = Suc_eq_plus1 add.assoc
lemmas suc_forms = add_2_eq_Suc add_2_eq_Suc' One_nat_def

lemma struct_simps:
  "prefix_ok p \<Longrightarrow> length (prefix_bytes p) = 10"
  "prefix_ok p \<Longrightarrow> stored m i (prefix_bytes p) \<Longrightarrow> prefix_at m i = Some p"
  by (simp add: prefix_ok_def prefix_bytes_def)
    (clarsimp simp: prefix_ok_def prefix_bytes_def prefix_at_def stored_simps offset_simps
      simp del: suc_forms)

interpretation header_struct: packed_struct header_bytes header_size header_at "\<lambda>_. True"
proof
  show "True \<Longrightarrow> length (header_bytes x) = header_size" for x
    by (simp add: header_bytes_def header_size_def struct_simps)
  show "True \<Longrightarrow> stored m i (header_bytes x) \<Longrightarrow> header_at m i = Some x" for x m i
    by (clarsimp simp: header_bytes_def header_at_def struct_simps stored_simps offset_simps simp del: suc_forms)
  show "i + header_size \<le> length m \<Longrightarrow> header_at m i \<noteq> None" for m i
    by (simp add: header_size_def header_at_def prefix_in access_simps)
qed

interpretation add_struct: packed_struct add_order_bytes add_order_size add_order_at add_order_ok
proof
  show "add_order_ok x \<Longrightarrow> length (add_order_bytes x) = add_order_size" for x
    by (simp add: add_order_bytes_def add_order_size_def add_order_ok_def struct_simps)
  show "add_order_ok x \<Longrightarrow> stored m i (add_order_bytes x) \<Longrightarrow> add_order_at m i = Some x" for x m i
    by (clarsimp simp: add_order_bytes_def add_order_at_def add_order_ok_def struct_simps stored_simps offset_simps simp del: suc_forms)
  show "i + add_order_size \<le> length m \<Longrightarrow> add_order_at m i \<noteq> None" for m i
    by (simp add: add_order_size_def add_order_at_def prefix_in access_simps)
qed

lemmas add_simps = add_struct.length_law [unfolded add_order_size_def] add_struct.read_law

interpretation attributed_struct: packed_struct add_attributed_bytes add_attributed_size add_attributed_at add_attributed_ok
proof
  show "add_attributed_ok x \<Longrightarrow> length (add_attributed_bytes x) = add_attributed_size" for x
    by (simp add: add_attributed_bytes_def add_attributed_size_def add_attributed_ok_def struct_simps add_simps)
  show "add_attributed_ok x \<Longrightarrow> stored m i (add_attributed_bytes x) \<Longrightarrow> add_attributed_at m i = Some x" for x m i
    by (clarsimp simp: add_attributed_bytes_def add_attributed_at_def add_attributed_ok_def struct_simps add_simps stored_simps offset_simps simp del: suc_forms)
  show "i + add_attributed_size \<le> length m \<Longrightarrow> add_attributed_at m i \<noteq> None" for m i
    by (simp add: add_attributed_size_def add_attributed_at_def prefix_in access_simps add_order_at_def)
qed

interpretation executed_struct: packed_struct executed_bytes executed_size executed_at executed_ok
proof
  show "executed_ok x \<Longrightarrow> length (executed_bytes x) = executed_size" for x
    by (simp add: executed_bytes_def executed_size_def executed_ok_def struct_simps)
  show "executed_ok x \<Longrightarrow> stored m i (executed_bytes x) \<Longrightarrow> executed_at m i = Some x" for x m i
    by (clarsimp simp: executed_bytes_def executed_at_def executed_ok_def struct_simps stored_simps offset_simps simp del: suc_forms)
  show "i + executed_size \<le> length m \<Longrightarrow> executed_at m i \<noteq> None" for m i
    by (simp add: executed_size_def executed_at_def prefix_in access_simps)
qed

lemmas executed_simps = executed_struct.length_law [unfolded executed_size_def] executed_struct.read_law

interpretation executed_price_struct: packed_struct executed_price_bytes executed_price_size executed_price_at executed_price_ok
proof
  show "executed_price_ok x \<Longrightarrow> length (executed_price_bytes x) = executed_price_size" for x
    by (simp add: executed_price_bytes_def executed_price_size_def executed_price_ok_def struct_simps executed_simps)
  show "executed_price_ok x \<Longrightarrow> stored m i (executed_price_bytes x) \<Longrightarrow> executed_price_at m i = Some x" for x m i
    by (clarsimp simp: executed_price_bytes_def executed_price_at_def executed_price_ok_def struct_simps executed_simps stored_simps offset_simps simp del: suc_forms)
  show "i + executed_price_size \<le> length m \<Longrightarrow> executed_price_at m i \<noteq> None" for m i
    by (simp add: executed_price_size_def executed_price_at_def prefix_in access_simps executed_at_def)
qed

interpretation cancel_struct: packed_struct cancel_bytes cancel_size cancel_at cancel_ok
proof
  show "cancel_ok x \<Longrightarrow> length (cancel_bytes x) = cancel_size" for x
    by (simp add: cancel_bytes_def cancel_size_def cancel_ok_def struct_simps)
  show "cancel_ok x \<Longrightarrow> stored m i (cancel_bytes x) \<Longrightarrow> cancel_at m i = Some x" for x m i
    by (clarsimp simp: cancel_bytes_def cancel_at_def cancel_ok_def struct_simps stored_simps offset_simps simp del: suc_forms)
  show "i + cancel_size \<le> length m \<Longrightarrow> cancel_at m i \<noteq> None" for m i
    by (simp add: cancel_size_def cancel_at_def prefix_in access_simps)
qed

interpretation delete_struct: packed_struct delete_bytes delete_size delete_at delete_ok
proof
  show "delete_ok x \<Longrightarrow> length (delete_bytes x) = delete_size" for x
    by (simp add: delete_bytes_def delete_size_def delete_ok_def struct_simps)
  show "delete_ok x \<Longrightarrow> stored m i (delete_bytes x) \<Longrightarrow> delete_at m i = Some x" for x m i
    by (clarsimp simp: delete_bytes_def delete_at_def delete_ok_def struct_simps stored_simps offset_simps simp del: suc_forms)
  show "i + delete_size \<le> length m \<Longrightarrow> delete_at m i \<noteq> None" for m i
    by (simp add: delete_size_def delete_at_def prefix_in access_simps)
qed

interpretation replace_struct: packed_struct replace_bytes replace_size replace_at replace_ok
proof
  show "replace_ok x \<Longrightarrow> length (replace_bytes x) = replace_size" for x
    by (simp add: replace_bytes_def replace_size_def replace_ok_def struct_simps)
  show "replace_ok x \<Longrightarrow> stored m i (replace_bytes x) \<Longrightarrow> replace_at m i = Some x" for x m i
    by (clarsimp simp: replace_bytes_def replace_at_def replace_ok_def struct_simps stored_simps offset_simps simp del: suc_forms)
  show "i + replace_size \<le> length m \<Longrightarrow> replace_at m i \<noteq> None" for m i
    by (simp add: replace_size_def replace_at_def prefix_in access_simps)
qed

interpretation directory_struct: packed_struct stock_directory_bytes stock_directory_size stock_directory_at stock_directory_ok
proof
  show "stock_directory_ok x \<Longrightarrow> length (stock_directory_bytes x) = stock_directory_size" for x
    by (simp add: stock_directory_bytes_def stock_directory_size_def stock_directory_ok_def struct_simps)
  show "stock_directory_ok x \<Longrightarrow> stored m i (stock_directory_bytes x) \<Longrightarrow> stock_directory_at m i = Some x" for x m i
    by (clarsimp simp: stock_directory_bytes_def stock_directory_at_def stock_directory_ok_def struct_simps stored_simps offset_simps simp del: suc_forms)
  show "i + stock_directory_size \<le> length m \<Longrightarrow> stock_directory_at m i \<noteq> None" for m i
    by (simp add: stock_directory_size_def stock_directory_at_def prefix_in access_simps)
qed

end
