(* ===== verification/Os_Files.thy ===== *)
theory Os_Files
  imports Nano_Prelude
begin

text \<open>
  The operating system's answers for one path, a parameter of the two parsers: \<open>open\<close> gives a
  descriptor, negative on failure, \<open>fstat\<close> a size or a failure, \<open>lseek\<close> to the end an offset,
  negative on failure, and \<open>mmap\<close> the bytes it maps or a failure.
\<close>

record os_answers =
  os_open :: int
  os_fstat :: "u64 option"
  os_lseek :: u64
  os_mmap :: "u64 \<Rightarrow> u8 list option"

text \<open>Documented behaviour of \<open>mmap\<close>: a mapping of \<open>n\<close> bytes has \<open>n\<close> bytes, and \<open>n\<close> is not 0.\<close>

definition mmap_ok :: "os_answers \<Rightarrow> bool" where
  "mmap_ok os \<longleftrightarrow> (\<forall>n m. os_mmap os n = Some m \<longrightarrow> length m = unat n \<and> n \<noteq> 0)"

text \<open>A readable file with contents \<open>m\<close>, opened as descriptor \<open>f\<close>.\<close>

definition file_with :: "int \<Rightarrow> u8 list \<Rightarrow> os_answers" where
  "file_with f m = \<lparr>os_open = f, os_fstat = Some (of_nat (length m)), os_lseek = of_nat (length m),
     os_mmap = (\<lambda>n. if n \<noteq> 0 \<and> unat n = length m then Some m else None)\<rparr>"

lemma file_with_ok: "mmap_ok (file_with f m)"
  by (auto simp: mmap_ok_def file_with_def split: if_splits)

end
