(* ===== verification/Mmap_Engine.thy ===== *)
theory Mmap_Engine
  imports Book_Session Async_Logger Itch_Protocols Os_Files
begin

text \<open>
  The flat record feed: \<open>MmapParser\<close> (\<open>src/ingestion/MmapParser.hpp\<close> and \<open>.cpp\<close>), which maps
  a file of 18-byte records, and \<open>Engine\<close> (\<open>src/core/Engine.hpp\<close>), which turns each record
  into a call on one book.
\<close>

section \<open>Records\<close>

record order_record =
  rec_order_id :: order_id
  rec_price :: price
  rec_qty :: quantity
  rec_side :: u8
  rec_type :: u8

definition record_size :: nat where
  "record_size = 18"

definition record_view :: "u8 list \<Rightarrow> nat \<Rightarrow> order_record option" where
  "record_view m i = do {
     k \<leftarrow> load64 m i; p \<leftarrow> load32 m (i + 8); q \<leftarrow> load32 m (i + 12);
     s \<leftarrow> vget m (i + 16); t \<leftarrow> vget m (i + 17);
     Some \<lparr>rec_order_id = k, rec_price = p, rec_qty = q, rec_side = s, rec_type = t\<rparr>
   }"

text \<open>\<open>records[i]\<close>, undefined outside the mapping.\<close>

definition record_at :: "u8 list \<Rightarrow> nat \<Rightarrow> order_record option" where
  "record_at m i = record_view m (record_size * i)"

text \<open>The layout written out, as \<open>data/generate_mock_data.py\<close> packs it.\<close>

definition record_bytes :: "order_record \<Rightarrow> u8 list" where
  "record_bytes r = to_bytes 8 (rec_order_id r) @ to_bytes 4 (rec_price r) @ to_bytes 4 (rec_qty r) @
     [rec_side r, rec_type r]"

interpretation record_struct: packed_struct record_bytes record_size record_view "\<lambda>_. True"
proof
  show "length (record_bytes r) = record_size" for r
    by (simp add: record_bytes_def record_size_def)
  show "stored m i (record_bytes r) \<Longrightarrow> record_view m i = Some r" for r m i
    by (clarsimp simp: record_bytes_def record_view_def stored_simps offset_simps simp del: suc_forms)
  show "i + record_size \<le> length m \<Longrightarrow> record_view m i \<noteq> None" for m i
    by (simp add: record_size_def record_view_def access_simps)
qed

definition feed_bytes :: "order_record list \<Rightarrow> u8 list" where
  "feed_bytes rs = concat (map record_bytes rs)"

lemma length_feed: "length (feed_bytes rs) = 18 * length rs"
  unfolding feed_bytes_def using record_struct.length_all [of rs] by (simp add: record_size_def)

lemma record_at_feed: "i < length rs \<Longrightarrow> record_at (feed_bytes rs) i = Some (rs ! i)"
  unfolding feed_bytes_def record_at_def by (rule record_struct.read_all) simp_all

section \<open>The parser\<close>

datatype mmap_error = Open_failed | Fstat_failed | Bad_size u64 | Mmap_failed

record mmap_parser =
  fd :: int
  msize :: u64
  count_of :: u64
  mdata :: "u8 list"

text \<open>
  The constructor.  The first component of the result lists the descriptors it has closed.
\<close>

definition mmap_parser_new :: "os_answers \<Rightarrow> int list \<times> (mmap_error + mmap_parser)" where
  "mmap_parser_new os = (let f = os_open os in
     if f < 0 then ([], Inl Open_failed)
     else (case os_fstat os of
         None \<Rightarrow> ([f], Inl Fstat_failed)
       | Some sz \<Rightarrow>
           if sz = 0 \<or> sz mod of_nat record_size \<noteq> 0 then ([f], Inl (Bad_size sz))
           else (case os_mmap os sz of
               None \<Rightarrow> ([f], Inl Mmap_failed)
             | Some mapped \<Rightarrow> ([], Inr \<lparr>fd = f, msize = sz, count_of = sz div of_nat record_size,
                 mdata = mapped\<rparr>))))"

text \<open>The destructor of a constructed parser: the bytes it unmaps and the descriptors it closes.\<close>

definition mmap_parser_delete :: "mmap_parser \<Rightarrow> u64 \<times> int list" where
  "mmap_parser_delete p = (msize p, if fd p \<ge> 0 then [fd p] else [])"

section \<open>The engine\<close>

definition record_side :: "order_record \<Rightarrow> side" where
  "record_side r = (if rec_side r = 0 then BUY else SELL)"

definition run_record ::
  "(nat \<Rightarrow> u64) \<Rightarrow> order_book \<times> nat \<Rightarrow> order_record \<Rightarrow> (order_book \<times> nat) option" where
  "run_record clk st r = (case st of (b, processed) \<Rightarrow>
     if rec_type r = byte_of CHR ''L'' then do {
       (b, rests) \<leftarrow> insert_limit_order clk b (rec_order_id r) (record_side r) (rec_price r) (rec_qty r);
       Some (b, processed + 1)
     } else if rec_type r = byte_of CHR ''M'' then do {
       b \<leftarrow> process_market_order clk b (record_side r) (rec_qty r);
       Some (b, processed + 1)
     } else if rec_type r = byte_of CHR ''C'' then do {
       b \<leftarrow> cancel_order b (rec_order_id r);
       Some (b, processed + 1)
     } else Some (b, processed))"

function run_records ::
  "(nat \<Rightarrow> u64) \<Rightarrow> u8 list \<Rightarrow> nat \<Rightarrow> nat \<Rightarrow> order_book \<times> nat \<Rightarrow> (order_book \<times> nat) option" where
  "run_records clk m n i st = (if i < n
     then do { r \<leftarrow> record_at m i; st \<leftarrow> run_record clk st r; run_records clk m n (i + 1) st }
     else Some st)"
  by pat_completeness auto

termination
  by (relation "measure (\<lambda>(clk, m, n, i, st). n - i)") auto

declare run_records.simps [simp del]

text \<open>
  \<open>Engine::run\<close> without the logger's threads: the book, the number of records processed, and
  whether the warning was printed.  The trades are the \<open>fills\<close> of the book.
\<close>

definition engine_run :: "(nat \<Rightarrow> u64) \<Rightarrow> mmap_parser \<Rightarrow> order_book \<Rightarrow> (order_book \<times> nat \<times> bool) option" where
  "engine_run clk p b = do {
     let n = unat (count_of p);
     (b, processed) \<leftarrow> run_records clk (mdata p) n 0 (b, 0);
     Some (b, processed, 0 < n \<and> processed = 0)
   }"

definition MAX_ORDERS :: nat where
  "MAX_ORDERS = 1048576"

text \<open>
  The members in the order of their declaration: the book, then the parser, whose exception
  leaves the constructor.
\<close>

definition engine_new ::
  "os_answers \<Rightarrow> nat \<Rightarrow> nat \<Rightarrow> (order_book \<times> int list \<times> (mmap_error + mmap_parser)) option" where
  "engine_new os price_band max_orders = do {
     b \<leftarrow> book_new price_band max_orders;
     Some (b, mmap_parser_new os)
   }"

section \<open>Files that are accepted\<close>

lemma size_mod_18: "(w :: u64) mod of_nat record_size = 0 \<longleftrightarrow> unat w mod 18 = 0"
proof -
  have "unat (w mod 18) = unat w mod 18" by (simp add: unat_mod)
  moreover have "w mod 18 = 0 \<longleftrightarrow> unat (w mod 18) = 0" by (metis unat_0 word_unat_eq_iff)
  ultimately show ?thesis by (simp add: record_size_def)
qed

lemma size_div_18: "unat ((w :: u64) div of_nat record_size) = unat w div 18"
  by (simp add: record_size_def unat_div)

lemma mmap_parser_new_Inr:
  assumes "mmap_ok os" and "mmap_parser_new os = (cl, Inr p)"
  shows "cl = []" "fd p = os_open os" "0 \<le> fd p" "msize p \<noteq> 0" "length (mdata p) = 18 * unat (count_of p)"
    "length (mdata p) = unat (msize p)" "0 < unat (count_of p)" "os_mmap os (msize p) = Some (mdata p)"
proof -
  obtain sz m where r: "0 \<le> os_open os" "os_fstat os = Some sz" "sz \<noteq> 0" "sz mod of_nat record_size = 0"
    "os_mmap os sz = Some m" "cl = []"
    "p = \<lparr>fd = os_open os, msize = sz, count_of = sz div of_nat record_size, mdata = m\<rparr>"
    using assms(2) by (auto simp: mmap_parser_new_def Let_def split: if_splits option.splits)
  have n: "length m = unat sz" using assms(1) r(5) by (auto simp: mmap_ok_def)
  have z: "unat sz \<noteq> 0" using r(3) by (metis unat_0 word_unat_eq_iff)
  have d: "unat sz = 18 * (unat sz div 18)" using r(4) unfolding size_mod_18 by presburger
  show "cl = []" "fd p = os_open os" "0 \<le> fd p" "msize p \<noteq> 0" "length (mdata p) = unat (msize p)"
    "os_mmap os (msize p) = Some (mdata p)"
    using r n by simp_all
  show "length (mdata p) = 18 * unat (count_of p)"
    using r(7) n d by (simp only: mmap_parser.simps size_div_18)
  then show "0 < unat (count_of p)" using r(7) n z by simp
qed

lemma feed_file:
  assumes "rs \<noteq> []" and "18 * length rs < 18446744073709551616" and "0 \<le> f"
  obtains p where "mmap_parser_new (file_with f (feed_bytes rs)) = ([], Inr p)"
    "mdata p = feed_bytes rs" "unat (count_of p) = length rs"
proof -
  let ?m = "feed_bytes rs" and ?w = "of_nat (length (feed_bytes rs)) :: u64"
  have u: "unat ?w = 18 * length rs" using assms(2) by (simp only: length_feed unat_of_nat_u64)
  have z: "?w \<noteq> 0"
  proof
    assume "?w = 0"
    then have "unat ?w = unat (0 :: u64)" by (rule arg_cong)
    then show False using u assms(1) by simp
  qed
  have "?w mod of_nat record_size = 0" unfolding size_mod_18 u by simp
  then have "mmap_parser_new (file_with f ?m) =
      ([], Inr \<lparr>fd = f, msize = ?w, count_of = ?w div of_nat record_size, mdata = ?m\<rparr>)"
    using z u assms(3) by (simp add: mmap_parser_new_def file_with_def Let_def length_feed del: of_nat_mult)
  moreover have "unat (?w div of_nat record_size) = length rs" unfolding size_div_18 u by simp
  ultimately show ?thesis using that by simp
qed

section \<open>The calls of a feed\<close>

definition record_ops :: "order_record \<Rightarrow> book_op list" where
  "record_ops r = (if rec_type r = byte_of CHR ''L''
       then [Insert (rec_order_id r) (record_side r) (rec_price r) (rec_qty r)]
     else if rec_type r = byte_of CHR ''M'' then [Market (record_side r) (rec_qty r)]
     else if rec_type r = byte_of CHR ''C'' then [Cancel (rec_order_id r)] else [])"

definition feed_ops :: "order_record list \<Rightarrow> book_op list" where
  "feed_ops rs = concat (map record_ops rs)"

lemma run_record_ops:
  "run_record clk (b, n) r = map_option (\<lambda>b. (b, n + length (record_ops r))) (book_run clk b (record_ops r))"
  by (auto simp: run_record_def record_ops_def map_option_case split: option.splits)

lemma run_records_feed:
  "i \<le> length rs \<Longrightarrow> run_records clk (feed_bytes rs) (length rs) i (b, n) =
    map_option (\<lambda>b. (b, n + length (feed_ops (drop i rs)))) (book_run clk b (feed_ops (drop i rs)))"
proof (induction "length rs - i" arbitrary: i b n)
  case 0
  then show ?case by (simp add: run_records.simps feed_ops_def)
next
  case (Suc d)
  then have i: "i < length rs" by simp
  have d: "feed_ops (drop i rs) = record_ops (rs ! i) @ feed_ops (drop (Suc i) rs)"
    by (simp add: feed_ops_def flip: Cons_nth_drop_Suc [OF i])
  have IH: "run_records clk (feed_bytes rs) (length rs) (Suc i) (b, n) =
    map_option (\<lambda>b. (b, n + length (feed_ops (drop (Suc i) rs)))) (book_run clk b (feed_ops (drop (Suc i) rs)))" for b n
    using Suc i by simp
  show ?case
    by (subst run_records.simps)
      (simp add: i record_at_feed run_record_ops d book_run_append IH map_option_case add.assoc split: option.splits)
qed

section \<open>Properties\<close>

text \<open>
  C36: \<open>MmapParser\<close> either refuses the file, and then every descriptor it opened is closed, or it
  accepts it: then the size is a positive multiple of 18, the descriptor is closed by the
  destructor and only there, every record up to \<open>count()\<close> is read inside the mapping, and the
  bytes behind the last one are none.
\<close>

theorem mmap_parser_is_safe:
  assumes "mmap_ok os"
  shows "case mmap_parser_new os of
      (closed, Inl e) \<Rightarrow> closed = (if os_open os < 0 then [] else [os_open os]) \<and>
        (e = Open_failed \<longleftrightarrow> os_open os < 0)
    | (closed, Inr p) \<Rightarrow> closed = [] \<and> snd (mmap_parser_delete p) = [os_open os] \<and>
        unat (fst (mmap_parser_delete p)) = length (mdata p) \<and>
        record_size * unat (count_of p) = length (mdata p) \<and> 0 < count_of p \<and>
        list_all (\<lambda>i. record_at (mdata p) i \<noteq> None) [0..<unat (count_of p)] \<and>
        record_at (mdata p) (unat (count_of p)) = None"
proof (cases "mmap_parser_new os")
  case (Pair closed r)
  show ?thesis
  proof (cases r)
    case (Inl e)
    then show ?thesis using Pair by (auto simp: mmap_parser_new_def Let_def split: if_splits option.splits)
  next
    case (Inr p)
    note a = mmap_parser_new_Inr [OF assms Pair [unfolded Inr]]
    have "record_at (mdata p) i \<noteq> None" if "i < unat (count_of p)" for i
      unfolding record_at_def by (rule record_struct.fits_law) (use that a(5) in \<open>simp add: record_size_def\<close>)
    moreover have "record_at (mdata p) (unat (count_of p)) = None"
      using a(5) by (simp add: record_at_def record_view_def record_size_def load64_def bytes_at_def)
    moreover have "0 < count_of p" using a(7) by (simp add: word_less_nat_alt)
    ultimately show ?thesis
      using Pair Inr a by (simp add: mmap_parser_delete_def record_size_def list_all_iff)
  qed
qed

definition demo_record :: order_record where
  "demo_record = \<lparr>rec_order_id = 7, rec_price = 100, rec_qty = 5, rec_side = 0, rec_type = byte_of CHR ''L''\<rparr>"

theorem mmap_parser_is_safe_witness:
  "mmap_parser_new (file_with 3 (feed_bytes [demo_record])) =
      ([], Inr \<lparr>fd = 3, msize = 18, count_of = 1, mdata = feed_bytes [demo_record]\<rparr>) \<and>
    record_at (feed_bytes [demo_record]) 0 \<noteq> None \<and> record_at (feed_bytes [demo_record]) 1 = None"
proof -
  have r: "mmap_parser_new (file_with 3 (feed_bytes [demo_record])) =
      ([], Inr \<lparr>fd = 3, msize = 18, count_of = 1, mdata = feed_bytes [demo_record]\<rparr>)"
    by code_simp
  show ?thesis using mmap_parser_is_safe [OF file_with_ok, of 3 "feed_bytes [demo_record]"] unfolding r by simp
qed

text \<open>
  C8: for a file that packs a non-empty list of records, fewer than 2 ^ 64 bytes, whose insertions
  use ids from a collision-free set, each only while it is not in the id table (with a band of 1
  to 2 ^ 32 - 1 levels and a pool of 1 to 2 ^ 30 slots; no call is assumed to return), \<open>Engine\<close> opens it, and \<open>run\<close> returns and does on the
  book exactly the calls the records stand for, in their order; records of an unknown type do
  nothing, and the warning appears when there was no other.  The logger around the run, whose
  threads interleave in any way, can always be brought to its end, and then the report holds one
  line for each accepted trade of the book, in order; the others are counted as dropped, and
  there are none when the trades are at most as many as the ring holds.
\<close>

theorem engine_replays_the_feed:
  assumes "rs \<noteq> []" and "18 * length rs < 18446744073709551616" and "0 \<le> f"
    and "0 < n" and "n \<le> 4294967295" and "0 < m" and "m \<le> 1073741824" and "collision_free m (set ks)"
    and "book_new n m = Some b0" and "ops_ok ks (\<lambda>_ _. True) clk b0 (feed_ops rs)"
  shows "\<exists>p b. engine_new (file_with f (feed_bytes rs)) n m = Some (b0, [], Inr p) \<and>
    engine_run clk p b0 = Some (b, length (feed_ops rs), feed_ops rs = []) \<and>
    book_run clk b0 (feed_ops rs) = Some b \<and> session clk n m (set ks) (\<lambda>_ _. True) b \<and>
    (\<exists>l. log_session kCapacity t0 (fills b) l) \<and>
    (\<forall>l. log_session kCapacity t0 (fills b) l \<longrightarrow>
      (\<exists>acc. out l = header @ concat (map trade_line acc) \<and> subseq acc (fills b) \<and>
        dropped l = of_nat (length (fills b) - length acc) \<and>
        (length (fills b) \<le> kCapacity \<longrightarrow> acc = fills b)))"
proof -
  have h: "healthy n m (set ks) b0" using healthy_new [OF assms(4-8)] assms(9) by (metis option.inject)
  obtain b where b: "book_run clk b0 (feed_ops rs) = Some b" "session clk n m (set ks) (\<lambda>_ _. True) b"
    using session_run [OF h assms(10) session.fresh [OF assms(9)]] by blast
  obtain p where p: "mmap_parser_new (file_with f (feed_bytes rs)) = ([], Inr p)"
    "mdata p = feed_bytes rs" "unat (count_of p) = length rs"
    using feed_file [OF assms(1-3)] .
  have "engine_run clk p b0 = Some (b, length (feed_ops rs), feed_ops rs = [])"
    using assms(1) b(1) by (simp add: engine_run_def p run_records_feed)
  moreover have "engine_new (file_with f (feed_bytes rs)) n m = Some (b0, [], Inr p)"
    by (simp add: engine_new_def p(1) assms(9))
  ultimately show ?thesis
    by (intro exI [of _ p] exI [of _ b] conjI b log_session_exists [OF kCapacity_ok])
      (use log_session_report [OF kCapacity_ok] in blast)+
qed

definition demo_feed :: "order_record list" where
  "demo_feed = [demo_record\<lparr>rec_order_id := 1\<rparr>,
     demo_record\<lparr>rec_order_id := 2, rec_price := 102, rec_qty := 7, rec_side := 1\<rparr>,
     demo_record\<lparr>rec_type := 0\<rparr>,
     demo_record\<lparr>rec_order_id := 3, rec_price := 102, rec_qty := 4\<rparr>,
     demo_record\<lparr>rec_order_id := 1, rec_type := byte_of CHR ''C''\<rparr>]"

theorem engine_replays_the_feed_witness:
  "\<exists>p b l. engine_new (file_with 3 (feed_bytes demo_feed)) 8 4 = Some (demo_start, [], Inr p) \<and>
    engine_run demo_clk p demo_start = Some (b, 4, False) \<and>
    map (\<lambda>t. (maker_id t, taker_id t, tprice t, tqty t)) (fills b) = [(2, 3, 102, 4)] \<and>
    log_session kCapacity demo_trade (fills b) l \<and> out l = header @ trade_line (hd (fills b)) \<and> dropped l = 0"
proof -
  have ok: "ops_ok demo_ids (\<lambda>_ _. True) demo_clk demo_start (feed_ops demo_feed)" by code_simp
  have n: "length (feed_ops demo_feed) = 4" "feed_ops demo_feed \<noteq> []" by code_simp+
  have "demo_feed \<noteq> []" "18 * length demo_feed < 18446744073709551616" by (simp_all add: demo_feed_def)
  from engine_replays_the_feed [OF this _ _ _ _ _ demo_free demo_start_ok(1) ok, of 3 demo_trade]
  obtain p b l where pb: "engine_new (file_with 3 (feed_bytes demo_feed)) 8 4 = Some (demo_start, [], Inr p)"
    "engine_run demo_clk p demo_start = Some (b, 4, False)" "book_run demo_clk demo_start (feed_ops demo_feed) = Some b"
    and l: "log_session kCapacity demo_trade (fills b) l"
    and rep: "\<forall>l. log_session kCapacity demo_trade (fills b) l \<longrightarrow>
      (\<exists>acc. out l = header @ concat (map trade_line acc) \<and> subseq acc (fills b) \<and>
        dropped l = of_nat (length (fills b) - length acc) \<and>
        (length (fills b) \<le> kCapacity \<longrightarrow> acc = fills b))"
    using n by auto
  have "map_option (\<lambda>b. map (\<lambda>t. (maker_id t, taker_id t, tprice t, tqty t)) (fills b))
      (book_run demo_clk demo_start (feed_ops demo_feed)) = Some [(2, 3, 102, 4)]" by code_simp
  then have t: "map (\<lambda>t. (maker_id t, taker_id t, tprice t, tqty t)) (fills b) = [(2, 3, 102, 4)]"
    using pb(3) by simp
  then obtain x where x: "fills b = [x]" by (cases "fills b") auto
  then have "length (fills b) \<le> kCapacity" by (simp add: kCapacity_def)
  then obtain acc where "out l = header @ concat (map trade_line acc)" "acc = fills b"
    "dropped l = of_nat (length (fills b) - length acc)" using rep l by blast
  then have "out l = header @ trade_line (hd (fills b))" "dropped l = 0" using x by simp_all
  then show ?thesis by (intro exI [of _ p] exI [of _ b] exI [of _ l] conjI pb(1,2) t l)
qed

end
