(* ===== verification/Itch_Parser.thy ===== *)
theory Itch_Parser
  imports Book_Session Async_Logger Itch_Protocols Os_Files
begin

text \<open>
  The ITCH replay of \<open>src/ingestion/ItchParser.cpp\<close>: framing and decoding of a mapped file,
  one book per tracked \<open>stock_locate\<close>, and the table \<open>ref_owner\<close> that routes executions,
  cancellations, deletions and replacements to the book of their order.  A pointer to a book is
  the locate of the book.  \<open>traded\<close> is the sequence of trades that all books together hand to
  the logger.  The latency samples and the yield of the thread are left out.
\<close>

section \<open>State\<close>

definition kMaxStockLocate :: nat where
  "kMaxStockLocate = 8192"

record itch_config =
  allowed_locates :: "u16 list"
  price_band :: nat
  max_orders :: nat

record itch_state =
  market_books :: "u16 \<Rightarrow> order_book option"
  ref_owner :: "order_id \<Rightarrow> u16 option"
  message_count :: u64
  tracked_adds :: u64
  successful_inserts :: u64
  execute_calls :: u64
  execute_hits :: u64
  sample_inserts :: "order_id list"
  sample_execs :: "order_id list"
  traded :: "trade list"

definition itch_start :: itch_state where
  "itch_start = \<lparr>market_books = (\<lambda>_. None), ref_owner = (\<lambda>_. None), message_count = 0, tracked_adds = 0,
     successful_inserts = 0, execute_calls = 0, execute_hits = 0, sample_inserts = [], sample_execs = [],
     traded = []\<rparr>"

definition is_tracked :: "itch_config \<Rightarrow> u16 \<Rightarrow> bool" where
  "is_tracked cfg locate \<longleftrightarrow> allowed_locates cfg = [] \<or> locate \<in> set (allowed_locates cfg)"

text \<open>Reading and writing \<open>market_books[locate]\<close>: undefined beyond the vector.\<close>

definition book_slot :: "itch_state \<Rightarrow> u16 \<Rightarrow> order_book option option" where
  "book_slot st locate = (if unat locate < kMaxStockLocate then Some (market_books st locate) else None)"

definition set_book :: "u16 \<Rightarrow> order_book \<Rightarrow> order_book \<Rightarrow> itch_state \<Rightarrow> itch_state" where
  "set_book locate b b' st = st\<lparr>market_books := (market_books st)(locate \<mapsto> b'),
     traded := traded st @ drop (length (fills b)) (fills b')\<rparr>"

definition add_sample :: "order_id \<Rightarrow> order_id list \<Rightarrow> order_id list" where
  "add_sample k ks = (if length ks < 16 then ks @ [k] else ks)"

section \<open>Handlers\<close>

type_synonym clocks = "u16 \<Rightarrow> nat \<Rightarrow> u64"

text \<open>The bodies of \<open>case 'A'\<close> and \<open>case 'F'\<close>: the same members at the same places.\<close>

definition on_add :: "itch_config \<Rightarrow> clocks \<Rightarrow> itch_add_order \<Rightarrow> itch_state \<Rightarrow> itch_state option" where
  "on_add cfg clk msg st = (let locate = bswap16 (stock_locate (add_prefix msg)) in
     if unat locate < kMaxStockLocate \<and> is_tracked cfg locate then do {
       let st = st\<lparr>tracked_adds := tracked_adds st + 1\<rparr>;
       slot \<leftarrow> book_slot st locate;
       b \<leftarrow> (case slot of None \<Rightarrow> book_new (price_band cfg) (max_orders cfg) | Some b \<Rightarrow> Some b);
       let px = bswap32 (add_price msg);
       let k = bswap64 (add_order_id msg);
       (b', rests) \<leftarrow> insert_limit_order (clk locate) b k
         (if add_side msg = byte_of CHR ''S'' then SELL else BUY) px (bswap32 (add_shares msg));
       let st = set_book locate b b' st;
       Some (if rests
         then st\<lparr>ref_owner := (ref_owner st)(k \<mapsto> locate), successful_inserts := successful_inserts st + 1,
           sample_inserts := add_sample k (sample_inserts st)\<rparr>
         else st)
     } else Some st)"

text \<open>The bodies of \<open>case 'E'\<close> and \<open>case 'C'\<close>.\<close>

definition on_executed :: "clocks \<Rightarrow> itch_executed \<Rightarrow> itch_state \<Rightarrow> itch_state option" where
  "on_executed clk msg st = (let k = bswap64 (exec_order_id msg);
       st = st\<lparr>execute_calls := execute_calls st + 1\<rparr> in
     case ref_owner st k of
       Some locate \<Rightarrow> do {
         slot \<leftarrow> book_slot st locate;
         b \<leftarrow> slot;
         (b', gone) \<leftarrow> execute_order (clk locate) b k (bswap32 (exec_shares msg));
         let st = set_book locate b b' st;
         Some (if gone
           then st\<lparr>ref_owner := (ref_owner st)(k := None), execute_hits := execute_hits st + 1\<rparr> else st)
       }
     | None \<Rightarrow> Some (st\<lparr>sample_execs := add_sample k (sample_execs st)\<rparr>))"

definition on_cancel :: "itch_cancel \<Rightarrow> itch_state \<Rightarrow> itch_state option" where
  "on_cancel msg st = (let k = bswap64 (cancel_order_id msg) in
     case ref_owner st k of
       Some locate \<Rightarrow> do {
         slot \<leftarrow> book_slot st locate;
         b \<leftarrow> slot;
         (b', gone) \<leftarrow> reduce_order_qty b k (bswap32 (canceled_shares msg));
         let st = set_book locate b b' st;
         Some (if gone then st\<lparr>ref_owner := (ref_owner st)(k := None)\<rparr> else st)
       }
     | None \<Rightarrow> Some st)"

definition on_delete :: "itch_delete \<Rightarrow> itch_state \<Rightarrow> itch_state option" where
  "on_delete msg st = (let k = bswap64 (delete_order_id msg) in
     case ref_owner st k of
       Some locate \<Rightarrow> do {
         slot \<leftarrow> book_slot st locate;
         b \<leftarrow> slot;
         b' \<leftarrow> cancel_order b k;
         let st = set_book locate b b' st;
         Some (st\<lparr>ref_owner := (ref_owner st)(k := None)\<rparr>)
       }
     | None \<Rightarrow> Some st)"

definition on_replace :: "clocks \<Rightarrow> itch_replace \<Rightarrow> itch_state \<Rightarrow> itch_state option" where
  "on_replace clk msg st = (let old = bswap64 (original_order_id msg); k = bswap64 (new_order_id msg) in
     case ref_owner st old of
       Some locate \<Rightarrow> do {
         slot \<leftarrow> book_slot st locate;
         b \<leftarrow> slot;
         old_idx \<leftarrow> id_find (ids b) old;
         (if old_idx \<noteq> NULL_IDX then do {
            ord \<leftarrow> order_at b old_idx;
            b1 \<leftarrow> cancel_order b old;
            (b2, rests) \<leftarrow> insert_limit_order (clk locate) b1 k (oside ord) (bswap32 (replace_price msg))
              (bswap32 (replace_shares msg));
            let st = set_book locate b b2 st;
            Some (if rests then st\<lparr>ref_owner := ((ref_owner st)(old := None))(k \<mapsto> locate)\<rparr>
              else st\<lparr>ref_owner := (ref_owner st)(old := None)\<rparr>)
          } else Some st)
       }
     | None \<Rightarrow> Some st)"

section \<open>Framing\<close>

text \<open>What the switch finds: a message whose struct fits, or nothing to do.\<close>

datatype itch_msg =
    M_add itch_add_order | M_attributed itch_add_attributed
  | M_executed itch_executed | M_executed_price itch_executed_price
  | M_cancel itch_cancel | M_delete itch_delete | M_replace itch_replace
  | M_skip

text \<open>\<open>p\<close> is the payload's offset, \<open>length m - p\<close> is \<open>body_avail\<close>.\<close>

definition message_at :: "u8 list \<Rightarrow> nat \<Rightarrow> u8 \<Rightarrow> itch_msg option" where
  "message_at m p t = (let body_avail = length m - p in
     if t = byte_of CHR ''A'' then
       (if body_avail < add_order_size then Some M_skip else map_option M_add (add_order_at m p))
     else if t = byte_of CHR ''F'' then
       (if body_avail < add_attributed_size then Some M_skip else map_option M_attributed (add_attributed_at m p))
     else if t = byte_of CHR ''E'' then
       (if body_avail < executed_size then Some M_skip else map_option M_executed (executed_at m p))
     else if t = byte_of CHR ''C'' then
       (if body_avail < executed_price_size then Some M_skip
        else map_option M_executed_price (executed_price_at m p))
     else if t = byte_of CHR ''X'' then
       (if body_avail < cancel_size then Some M_skip else map_option M_cancel (cancel_at m p))
     else if t = byte_of CHR ''D'' then
       (if body_avail < delete_size then Some M_skip else map_option M_delete (delete_at m p))
     else if t = byte_of CHR ''U'' then
       (if body_avail < replace_size then Some M_skip else map_option M_replace (replace_at m p))
     else Some M_skip)"

fun handle :: "itch_config \<Rightarrow> clocks \<Rightarrow> itch_msg \<Rightarrow> itch_state \<Rightarrow> itch_state option" where
  "handle cfg clk (M_add a) st = on_add cfg clk a st"
| "handle cfg clk (M_attributed a) st = on_add cfg clk (attr_add a) st"
| "handle cfg clk (M_executed e) st = on_executed clk e st"
| "handle cfg clk (M_executed_price e) st = on_executed clk (priced_exec e) st"
| "handle cfg clk (M_cancel c) st = on_cancel c st"
| "handle cfg clk (M_delete d) st = on_delete d st"
| "handle cfg clk (M_replace r) st = on_replace clk r st"
| "handle cfg clk M_skip st = Some st"

function parse_loop ::
  "itch_config \<Rightarrow> clocks \<Rightarrow> u8 list \<Rightarrow> nat \<Rightarrow> itch_state \<Rightarrow> itch_state option" where
  "parse_loop cfg clk m cursor st = (if cursor < length m then
     if cursor + header_size > length m then Some st
     else do {
       h \<leftarrow> header_at m cursor;
       let n = unat (bswap16 (packet_length h));
       (if n < 1 \<or> cursor + 2 + n > length m then Some st
        else do {
          msg \<leftarrow> message_at m (cursor + header_size) (message_type h);
          st \<leftarrow> handle cfg clk msg st;
          parse_loop cfg clk m (cursor + (2 + n)) (st\<lparr>message_count := message_count st + 1\<rparr>)
        })
     }
   else Some st)"
  by pat_completeness auto

termination
  by (relation "measure (\<lambda>(cfg, clk, m, cursor, st). length m - cursor)") auto

declare parse_loop.simps [simp del]

datatype itch_error = Itch_open_failed | Itch_lseek_failed | Itch_mmap_failed

text \<open>The first component of the result lists the descriptors that were closed.\<close>

definition parse_itch_file ::
  "itch_config \<Rightarrow> clocks \<Rightarrow> os_answers \<Rightarrow> (int list \<times> (itch_error + itch_state)) option" where
  "parse_itch_file cfg clk os = (let f = os_open os in
     if f < 0 then Some ([], Inl Itch_open_failed)
     else if sint (os_lseek os) < 0 then Some ([f], Inl Itch_lseek_failed)
     else case os_mmap os (os_lseek os) of
         None \<Rightarrow> Some ([f], Inl Itch_mmap_failed)
       | Some m \<Rightarrow> do { st \<leftarrow> parse_loop cfg clk m 0 itch_start; Some ([f], Inr st) })"

text \<open>What is printed at the end: the counters, the samples and, without any tracked add, a warning.\<close>

definition sample_line :: "string \<Rightarrow> order_id list \<Rightarrow> string" where
  "sample_line name ks = ''[Diagnostic] '' @ name @ '': '' @ concat (map (\<lambda>k. dec (unat k) @ '' '') ks) @ newline"

definition no_adds_warning :: string where
  "no_adds_warning =
     ''[Warning] No add-order messages were seen for the tracked locate_id(s). '' @
     ''Either that stock_locate had no activity in this file, or it's the wrong '' @
     ''locate_id for the ticker you meant -- dump the 'R' Stock Directory messages '' @
     ''to confirm the locate_id -> ticker mapping.'' @ newline"

definition itch_diagnostics :: "itch_state \<Rightarrow> string" where
  "itch_diagnostics st =
     ''[Diagnostic] tracked_adds='' @ dec (unat (tracked_adds st)) @
     '' successful_inserts='' @ dec (unat (successful_inserts st)) @
     '' execute_calls='' @ dec (unat (execute_calls st)) @
     '' execute_hits='' @ dec (unat (execute_hits st)) @ newline @
     sample_line ''sample_inserts'' (sample_inserts st) @
     sample_line ''sample_execs'' (sample_execs st) @
     (if tracked_adds st = 0 then no_adds_warning else [])"

end
