(* ===== verification/Programs.thy ===== *)
theory Programs
  imports Mmap_Engine Itch_Parser
begin

text \<open>
  The two programs: \<open>main\<close> of \<open>src/core/main.cpp\<close> around \<open>Engine\<close>, and \<open>main\<close> of
  \<open>src/core/itch_main.cpp\<close> around \<open>parse_itch_file\<close> with its command line.  \<open>argv\<close> includes the
  name of the program.  Console output, timing, the memory estimate and the latency percentiles
  are left out.
\<close>

section \<open>nanomatch\<close>

definition arg_or :: "string list \<Rightarrow> nat \<Rightarrow> string \<Rightarrow> string" where
  "arg_or argv i d = (if length argv > i then argv ! i else d)"

text \<open>The exit code and, after a run, the book; \<open>file\<close> gives the system's answers for a path.\<close>

definition nanomatch_main ::
  "(nat \<Rightarrow> u64) \<Rightarrow> (string \<Rightarrow> os_answers) \<Rightarrow> string list \<Rightarrow> (int \<times> order_book option) option" where
  "nanomatch_main clk file argv = do {
     let input_file = arg_or argv 1 ''data/market_data.bin'';
     (b, closed, r) \<leftarrow> engine_new (file input_file) 100000 MAX_ORDERS;
     (case r of
         Inl e \<Rightarrow> Some (1, None)
       | Inr p \<Rightarrow> do { (b, processed, warned) \<leftarrow> engine_run clk p b; Some (0, Some b) })
   }"

section \<open>Numbers on the command line\<close>

definition is_space :: "char \<Rightarrow> bool" where
  "is_space c \<longleftrightarrow> of_char c = (32 :: nat) \<or> 9 \<le> (of_char c :: nat) \<and> of_char c \<le> (13 :: nat)"

definition is_digit :: "char \<Rightarrow> bool" where
  "is_digit c \<longleftrightarrow> 48 \<le> (of_char c :: nat) \<and> of_char c \<le> (57 :: nat)"

definition number :: "string \<Rightarrow> nat" where
  "number ds = foldl (\<lambda>v c. 10 * v + (of_char c - 48)) 0 ds"

datatype stoul_error = Invalid_argument | Out_of_range

text \<open>\<open>std::stoul\<close> in base 10: white space, a sign, digits; whatever follows is ignored.\<close>

definition stoul :: "string \<Rightarrow> stoul_error + u64" where
  "stoul s = (let s = dropWhile is_space s;
       neg = (s \<noteq> [] \<and> hd s = CHR ''-'');
       s = (if s \<noteq> [] \<and> (hd s = CHR ''-'' \<or> hd s = CHR ''+'') then tl s else s);
       ds = takeWhile is_digit s in
     if ds = [] then Inl Invalid_argument
     else if number ds \<ge> 18446744073709551616 then Inl Out_of_range
     else Inr (if neg then - of_nat (number ds) else of_nat (number ds)))"

text \<open>\<open>std::getline\<close> with a comma, until it fails.\<close>

function getlines :: "string \<Rightarrow> string list" where
  "getlines s = (if s = [] then [] else
     takeWhile (\<lambda>c. c \<noteq> CHR '','') s # getlines (drop 1 (dropWhile (\<lambda>c. c \<noteq> CHR '','') s)))"
  by pat_completeness auto

termination
proof (relation "measure length")
  fix s :: string
  assume "s \<noteq> []"
  then have "length (drop 1 (dropWhile (\<lambda>c. c \<noteq> CHR '','') s)) < length s"
    using length_dropWhile_le [of "\<lambda>c. c \<noteq> CHR '',''" s] by (cases s) (auto simp: less_Suc_eq_le)
  then show "(drop 1 (dropWhile (\<lambda>c. c \<noteq> CHR '','') s), s) \<in> measure length" by simp
qed simp

declare getlines.simps [simp del]

section \<open>itch\_replay\<close>

datatype cli_error = Usage | No_locates | Bad_number stoul_error

fun read_locates :: "string list \<Rightarrow> cli_error + u16 list" where
  "read_locates [] = Inr []"
| "read_locates (tok # toks) = (if tok = [] then read_locates toks
     else case stoul tok of
         Inl e \<Rightarrow> Inl (Bad_number e)
       | Inr n \<Rightarrow> (case read_locates toks of Inl e \<Rightarrow> Inl e | Inr ls \<Rightarrow> Inr (ucast n # ls)))"

definition price_band_flag :: string where
  "price_band_flag = ''--price-band=''"

definition max_orders_flag :: string where
  "max_orders_flag = ''--max-orders=''"

text \<open>The options from the fifth argument on.\<close>

fun read_options :: "string list \<Rightarrow> itch_config \<Rightarrow> cli_error + itch_config" where
  "read_options [] cfg = Inr cfg"
| "read_options (arg # args) cfg = (if take 13 arg = price_band_flag
     then (case stoul (drop 13 arg) of Inl e \<Rightarrow> Inl (Bad_number e)
       | Inr n \<Rightarrow> read_options args (cfg\<lparr>price_band := unat n\<rparr>))
     else if take 13 arg = max_orders_flag
     then (case stoul (drop 13 arg) of Inl e \<Rightarrow> Inl (Bad_number e)
       | Inr n \<Rightarrow> read_options args (cfg\<lparr>max_orders := unat n\<rparr>))
     else read_options args cfg)"

text \<open>The feed, the log and the configuration.\<close>

definition read_args :: "string list \<Rightarrow> cli_error + string \<times> string \<times> itch_config" where
  "read_args argv = (if length argv < 2 then Inl Usage
     else if length argv > 3 then
       (case (if argv ! 3 \<noteq> ''--all-tickers'' then read_locates (getlines (argv ! 3)) else Inr []) of
           Inl e \<Rightarrow> Inl e
         | Inr ls \<Rightarrow> (case read_options (drop 4 argv)
               \<lparr>allowed_locates = ls, price_band = 2000000, max_orders = 65536\<rparr> of
             Inl e \<Rightarrow> Inl e
           | Inr cfg \<Rightarrow> Inr (argv ! 1, arg_or argv 2 ''build/trade_report.txt'', cfg)))
     else Inl No_locates)"

definition itch_main ::
  "clocks \<Rightarrow> (string \<Rightarrow> os_answers) \<Rightarrow> string list \<Rightarrow>
    (cli_error + string \<times> int list \<times> (itch_error + itch_state)) option" where
  "itch_main clk file argv = (case read_args argv of
       Inl e \<Rightarrow> Some (Inl e)
     | Inr (itch_file, log_file, cfg) \<Rightarrow>
         map_option (\<lambda>r. Inr (log_file, r)) (parse_itch_file cfg clk (file itch_file)))"

section \<open>Reading back printed numbers\<close>

lemma number_snoc: "number (ds @ [c]) = 10 * number ds + (of_char c - 48)"
  by (simp add: number_def)

lemma of_char_digit: "d < 10 \<Longrightarrow> of_char (char_of (48 + d :: nat)) = (48 + d :: nat)"
  by (simp add: of_char_of)

lemma dec_digits: "list_all is_digit (dec n) \<and> dec n \<noteq> [] \<and> number (dec n) = n"
proof (induction n rule: dec.induct)
  case (1 n)
  show ?case
  proof (cases "n < 10")
    case True
    then have "dec n = [char_of (48 + n)]" by (simp add: dec.simps)
    then show ?thesis using True of_char_digit [OF True] by (simp add: is_digit_def number_def)
  next
    case False
    then have d: "dec n = dec (n div 10) @ [char_of (48 + n mod 10)]" by (subst dec.simps) simp
    have "n mod 10 < 10" by simp
    from of_char_digit [OF this] show ?thesis
      using "1.IH" [OF False] by (simp add: d number_snoc is_digit_def)
  qed
qed

lemma not_digit:
  "is_digit c \<Longrightarrow> \<not> is_space c \<and> c \<noteq> CHR ''-'' \<and> c \<noteq> CHR ''+'' \<and> c \<noteq> CHR '',''"
  by (auto simp: is_digit_def is_space_def)

lemma stoul_dec:
  assumes "n < 18446744073709551616"
  shows "stoul (dec n) = Inr (of_nat n)"
proof -
  have d: "\<forall>c \<in> set (dec n). is_digit c" "dec n \<noteq> []" "number (dec n) = n"
    using dec_digits [of n] by (auto simp: list_all_iff)
  then obtain c cs where c: "dec n = c # cs" "is_digit c" by (cases "dec n") auto
  have "dropWhile is_space (dec n) = dec n" using c not_digit by simp
  moreover have "hd (dec n) \<noteq> CHR ''-''" "hd (dec n) \<noteq> CHR ''+''" using c not_digit by auto
  moreover have tw: "takeWhile is_digit (dec n) = dec n" using d(1) by simp
  ultimately show ?thesis using d(2,3) assms by (simp add: stoul_def Let_def tw)
qed

fun comma_list :: "nat list \<Rightarrow> string" where
  "comma_list [] = []"
| "comma_list [n] = dec n"
| "comma_list (n # ns) = dec n @ CHR '','' # comma_list ns"

lemma getlines_comma: "getlines (comma_list ns) = map dec ns"
proof (induction ns rule: comma_list.induct)
  case 1
  then show ?case by (simp add: getlines.simps)
next
  case (2 n)
  have d: "\<forall>c \<in> set (dec n). c \<noteq> CHR '',''" "dec n \<noteq> []"
    using dec_digits [of n] not_digit by (auto simp: list_all_iff)
  then have w: "takeWhile (\<lambda>c. c \<noteq> CHR '','') (dec n) = dec n" "dropWhile (\<lambda>c. c \<noteq> CHR '','') (dec n) = []" by simp_all
  show ?case using d(2) by (simp add: getlines.simps [of "dec n"] w) (simp add: getlines.simps)
next
  case (3 n n' ns)
  let ?r = "comma_list (n' # ns)"
  have d: "\<forall>c \<in> set (dec n). c \<noteq> CHR '',''"
    using dec_digits [of n] not_digit by (auto simp: list_all_iff)
  then have "takeWhile (\<lambda>c. c \<noteq> CHR '','') (dec n @ CHR '','' # ?r) = dec n"
    "dropWhile (\<lambda>c. c \<noteq> CHR '','') (dec n @ CHR '','' # ?r) = CHR '','' # ?r"
    by (simp_all add: takeWhile_append2 dropWhile_append2)
  then show ?case using 3 by (simp add: getlines.simps [of "dec n @ CHR '','' # ?r"])
qed

lemma read_locates_dec:
  "read_locates (map (\<lambda>l. dec (unat l)) ls) = Inr ls"
proof (induction ls)
  case (Cons l ls)
  have "unat l < 18446744073709551616" using unsigned_less [of l, where 'a = nat] by simp
  from stoul_dec [OF this] have "stoul (dec (unat l)) = Inr (ucast l)" by simp
  moreover have "dec (unat l) \<noteq> []" using dec_digits by blast
  moreover have "ucast (ucast l :: u64) = l" by (rule bit_word_eqI) (simp add: bit_simps)
  ultimately show ?case using Cons by simp
qed simp

section \<open>The documented command line\<close>

text \<open>
  The command line that \<open>itch_replay\<close> documents, with locate ids separated by commas and both
  sizes given, is read as what was written.
\<close>

lemma arguments_are_read_back:
  assumes "ls \<noteq> []" and "n < 18446744073709551616" and "m < 18446744073709551616"
  shows "read_args [prog, feed, log, comma_list (map unat ls), price_band_flag @ dec n, max_orders_flag @ dec m] =
    Inr (feed, log, \<lparr>allowed_locates = ls, price_band = n, max_orders = m\<rparr>)"
proof -
  have ne: "comma_list (map unat ls) \<noteq> ''--all-tickers''"
  proof
    assume "comma_list (map unat ls) = ''--all-tickers''"
    then have "read_locates (getlines ''--all-tickers'') = Inr ls"
      using getlines_comma [of "map unat ls"] read_locates_dec [of ls] by (simp add: comp_def)
    moreover have "read_locates (getlines ''--all-tickers'') = Inl (Bad_number Invalid_argument)" by code_simp
    ultimately show False by simp
  qed
  have u: "unat (of_nat n :: u64) = n" "unat (of_nat m :: u64) = m" using assms by (simp_all add: unat_of_nat)
  have f: "length price_band_flag = 13" "length max_orders_flag = 13" "max_orders_flag \<noteq> price_band_flag"
    by (simp_all add: price_band_flag_def max_orders_flag_def)
  have l: "read_locates (getlines (comma_list (map unat ls))) = Inr ls"
    using getlines_comma [of "map unat ls"] read_locates_dec [of ls] by (simp add: comp_def)
  show ?thesis
    by (simp add: read_args_def ne l f u stoul_dec [OF assms(2)] stoul_dec [OF assms(3)] arg_or_def)
qed

lemma arguments_read_back_example:
  "read_args [''itch_replay'', ''feed.bin'', ''log.txt'', ''5,12'', ''--price-band=200000'', ''--max-orders=1000''] =
    Inr (''feed.bin'', ''log.txt'', \<lparr>allowed_locates = [5, 12], price_band = 200000, max_orders = 1000\<rparr>)"
proof -
  have "comma_list (map unat [5, 12 :: u16]) = ''5,12''" "price_band_flag @ dec 200000 = ''--price-band=200000''"
    "max_orders_flag @ dec 1000 = ''--max-orders=1000''"
    by (simp_all add: dec.simps char_of_def bit_0 price_band_flag_def max_orders_flag_def)
  then show ?thesis
    using arguments_are_read_back [of "[5, 12]" 200000 1000 "''itch_replay''" "''feed.bin''" "''log.txt''"] by simp
qed

text \<open>
  A locate id above 65535 is cut to 16 bits without a message, a negative one is accepted, and a
  list of empty entries tracks every ticker.
\<close>

lemma locates_wrap:
  "read_locates (getlines ''65541,-1'') = Inr [5, 65535] \<and> read_locates (getlines '','') = Inr []"
proof -
  have "ucast (- 1 :: u64) = (65535 :: u16)" by code_simp
  then show ?thesis by (simp add: getlines.simps stoul_def number_def is_digit_def is_space_def)
qed

end
