(* ===== verification/Book_Routing.thy ===== *)
theory Book_Routing
  imports Book_Session "HOL-Library.Sublist"
begin

text \<open>
  Several books behind a routing table, as the ITCH replay keeps them: \<open>book_service\<close> is what a
  client relies on when it calls a book, proved for \<open>OrderBook\<close> at the end.
\<close>

section \<open>The contract\<close>

text \<open>
  The books are only used through their calls: \<open>add\<close> with an id that is new and allowed, and
  \<open>del\<close>, \<open>exe\<close>, \<open>red\<close> with any id.  \<open>routed\<close> is the invariant of the routing table: it is exact
  on the resting orders, and it only knows ids that were added (\<open>U\<close>).
\<close>

definition routed :: "('b \<Rightarrow> bool) \<Rightarrow> ('b \<Rightarrow> 'k set) \<Rightarrow> ('l \<Rightarrow> 'b option) \<Rightarrow> ('k \<Rightarrow> 'l option) \<Rightarrow> 'k set \<Rightarrow> bool" where
  "routed good opens books owner U \<longleftrightarrow>
     (\<forall>l b. books l = Some b \<longrightarrow> good b \<and> (\<forall>k \<in> opens b. owner k = Some l)) \<and>
     (\<forall>k l. owner k = Some l \<longrightarrow> books l \<noteq> None \<and> k \<in> U)"

lemma routedD:
  assumes "routed good opens books owner U"
  shows "books l = Some b \<Longrightarrow> good b" "books l = Some b \<Longrightarrow> k \<in> opens b \<Longrightarrow> owner k = Some l"
    "owner k = Some l \<Longrightarrow> \<exists>b. books l = Some b" "k \<notin> U \<Longrightarrow> owner k = None"
proof -
  note d = assms [unfolded routed_def]
  show "books l = Some b \<Longrightarrow> good b" and "books l = Some b \<Longrightarrow> k \<in> opens b \<Longrightarrow> owner k = Some l"
    and "owner k = Some l \<Longrightarrow> \<exists>b. books l = Some b"
    using d by auto
  show "k \<notin> U \<Longrightarrow> owner k = None" using d by (cases "owner k") auto
qed

locale book_service =
  fixes good :: "'b \<Rightarrow> bool" and opens :: "'b \<Rightarrow> 'k set" and allowed :: "'k set"
    and add :: "'b \<Rightarrow> 'k \<Rightarrow> 'x \<Rightarrow> ('b \<times> bool) option" and del :: "'b \<Rightarrow> 'k \<Rightarrow> 'b option"
    and exe :: "'b \<Rightarrow> 'k \<Rightarrow> 'q \<Rightarrow> ('b \<times> bool) option" and red :: "'b \<Rightarrow> 'k \<Rightarrow> 'q \<Rightarrow> ('b \<times> bool) option"
    and log :: "'b \<Rightarrow> 't list"
  assumes add_law: "good b \<Longrightarrow> k \<in> allowed \<Longrightarrow> k \<notin> opens b \<Longrightarrow>
      \<exists>b' rests. add b k x = Some (b', rests) \<and> good b' \<and> prefix (log b) (log b') \<and>
        opens b' \<subseteq> (if rests then insert k (opens b) else opens b)"
    and del_law: "good b \<Longrightarrow> \<exists>b'. del b k = Some b' \<and> good b' \<and> prefix (log b) (log b') \<and> opens b' \<subseteq> opens b - {k}"
    and exe_law: "good b \<Longrightarrow> \<exists>b' gone. exe b k q = Some (b', gone) \<and> good b' \<and> prefix (log b) (log b') \<and>
      opens b' \<subseteq> (if gone then opens b - {k} else opens b)"
    and red_law: "good b \<Longrightarrow> \<exists>b' gone. red b k q = Some (b', gone) \<and> good b' \<and> prefix (log b) (log b') \<and>
      opens b' \<subseteq> (if gone then opens b - {k} else opens b)"
begin

lemma route_add:
  assumes r: "routed good opens books owner U" and k: "k \<in> allowed" "k \<notin> U"
    and b: "books l = Some b \<or> books l = None \<and> good b \<and> opens b = {}"
  shows "\<exists>b' rests. add b k x = Some (b', rests) \<and> prefix (log b) (log b') \<and>
    routed good opens (books(l \<mapsto> b')) (if rests then owner(k \<mapsto> l) else owner) (insert k U)"
proof -
  have g: "good b" "\<forall>k \<in> opens b. owner k = Some l" using r b by (auto simp: routed_def)
  then have "k \<notin> opens b" using r k(2) by (auto simp: routed_def)
  from add_law [OF g(1) k(1) this, of x] obtain b' rests where
    a: "add b k x = Some (b', rests)" "good b'" "opens b' \<subseteq> (if rests then insert k (opens b) else opens b)"
      "prefix (log b) (log b')"
    by blast
  have "owner k = None" using routedD(4) [OF r k(2)] .
  then have "routed good opens (books(l \<mapsto> b')) (if rests then owner(k \<mapsto> l) else owner) (insert k U)"
    using r a g k(2) unfolding routed_def by (auto split: if_splits)
  with a(1,4) show ?thesis by blast
qed

lemma route_shrink:
  assumes r: "routed good opens books owner U" and l: "owner k = Some l" "books l = Some b"
    and b': "good b'" "opens b' \<subseteq> (if gone then opens b - {k} else opens b)"
  shows "routed good opens (books(l \<mapsto> b')) (if gone then owner(k := None) else owner) U"
  using assms unfolding routed_def by (auto split: if_splits)

lemma route_change:
  assumes r: "routed good opens books owner U" and l: "owner k = Some l"
  shows "\<exists>b. books l = Some b \<and>
    (\<exists>b'. del b k = Some b' \<and> prefix (log b) (log b') \<and> routed good opens (books(l \<mapsto> b')) (owner(k := None)) U) \<and>
    (\<exists>b' gone. exe b k q = Some (b', gone) \<and> prefix (log b) (log b') \<and>
       routed good opens (books(l \<mapsto> b')) (if gone then owner(k := None) else owner) U) \<and>
    (\<exists>b' gone. red b k q = Some (b', gone) \<and> prefix (log b) (log b') \<and>
       routed good opens (books(l \<mapsto> b')) (if gone then owner(k := None) else owner) U)"
proof -
  obtain b where b: "books l = Some b" "good b" using routedD(1,3) [OF r] l by blast
  note sh = route_shrink [OF r l b(1)]
  obtain b1 where "del b k = Some b1" "good b1" "prefix (log b) (log b1)" "opens b1 \<subseteq> opens b - {k}" using del_law [OF b(2)] by blast
  moreover obtain b2 g2 where "exe b k q = Some (b2, g2)" "good b2" "prefix (log b) (log b2)"
    "opens b2 \<subseteq> (if g2 then opens b - {k} else opens b)" using exe_law [OF b(2)] by blast
  moreover obtain b3 g3 where "red b k q = Some (b3, g3)" "good b3" "prefix (log b) (log b3)"
    "opens b3 \<subseteq> (if g3 then opens b - {k} else opens b)" using red_law [OF b(2)] by blast
  ultimately show ?thesis
    using b(1) sh [of b1 True] sh [of b2 g2] sh [of b3 g3] by simp
qed

end

section \<open>OrderBook provides it\<close>

definition open_ids :: "order_book \<Rightarrow> order_id set" where
  "open_ids b = {k. resting b k}"

lemma open_ids_drop: "edited b (drop_id k (depth b)) b' \<Longrightarrow> open_ids b' \<subseteq> open_ids b - {k}"
  by (auto simp: open_ids_def resting_def editedD(2) drop_id_def)

lemma open_ids_less: "edited b (less_qty k q (depth b)) b' \<Longrightarrow> open_ids b' \<subseteq> open_ids b"
proof
  assume e: "edited b (less_qty k q (depth b)) b'"
  fix x assume "x \<in> open_ids b'"
  then obtain s i where "x \<in> fst ` set (less_qty k q (depth b) s i)"
    by (auto simp: open_ids_def resting_def editedD(2) [OF e])
  moreover have "map fst (less_qty k q (depth b) s i) = map fst (depth b s i)"
    by (simp add: less_qty_def)
  then have "fst ` set (less_qty k q (depth b) s i) = fst ` set (depth b s i)"
    by (metis set_map)
  ultimately show "x \<in> open_ids b" by (auto simp: open_ids_def resting_def)
qed

lemma open_ids_windowed:
  assumes h: "healthy n m K b" and w: "windowed b p b2"
  shows "open_ids b2 \<subseteq> open_ids b"
proof
  fix k assume k: "k \<in> open_ids b2"
  note h' = healthyD [OF h] and W = windowed_facts [OF healthyD(1) [OF h] w]
  have "index_ok b2" using W(4) h'(3,5) by (auto simp: tidy_step_def)
  then show "k \<in> open_ids b"
    using k W(10) [of k] h'(3) resting_content [of b k] resting_content [of b2 k] by (auto simp: open_ids_def)
qed

lemma open_ids_sweep:
  assumes "(k, v) \<in> set (fst (snd (sweep s is q (depth b))) s' i)"
  shows "k \<in> open_ids b"
  using sweep_ids [OF assms] unfolding open_ids_def resting_def by force

lemma open_ids_insert:
  assumes h: "healthy n m K b" and k: "k \<in> K" "k \<notin> open_ids b"
    and run: "insert_limit_order clk b k s p q = Some (b', rests)"
  shows "open_ids b' \<subseteq> (if rests then insert k (open_ids b) else open_ids b)"
proof -
  note h' = healthyD [OF h]
  have nr: "\<not> resting b k" using k(2) by (simp add: open_ids_def)
  obtain b2 where w: "windowed b p b2"
    and c: "in_band b2 (to_idx b2 p) \<Longrightarrow> placed clk b2 k s (unat p - unat (base b2)) q b' rests"
    "\<not> in_band b2 (to_idx b2 p) \<Longrightarrow> b' = b2"
    using insert_limit_order_correct [OF h'(1) healthy_room(1) [OF h k(1) nr], of clk k s p q] run
    by (metis option.inject prod.inject)
  note old = open_ids_windowed [OF h w]
  show ?thesis
  proof (cases "in_band b2 (to_idx b2 p)")
    case False
    then show ?thesis using old c(2) by auto
  next
    case True
    define i where "i = unat p - unat (base b2)"
    let ?W = "sweep (opp s) (ladder b2 s i) q (depth b2)"
    have d: "depth b' = (if rests then qput (fst (snd ?W)) s i (fst (snd ?W) s i @ [(k, snd (snd ?W))])
        else fst (snd ?W))"
      using c(1) [OF True] by (auto simp: placed_def i_def split: prod.splits)
    show ?thesis
    proof
      fix x assume "x \<in> open_ids b'"
      then obtain s' j v where x: "(x, v) \<in> set (depth b' s' j)" by (auto simp: open_ids_def resting_def)
      then have "(x, v) \<in> set (fst (snd ?W) s' j) \<or> rests \<and> x = k"
        using d by (auto simp: qput_def split: if_splits)
      then show "x \<in> (if rests then insert k (open_ids b) else open_ids b)"
        using open_ids_sweep [of x v "opp s" "ladder b2 s i" q b2 s' j] old by auto
    qed
  qed
qed

lemma insert_fills:
  assumes h: "healthy n m K b" and k: "k \<in> K" "k \<notin> open_ids b"
    and run: "insert_limit_order clk b k s p q = Some (b', rests)"
  shows "prefix (fills b) (fills b')"
proof -
  note h' = healthyD [OF h]
  have nr: "\<not> resting b k" using k(2) by (simp add: open_ids_def)
  obtain b2 where w: "windowed b p b2"
    and c: "in_band b2 (to_idx b2 p) \<Longrightarrow> placed clk b2 k s (unat p - unat (base b2)) q b' rests"
    "\<not> in_band b2 (to_idx b2 p) \<Longrightarrow> b' = b2"
    using insert_limit_order_correct [OF h'(1) healthy_room(1) [OF h k(1) nr], of clk k s p q] run
    by (metis option.inject prod.inject)
  have f: "fills b2 = fills b" using windowed_facts(8) [OF h'(1) w] .
  show ?thesis
  proof (cases "in_band b2 (to_idx b2 p)")
    case False
    then show ?thesis using c(2) f by simp
  next
    case True
    then show ?thesis using c(1) f by (auto simp: placed_def split: prod.splits)
  qed
qed

lemma open_ids_content: "healthy n m K b \<Longrightarrow> k \<in> open_ids b \<longleftrightarrow> content (ids b) k \<noteq> None"
  using resting_content [OF healthyD(3)] by (simp add: open_ids_def)

interpretation orders: book_service "healthy n m K" open_ids K
    "\<lambda>b k (s, p, q). insert_limit_order clk b k s p q" cancel_order "execute_order clk" reduce_order_qty fills
    for n m K clk
proof
  fix b :: order_book and k :: order_id and x :: "side \<times> price \<times> quantity" and q :: quantity
  assume h: "healthy n m K b"
  note h' = healthyD [OF h]
  show "\<exists>b' rests. (case x of (s, p, q) \<Rightarrow> insert_limit_order clk b k s p q) = Some (b', rests) \<and>
      healthy n m K b' \<and> prefix (fills b) (fills b') \<and>
      open_ids b' \<subseteq> (if rests then insert k (open_ids b) else open_ids b)"
    if k: "k \<in> K" "k \<notin> open_ids b"
  proof -
    obtain s p q where x: "x = (s, p, q)" by (metis surj_pair)
    have "op_ok K b (Insert k s p q)" using k by (simp add: open_ids_def)
    then obtain b' where b': "book_do clk b (Insert k s p q) = Some b'" "healthy n m K b'"
      using healthy_do [OF h] by metis
    then obtain rests where "insert_limit_order clk b k s p q = Some (b', rests)" by auto
    then show ?thesis using b'(2) open_ids_insert [OF h k] insert_fills [OF h k] x by auto
  qed
  show "\<exists>b'. cancel_order b k = Some b' \<and> healthy n m K b' \<and> prefix (fills b) (fills b') \<and> open_ids b' \<subseteq> open_ids b - {k}"
  proof (cases "content (ids b) k")
    case None
    then show ?thesis using h cancel_unknown [OF h'(3)] open_ids_content [OF h] by simp
  next
    case (Some y)
    then obtain b' where "cancel_order b k = Some b'" "edited b (drop_id k (depth b)) b'" "fills b' = fills b"
      using cancel_known [OF h'(2,3,4)] by metis
    then show ?thesis using healthy_drop [OF h] open_ids_drop by fastforce
  qed
  show "\<exists>b' gone. execute_order clk b k q = Some (b', gone) \<and> healthy n m K b' \<and> prefix (fills b) (fills b') \<and>
      open_ids b' \<subseteq> (if gone then open_ids b - {k} else open_ids b)"
  proof (cases "content (ids b) k")
    case None
    then show ?thesis using h execute_unknown [OF h'(3)] by auto
  next
    case (Some y)
    then obtain b' where "execute_order clk b k q = Some (b', open_qty b k \<le> q)"
      "edited b (if open_qty b k \<le> q then drop_id k (depth b) else less_qty k q (depth b)) b'" "fills b' = fills b @ [\<lparr>maker_id = k, taker_id = 0, tprice = quoted b k,
       tqty = min q (open_qty b k), timestamp = clk (length (fills b))\<rparr>]"
      using execute_known [OF h'(2,3,4)] by metis
    then show ?thesis
      using healthy_drop [OF h] healthy_less [OF h] open_ids_drop open_ids_less by (auto split: if_splits)
  qed
  show "\<exists>b' gone. reduce_order_qty b k q = Some (b', gone) \<and> healthy n m K b' \<and> prefix (fills b) (fills b') \<and>
      open_ids b' \<subseteq> (if gone then open_ids b - {k} else open_ids b)"
  proof (cases "content (ids b) k")
    case None
    then show ?thesis using h reduce_unknown [OF h'(3)] by auto
  next
    case (Some y)
    then obtain b' where "reduce_order_qty b k q = Some (b', open_qty b k \<le> q)"
      "edited b (if open_qty b k \<le> q then drop_id k (depth b) else less_qty k q (depth b)) b'" "fills b' = fills b"
      using reduce_known [OF h'(2,3,4)] by metis
    then show ?thesis
      using healthy_drop [OF h] healthy_less [OF h] open_ids_drop open_ids_less by (auto split: if_splits)
  qed
qed

end
