(* ===== verification/Itch_Replay.thy ===== *)
theory Itch_Replay
  imports Itch_Parser Book_Routing "HOL-Library.Multiset"
begin

text \<open>
  What the replay of \<open>Itch_Parser\<close> guarantees.  \<open>frames\<close> is the list of messages of a file, and
  the parser is the fold of its handlers over it, whatever the bytes are.  With the contract of
  \<open>Book_Routing\<close> the routing table is exact: every resting order is routed to the book it rests
  on.
\<close>

section \<open>The messages of a file\<close>

function frames :: "u8 list \<Rightarrow> nat \<Rightarrow> itch_msg list" where
  "frames m c = (if c + header_size \<le> length m then
     (let h = the (header_at m c); n = unat (bswap16 (packet_length h)) in
      if n < 1 \<or> c + 2 + n > length m then []
      else the (message_at m (c + header_size) (message_type h)) # frames m (c + (2 + n)))
   else [])"
  by pat_completeness auto

termination
  by (relation "measure (\<lambda>(m, c). length m - c)") (auto simp: header_size_def)

declare frames.simps [simp del]

fun run_msgs :: "itch_config \<Rightarrow> clocks \<Rightarrow> itch_msg list \<Rightarrow> itch_state \<Rightarrow> itch_state option" where
  "run_msgs cfg clk [] st = Some st"
| "run_msgs cfg clk (msg # msgs) st = do {
     st \<leftarrow> handle cfg clk msg st;
     run_msgs cfg clk msgs (st\<lparr>message_count := message_count st + 1\<rparr>)
   }"

lemma message_in: "p \<le> length m \<Longrightarrow> message_at m p t \<noteq> None"
  using add_struct.fits_law [of p m] attributed_struct.fits_law [of p m] executed_struct.fits_law [of p m]
    executed_price_struct.fits_law [of p m] cancel_struct.fits_law [of p m] delete_struct.fits_law [of p m]
    replace_struct.fits_law [of p m]
  by (auto simp: message_at_def Let_def)

lemma parse_loop_frames: "parse_loop cfg clk m c st = run_msgs cfg clk (frames m c) st"
proof (induction m c arbitrary: st rule: frames.induct)
  case (1 m c)
  show ?case
  proof (cases "c + header_size \<le> length m")
    case False
    then show ?thesis by (simp add: parse_loop.simps [of _ _ _ c] frames.simps [of _ c])
  next
    case True
    then obtain h where h: "header_at m c = Some h" using header_struct.fits_law by fastforce
    let ?n = "unat (bswap16 (packet_length h))"
    obtain msg where msg: "message_at m (c + header_size) (message_type h) = Some msg"
      using message_in [OF True] by blast
    have c: "c < length m" using True by (simp add: header_size_def)
    show ?thesis
    proof (cases "?n < 1 \<or> c + 2 + ?n > length m")
      case True
      then show ?thesis using h c by (auto simp: parse_loop.simps [of _ _ _ c] frames.simps [of _ c] not_less)
    next
      case False
      have "parse_loop cfg clk m (c + (2 + ?n)) st = run_msgs cfg clk (frames m (c + (2 + ?n))) st" for st
        by (rule "1.IH" [of h ?n]) (use True False h in auto)
      then show ?thesis using True False h msg c
        by (simp add: parse_loop.simps [of _ _ _ c] frames.simps [of _ c])
    qed
  qed
qed

section \<open>Files written from messages\<close>

text \<open>A well-formed feed: known messages, and messages of other types with a body of any kind.\<close>

datatype feed_item = Known itch_msg | Other u8 "u8 list"

fun msg_type :: "itch_msg \<Rightarrow> u8" where
  "msg_type (M_add _) = byte_of CHR ''A''"
| "msg_type (M_attributed _) = byte_of CHR ''F''"
| "msg_type (M_executed _) = byte_of CHR ''E''"
| "msg_type (M_executed_price _) = byte_of CHR ''C''"
| "msg_type (M_cancel _) = byte_of CHR ''X''"
| "msg_type (M_delete _) = byte_of CHR ''D''"
| "msg_type (M_replace _) = byte_of CHR ''U''"
| "msg_type M_skip = 0"

fun msg_body :: "itch_msg \<Rightarrow> u8 list" where
  "msg_body (M_add a) = add_order_bytes a"
| "msg_body (M_attributed a) = add_attributed_bytes a"
| "msg_body (M_executed e) = executed_bytes e"
| "msg_body (M_executed_price e) = executed_price_bytes e"
| "msg_body (M_cancel c) = cancel_bytes c"
| "msg_body (M_delete d) = delete_bytes d"
| "msg_body (M_replace r) = replace_bytes r"
| "msg_body M_skip = []"

fun msg_ok :: "itch_msg \<Rightarrow> bool" where
  "msg_ok (M_add a) = add_order_ok a"
| "msg_ok (M_attributed a) = add_attributed_ok a"
| "msg_ok (M_executed e) = executed_ok e"
| "msg_ok (M_executed_price e) = executed_price_ok e"
| "msg_ok (M_cancel c) = cancel_ok c"
| "msg_ok (M_delete d) = delete_ok d"
| "msg_ok (M_replace r) = replace_ok r"
| "msg_ok M_skip = False"

text \<open>The length prefix counts the type and the body, in network order.\<close>

definition frame :: "u8 \<Rightarrow> u8 list \<Rightarrow> u8 list" where
  "frame t body = header_bytes \<lparr>packet_length = bswap16 (of_nat (Suc (length body))), message_type = t\<rparr> @ body"

fun item_bytes :: "feed_item \<Rightarrow> u8 list" where
  "item_bytes (Known msg) = frame (msg_type msg) (msg_body msg)"
| "item_bytes (Other t body) = frame t body"

definition known_types :: "u8 list" where
  "known_types = map byte_of ''AFECXDU''"

fun item_ok :: "feed_item \<Rightarrow> bool" where
  "item_ok (Known msg) \<longleftrightarrow> msg_ok msg"
| "item_ok (Other t body) \<longleftrightarrow> t \<notin> set known_types \<and> length body < 65535"

fun item_msg :: "feed_item \<Rightarrow> itch_msg" where
  "item_msg (Known msg) = msg"
| "item_msg (Other t body) = M_skip"

lemma byte_of_neq [simp]:
  "byte_of CHR ''A'' = 65" "byte_of CHR ''F'' = 70" "byte_of CHR ''E'' = 69" "byte_of CHR ''C'' = 67"
  "byte_of CHR ''X'' = 88" "byte_of CHR ''D'' = 68" "byte_of CHR ''U'' = 85"
  by (simp_all add: byte_of_def)

lemmas struct_lengths =
  add_struct.length_law attributed_struct.length_law executed_struct.length_law executed_price_struct.length_law
  cancel_struct.length_law delete_struct.length_law replace_struct.length_law

lemmas struct_sizes =
  add_order_size_def add_attributed_size_def executed_size_def executed_price_size_def cancel_size_def
  delete_size_def replace_size_def

lemma msg_body_length: "msg_ok msg \<Longrightarrow> length (msg_body msg) < 65535"
  by (cases msg) (simp_all add: struct_lengths struct_sizes)

lemma stored_fits: "stored m p bs \<Longrightarrow> length bs = n \<Longrightarrow> \<not> length m - p < n"
  by (auto simp: stored_iff)

lemma message_known:
  assumes "msg_ok msg" and "stored m p (msg_body msg)"
  shows "message_at m p (msg_type msg) = Some msg"
  using assms stored_fits [OF assms(2)] struct_lengths
    add_struct.read_law attributed_struct.read_law executed_struct.read_law executed_price_struct.read_law
    cancel_struct.read_law delete_struct.read_law replace_struct.read_law
  by (cases msg) (simp_all add: message_at_def Let_def)

lemma message_other: "t \<notin> set known_types \<Longrightarrow> message_at m p t = Some M_skip"
  by (auto simp: message_at_def known_types_def)

lemma frames_header:
  assumes st: "stored m c (header_bytes \<lparr>packet_length = bswap16 (of_nat n), message_type = t\<rparr>)"
    and n: "1 \<le> n" "n < 65536" "c + 2 + n \<le> length m"
    and msg: "message_at m (c + 3) t = Some msg"
  shows "frames m c = msg # frames m (c + 2 + n)"
proof -
  let ?h = "\<lparr>packet_length = bswap16 (of_nat n), message_type = t\<rparr>"
  have hs: "header_size = 3" by (simp add: header_size_def)
  have h: "header_at m c = Some ?h" by (rule header_struct.read_law) (use st in simp_all)
  have u: "unat (of_nat n :: u16) = n" using n(2) by (simp add: unat_of_nat)
  show ?thesis using n(1,3) msg by (subst frames.simps) (simp add: hs h u add.assoc)
qed

lemma frames_frame:
  assumes st: "stored m c (frame t body)" and n: "length body < 65535"
    and msg: "message_at m (c + 3) t = Some msg"
  shows "frames m c = msg # frames m (c + length (frame t body))"
proof -
  have len: "length (frame t body) = 2 + Suc (length body)"
    by (simp add: frame_def header_struct.length_law header_size_def)
  then have "c + 2 + Suc (length body) \<le> length m" using st by (simp add: stored_iff)
  then have "frames m c = msg # frames m (c + 2 + Suc (length body))"
    using st n msg by (intro frames_header) (simp_all add: frame_def stored_append del: of_nat_Suc)
  then show ?thesis by (simp add: len)
qed

lemma frames_items:
  "list_all item_ok items \<Longrightarrow> m = pre @ concat (map item_bytes items) \<Longrightarrow>
    frames m (length pre) = map item_msg items"
proof (induction items arbitrary: pre)
  case Nil
  then show ?case by (simp add: frames.simps header_size_def)
next
  case (Cons x xs)
  have m: "m = pre @ item_bytes x @ concat (map item_bytes xs)" using Cons.prems(2) by simp
  obtain t body where x: "item_bytes x = frame t body" "length body < 65535"
    "stored m (length pre + 3) body \<Longrightarrow> message_at m (length pre + 3) t = Some (item_msg x)"
  proof (cases x)
    case (Known msg)
    then show ?thesis using that [of "msg_type msg" "msg_body msg"] Cons.prems(1) msg_body_length message_known
      by simp
  next
    case (Other t body)
    then show ?thesis using that [of t body] Cons.prems(1) message_other by simp
  qed
  have st: "stored m (length pre) (frame t body)" unfolding m x(1) by (rule stored_self)
  then have "stored m (length pre + 3) body"
    by (simp add: frame_def stored_append header_struct.length_law header_size_def)
  from frames_frame [OF st x(2) x(3) [OF this]]
  have "frames m (length pre) = item_msg x # frames m (length (pre @ item_bytes x))" by (simp add: x(1))
  also have "frames m (length (pre @ item_bytes x)) = map item_msg xs"
    by (rule Cons.IH) (use Cons.prems m in simp_all)
  finally show ?case by simp
qed

section \<open>The routing invariant\<close>

definition config_ok :: "itch_config \<Rightarrow> order_id set \<Rightarrow> bool" where
  "config_ok cfg K \<longleftrightarrow> 0 < price_band cfg \<and> price_band cfg \<le> 4294967295 \<and> 0 < max_orders cfg \<and>
     max_orders cfg \<le> 1073741824 \<and> collision_free (max_orders cfg) K"

definition has_book :: "itch_config \<Rightarrow> u16 \<Rightarrow> bool" where
  "has_book cfg l \<longleftrightarrow> unat l < kMaxStockLocate \<and> is_tracked cfg l"

text \<open>The trades handed to the logger are those of all books together.\<close>

definition book_fills :: "itch_state \<Rightarrow> u16 \<Rightarrow> trade list" where
  "book_fills st l = (case market_books st l of None \<Rightarrow> [] | Some b \<Rightarrow> fills b)"

definition balanced :: "itch_state \<Rightarrow> bool" where
  "balanced st \<longleftrightarrow> mset (traded st) = (\<Sum>l \<in> UNIV. mset (book_fills st l))"

lemma balanced_set_book:
  assumes bal: "balanced st" and b: "book_fills st l = fills b" and g: "prefix (fills b) (fills b')"
    and st': "market_books st' = (market_books st)(l \<mapsto> b')" "traded st' = traded st @ drop (length (fills b)) (fills b')"
  shows "balanced st'"
proof -
  let ?new = "drop (length (fills b)) (fills b')"
  have f: "fills b' = fills b @ ?new" using g by (auto simp: prefix_def)
  have l: "book_fills st' l = fills b @ ?new" "\<And>x. x \<noteq> l \<Longrightarrow> book_fills st' x = book_fills st x"
    using f by (simp_all add: book_fills_def st'(1))
  have "(\<Sum>x \<in> UNIV. mset (book_fills st' x)) =
      mset (book_fills st' l) + (\<Sum>x \<in> UNIV - {l}. mset (book_fills st' x))"
    by (rule sum.remove) simp_all
  also have "(\<Sum>x \<in> UNIV - {l}. mset (book_fills st' x)) = (\<Sum>x \<in> UNIV - {l}. mset (book_fills st x))"
    by (rule sum.cong) (use l(2) in auto)
  also have "mset (book_fills st' l) + \<dots> = mset ?new + (\<Sum>x \<in> UNIV. mset (book_fills st x))"
    by (subst sum.remove [of UNIV l]) (simp_all add: l(1) b)
  finally show ?thesis using bal by (simp add: balanced_def st'(2) add.commute)
qed

definition replay_ok :: "itch_config \<Rightarrow> order_id set \<Rightarrow> order_id set \<Rightarrow> itch_state \<Rightarrow> bool" where
  "replay_ok cfg K U st \<longleftrightarrow>
     routed (healthy (price_band cfg) (max_orders cfg) K) open_ids (market_books st) (ref_owner st) U \<and>
     (\<forall>l. market_books st l \<noteq> None \<longrightarrow> has_book cfg l) \<and> balanced st"

text \<open>The ids a message may bring onto a book.\<close>

definition add_ids :: "itch_config \<Rightarrow> itch_add_order \<Rightarrow> order_id list" where
  "add_ids cfg a = (if has_book cfg (bswap16 (stock_locate (add_prefix a))) then [bswap64 (add_order_id a)] else [])"

fun new_ids :: "itch_config \<Rightarrow> itch_msg \<Rightarrow> order_id list" where
  "new_ids cfg (M_add a) = add_ids cfg a"
| "new_ids cfg (M_attributed a) = add_ids cfg (attr_add a)"
| "new_ids cfg (M_replace r) = [bswap64 (new_order_id r)]"
| "new_ids cfg _ = []"

lemma replay_start: "replay_ok cfg K {} itch_start"
  by (simp add: replay_ok_def routed_def itch_start_def balanced_def book_fills_def)

lemma replay_okD:
  assumes "replay_ok cfg K U st"
  shows "routed (healthy (price_band cfg) (max_orders cfg) K) open_ids (market_books st) (ref_owner st) U"
    and "market_books st l = Some b \<Longrightarrow> has_book cfg l"
    and "has_book cfg l \<Longrightarrow> book_slot st l = Some (market_books st l)"
    and "balanced st"
  using assms by (auto simp: replay_ok_def has_book_def book_slot_def)

lemma replay_mono: "replay_ok cfg K U st \<Longrightarrow> U \<subseteq> V \<Longrightarrow> replay_ok cfg K V st"
  unfolding replay_ok_def routed_def by blast

lemma replay_okI:
  assumes "routed (healthy (price_band cfg) (max_orders cfg) K) open_ids ((market_books st)(l \<mapsto> b')) owner U"
    and "replay_ok cfg K V st" and "has_book cfg l"
    and "market_books st' = (market_books st)(l \<mapsto> b')" and "ref_owner st' = owner"
    and "traded st' = traded st @ drop (length (fills b)) (fills b')"
    and "book_fills st l = fills b" and "prefix (fills b) (fills b')"
  shows "replay_ok cfg K U st'"
  using assms balanced_set_book [OF replay_okD(4) [OF assms(2)] assms(7,8,4,6)] by (auto simp: replay_ok_def)

text \<open>Changes of counters and samples only.\<close>

lemma replay_cong:
  "market_books st' = market_books st \<Longrightarrow> ref_owner st' = ref_owner st \<Longrightarrow> traded st' = traded st \<Longrightarrow>
    replay_ok cfg K U st' = replay_ok cfg K U st"
  by (simp add: replay_ok_def balanced_def book_fills_def)

lemma set_book_simps [simp]:
  "market_books (set_book l b b' st) = (market_books st)(l \<mapsto> b')"
  "ref_owner (set_book l b b' st) = ref_owner st"
  "traded (set_book l b b' st) = traded st @ drop (length (fills b)) (fills b')"
  by (simp_all add: set_book_def)

lemma on_add_ok:
  assumes cfg: "config_ok cfg K" and r: "replay_ok cfg K U st" and k: "set (add_ids cfg a) \<subseteq> K - U"
  shows "\<exists>st'. on_add cfg clk a st = Some st' \<and> replay_ok cfg K (U \<union> set (add_ids cfg a)) st'"
proof -
  let ?l = "bswap16 (stock_locate (add_prefix a))" and ?k = "bswap64 (add_order_id a)"
  let ?x = "(if add_side a = byte_of CHR ''S'' then SELL else BUY, bswap32 (add_price a), bswap32 (add_shares a))"
  show ?thesis
  proof (cases "has_book cfg ?l")
    case False
    then show ?thesis using r by (auto simp: on_add_def add_ids_def has_book_def)
  next
    case True
    note R = replay_okD [OF r]
    obtain b where b: "(case market_books st ?l of None \<Rightarrow> book_new (price_band cfg) (max_orders cfg) | Some b \<Rightarrow> Some b) = Some b"
      "market_books st ?l = Some b \<or> market_books st ?l = None \<and>
        healthy (price_band cfg) (max_orders cfg) K b \<and> open_ids b = {}"
      and bf: "book_fills st ?l = fills b"
    proof (cases "market_books st ?l")
      case None
      obtain b where "book_new (price_band cfg) (max_orders cfg) = Some b"
        "healthy (price_band cfg) (max_orders cfg) K b" "\<forall>s i. depth b s i = []" "fills b = []"
        using cfg healthy_new unfolding config_ok_def by metis
      then show ?thesis using that None by (simp add: open_ids_def resting_def book_fills_def)
    qed (use that in \<open>simp add: book_fills_def\<close>)
    have k': "?k \<in> K" "?k \<notin> U" using k True by (simp_all add: add_ids_def)
    obtain b' rests where ins: "insert_limit_order (clk ?l) b ?k (fst ?x) (fst (snd ?x)) (snd (snd ?x)) = Some (b', rests)"
      and gr: "prefix (fills b) (fills b')"
      and rt: "routed (healthy (price_band cfg) (max_orders cfg) K) open_ids ((market_books st)(?l \<mapsto> b'))
        (if rests then (ref_owner st)(?k \<mapsto> ?l) else ref_owner st) (insert ?k U)"
      using orders.route_add [OF R(1) k' b(2), of "clk ?l" ?x] by auto
    have "\<exists>st'. on_add cfg clk a st = Some st' \<and> market_books st' = (market_books st)(?l \<mapsto> b') \<and>
        ref_owner st' = (if rests then (ref_owner st)(?k \<mapsto> ?l) else ref_owner st) \<and>
        traded st' = traded st @ drop (length (fills b)) (fills b')"
      using True b(1) ins R(3) [OF True] by (auto simp: on_add_def has_book_def book_slot_def Let_def)
    then show ?thesis using replay_okI [OF rt r True _ _ _ bf gr] True by (auto simp: add_ids_def)
  qed
qed

text \<open>The book an id is routed to, and what its calls do there.\<close>

lemma routed_call:
  assumes r: "replay_ok cfg K U st" and l: "ref_owner st k = Some l"
  obtains b b1 b2 g2 b3 g3 where "book_slot st l = Some (Some b)" "market_books st l = Some b" "has_book cfg l"
    "healthy (price_band cfg) (max_orders cfg) K b" "book_fills st l = fills b"
    "cancel_order b k = Some b1" "prefix (fills b) (fills b1)"
    "routed (healthy (price_band cfg) (max_orders cfg) K) open_ids ((market_books st)(l \<mapsto> b1)) ((ref_owner st)(k := None)) U"
    "execute_order clk b k q = Some (b2, g2)" "prefix (fills b) (fills b2)"
    "routed (healthy (price_band cfg) (max_orders cfg) K) open_ids ((market_books st)(l \<mapsto> b2))
       (if g2 then (ref_owner st)(k := None) else ref_owner st) U"
    "reduce_order_qty b k q = Some (b3, g3)" "prefix (fills b) (fills b3)"
    "routed (healthy (price_band cfg) (max_orders cfg) K) open_ids ((market_books st)(l \<mapsto> b3))
       (if g3 then (ref_owner st)(k := None) else ref_owner st) U"
proof -
  note R = replay_okD [OF r]
  obtain b where b: "market_books st l = Some b"
    "\<exists>b'. cancel_order b k = Some b' \<and> prefix (fills b) (fills b') \<and>
       routed (healthy (price_band cfg) (max_orders cfg) K) open_ids ((market_books st)(l \<mapsto> b')) ((ref_owner st)(k := None)) U"
    "\<exists>b' gone. execute_order clk b k q = Some (b', gone) \<and> prefix (fills b) (fills b') \<and>
       routed (healthy (price_band cfg) (max_orders cfg) K) open_ids ((market_books st)(l \<mapsto> b')) (if gone then (ref_owner st)(k := None) else ref_owner st) U"
    "\<exists>b' gone. reduce_order_qty b k q = Some (b', gone) \<and> prefix (fills b) (fills b') \<and>
       routed (healthy (price_band cfg) (max_orders cfg) K) open_ids ((market_books st)(l \<mapsto> b')) (if gone then (ref_owner st)(k := None) else ref_owner st) U"
    using orders.route_change [OF R(1) l, of clk q] by metis
  have hb: "has_book cfg l" "healthy (price_band cfg) (max_orders cfg) K b"
    using R(2) routedD(1) [OF R(1)] b(1) by auto
  then have sl: "book_slot st l = Some (Some b)" using R(3) b(1) by simp
  have bf: "book_fills st l = fills b" using b(1) by (simp add: book_fills_def)
  from b(2-4) show ?thesis
    by (elim exE conjE) (rule that [OF sl b(1) hb bf], assumption+)
qed

lemma on_executed_ok:
  assumes r: "replay_ok cfg K U st"
  shows "\<exists>st'. on_executed clk e st = Some st' \<and> replay_ok cfg K U st'"
proof (cases "ref_owner st (bswap64 (exec_order_id e))")
  case None
  then show ?thesis using r by (simp add: on_executed_def replay_ok_def balanced_def book_fills_def)
next
  case (Some l)
  obtain b b2 g2 where b: "book_slot st l = Some (Some b)" "has_book cfg l"
    "execute_order (clk l) b (bswap64 (exec_order_id e)) (bswap32 (exec_shares e)) = Some (b2, g2)"
    and gr: "book_fills st l = fills b" "prefix (fills b) (fills b2)"
    and rt: "routed (healthy (price_band cfg) (max_orders cfg) K) open_ids ((market_books st)(l \<mapsto> b2))
       (if g2 then (ref_owner st)(bswap64 (exec_order_id e) := None) else ref_owner st) U"
    by (rule routed_call [OF r Some, of "clk l" "bswap32 (exec_shares e)"])
  have "\<exists>st'. on_executed clk e st = Some st' \<and> market_books st' = (market_books st)(l \<mapsto> b2) \<and>
      ref_owner st' = (if g2 then (ref_owner st)(bswap64 (exec_order_id e) := None) else ref_owner st) \<and>
      traded st' = traded st @ drop (length (fills b)) (fills b2)"
    using Some b by (simp add: on_executed_def book_slot_def Let_def split: if_splits)
  then show ?thesis using replay_okI [OF rt r b(2) _ _ _ gr] by auto
qed

lemma on_cancel_ok:
  assumes r: "replay_ok cfg K U st"
  shows "\<exists>st'. on_cancel c st = Some st' \<and> replay_ok cfg K U st'"
proof (cases "ref_owner st (bswap64 (cancel_order_id c))")
  case None
  then show ?thesis using r by (simp add: on_cancel_def)
next
  case (Some l)
  obtain b b2 g2 where b: "book_slot st l = Some (Some b)" "has_book cfg l"
    "reduce_order_qty b (bswap64 (cancel_order_id c)) (bswap32 (canceled_shares c)) = Some (b2, g2)"
    and gr: "book_fills st l = fills b" "prefix (fills b) (fills b2)"
    and rt: "routed (healthy (price_band cfg) (max_orders cfg) K) open_ids ((market_books st)(l \<mapsto> b2))
       (if g2 then (ref_owner st)(bswap64 (cancel_order_id c) := None) else ref_owner st) U"
    by (rule routed_call [OF r Some, of "\<lambda>_. 0" "bswap32 (canceled_shares c)"])
  have "\<exists>st'. on_cancel c st = Some st' \<and> market_books st' = (market_books st)(l \<mapsto> b2) \<and>
      ref_owner st' = (if g2 then (ref_owner st)(bswap64 (cancel_order_id c) := None) else ref_owner st) \<and>
      traded st' = traded st @ drop (length (fills b)) (fills b2)"
    using Some b by (simp add: on_cancel_def)
  then show ?thesis using replay_okI [OF rt r b(2) _ _ _ gr] by auto
qed

lemma on_delete_ok:
  assumes r: "replay_ok cfg K U st"
  shows "\<exists>st'. on_delete d st = Some st' \<and> replay_ok cfg K U st'"
proof (cases "ref_owner st (bswap64 (delete_order_id d))")
  case None
  then show ?thesis using r by (simp add: on_delete_def)
next
  case (Some l)
  obtain b b1 where b: "book_slot st l = Some (Some b)" "has_book cfg l"
    "cancel_order b (bswap64 (delete_order_id d)) = Some b1"
    and gr: "book_fills st l = fills b" "prefix (fills b) (fills b1)"
    and rt: "routed (healthy (price_band cfg) (max_orders cfg) K) open_ids ((market_books st)(l \<mapsto> b1))
       ((ref_owner st)(bswap64 (delete_order_id d) := None)) U"
    by (rule routed_call [OF r Some, of "\<lambda>_. 0" 0])
  have "\<exists>st'. on_delete d st = Some st' \<and> market_books st' = (market_books st)(l \<mapsto> b1) \<and>
      ref_owner st' = (ref_owner st)(bswap64 (delete_order_id d) := None) \<and>
      traded st' = traded st @ drop (length (fills b)) (fills b1)"
    using Some b by (simp add: on_delete_def)
  then show ?thesis using replay_okI [OF rt r b(2) _ _ _ gr] by auto
qed

lemma on_replace_ok:
  assumes r: "replay_ok cfg K U st" and k: "bswap64 (new_order_id x) \<in> K - U"
  shows "\<exists>st'. on_replace clk x st = Some st' \<and> replay_ok cfg K (insert (bswap64 (new_order_id x)) U) st'"
proof (cases "ref_owner st (bswap64 (original_order_id x))")
  case None
  then show ?thesis using r replay_mono [OF r] by (simp add: on_replace_def subset_insertI)
next
  case (Some l)
  let ?old = "bswap64 (original_order_id x)" and ?k = "bswap64 (new_order_id x)"
  obtain b b1 where b: "book_slot st l = Some (Some b)" "has_book cfg l" "market_books st l = Some b"
    "healthy (price_band cfg) (max_orders cfg) K b" "cancel_order b ?old = Some b1"
    and bf: "book_fills st l = fills b" and g1: "prefix (fills b) (fills b1)"
    and rt: "routed (healthy (price_band cfg) (max_orders cfg) K) open_ids ((market_books st)(l \<mapsto> b1))
       ((ref_owner st)(?old := None)) U"
    by (rule routed_call [OF r Some, of "\<lambda>_. 0" 0])
  note h = healthyD [OF b(4)]
  show ?thesis
  proof (cases "content (ids b) ?old")
    case None
    then have "on_replace clk x st = Some st" using Some b find_absent [OF h(3)] by (simp add: on_replace_def)
    then show ?thesis using replay_mono [OF r] by (simp add: subset_insertI)
  next
    case (Some y)
    have y: "id_find (ids b) ?old = Some y" "y \<noteq> NULL_IDX" "order_at b y = Some (ord b y)"
      using find_present [OF h(2,3) Some] by (metis order_at_in)+
    obtain b2 rests where ins: "insert_limit_order (clk l) b1 ?k (oside (ord b y)) (bswap32 (replace_price x))
        (bswap32 (replace_shares x)) = Some (b2, rests)" and g2: "prefix (fills b1) (fills b2)"
      and rt2: "routed (healthy (price_band cfg) (max_orders cfg) K) open_ids ((market_books st)(l \<mapsto> b2))
        (if rests then ((ref_owner st)(?old := None))(?k \<mapsto> l) else (ref_owner st)(?old := None)) (insert ?k U)"
      using orders.route_add [OF rt, where k = ?k and b = b1 and l = l and clk = "clk l" and
          x = "(oside (ord b y), bswap32 (replace_price x), bswap32 (replace_shares x))"] k by auto
    have "\<exists>st'. on_replace clk x st = Some st' \<and> market_books st' = (market_books st)(l \<mapsto> b2) \<and>
        ref_owner st' = (if rests then ((ref_owner st)(?old := None))(?k \<mapsto> l) else (ref_owner st)(?old := None)) \<and>
        traded st' = traded st @ drop (length (fills b)) (fills b2)"
      using \<open>ref_owner st ?old = Some l\<close> b ins y by (simp add: on_replace_def)
    moreover have "prefix (fills b) (fills b2)" using g1 g2 by (rule prefix_order.trans)
    ultimately show ?thesis using replay_okI [OF rt2 r b(2) _ _ _ bf] by auto
  qed
qed

lemma handle_ok:
  assumes "config_ok cfg K" and "replay_ok cfg K U st" and "set (new_ids cfg msg) \<subseteq> K - U"
  shows "\<exists>st'. handle cfg clk msg st = Some st' \<and> replay_ok cfg K (U \<union> set (new_ids cfg msg)) st'"
proof (cases msg)
  case (M_add a)
  then show ?thesis using on_add_ok [OF assms(1,2)] assms(3) by simp
next
  case (M_attributed a)
  then show ?thesis using on_add_ok [OF assms(1,2)] assms(3) by simp
next
  case (M_replace x)
  then show ?thesis using on_replace_ok [OF assms(2)] assms(3) by simp
qed (simp_all add: assms(2) on_executed_ok [OF assms(2)] on_cancel_ok [OF assms(2)] on_delete_ok [OF assms(2)])

lemma run_msgs_ok:
  "config_ok cfg K \<Longrightarrow> replay_ok cfg K U st \<Longrightarrow> distinct (concat (map (new_ids cfg) msgs)) \<Longrightarrow>
    set (concat (map (new_ids cfg) msgs)) \<subseteq> K - U \<Longrightarrow>
    \<exists>st'. run_msgs cfg clk msgs st = Some st' \<and> replay_ok cfg K (U \<union> set (concat (map (new_ids cfg) msgs))) st'"
proof (induction msgs arbitrary: U st)
  case (Cons msg msgs)
  obtain st1 where st1: "handle cfg clk msg st = Some st1" "replay_ok cfg K (U \<union> set (new_ids cfg msg)) st1"
    using handle_ok [OF Cons.prems(1,2), of msg clk] Cons.prems(4) by auto
  let ?st = "st1\<lparr>message_count := message_count st1 + 1\<rparr>"
  have "replay_ok cfg K (U \<union> set (new_ids cfg msg)) ?st" using st1(2) by (simp add: replay_cong [of ?st st1])
  moreover have "set (concat (map (new_ids cfg) msgs)) \<subseteq> K - (U \<union> set (new_ids cfg msg))"
    using Cons.prems(3,4) by auto
  moreover have "distinct (concat (map (new_ids cfg) msgs))" using Cons.prems(3) by simp
  ultimately obtain st' where "run_msgs cfg clk msgs ?st = Some st'"
    "replay_ok cfg K (U \<union> set (new_ids cfg msg) \<union> set (concat (map (new_ids cfg) msgs))) st'"
    using Cons.IH [OF Cons.prems(1)] by blast
  then show ?case using st1(1) by (auto simp: Un_assoc)
qed simp

lemma run_msgs_count:
  "run_msgs cfg clk msgs st = Some st' \<Longrightarrow> message_count st' = message_count st + of_nat (length msgs)"
proof (induction msgs arbitrary: st)
  case (Cons msg msgs)
  obtain st1 where st1: "handle cfg clk msg st = Some st1"
    "run_msgs cfg clk msgs (st1\<lparr>message_count := message_count st1 + 1\<rparr>) = Some st'"
    using Cons.prems by (auto simp: bind_eq_Some_conv)
  have "message_count st1 = message_count st"
    using st1(1)
    by (cases msg) (auto simp: on_add_def on_executed_def on_cancel_def on_delete_def on_replace_def set_book_def
        Let_def bind_eq_Some_conv split: if_splits option.splits prod.splits)
  then show ?case using Cons.IH [OF st1(2)] by (simp add: algebra_simps)
qed simp

lemma frames_bound: "header_size * length (frames m c) \<le> length m - c"
proof (induction m c rule: frames.induct)
  case (1 m c)
  show ?case
  proof (cases "c + header_size \<le> length m")
    case True
    let ?n = "unat (bswap16 (packet_length (the (header_at m c))))"
    have "header_size * length (frames m (c + (2 + ?n))) \<le> length m - (c + (2 + ?n))"
      if "\<not> (?n < 1 \<or> c + 2 + ?n > length m)"
      by (rule "1.IH") (use True that in simp_all)
    then show ?thesis using True by (subst frames.simps) (auto simp: Let_def header_size_def not_less)
  qed (simp add: frames.simps)
qed

lemma parse_file_loop:
  assumes "0 \<le> f" and "m \<noteq> []" and "length m < 9223372036854775808"
  shows "parse_itch_file cfg clk (file_with f m) =
    map_option (\<lambda>st. ([f], Inr st)) (run_msgs cfg clk (frames m 0) itch_start)"
proof -
  have u: "unat (of_nat (length m) :: u64) = length m" using assms(3) by (simp add: unat_of_nat)
  then have nz: "(of_nat (length m) :: u64) \<noteq> 0" using assms(2) by (metis length_0_conv unat_0)
  have "sint (of_nat (length m) :: u64) = int (length m)"
    using assms(3) by (simp add: signed_of_nat signed_take_bit_int_eq_self)
  then show ?thesis using assms(1) u nz
    by (simp add: parse_itch_file_def file_with_def parse_loop_frames map_option_case split: option.splits)
qed

section \<open>Properties\<close>

text \<open>
  C9: whatever the bytes of the file are, the loop ends after at most one step for every three
  bytes and never reads outside the mapping: it is the plain succession of the handlers over the
  messages of the file, so that the only thing that could go wrong is a call on a book.
\<close>

theorem replay_reads_inside_the_file:
  shows "parse_loop cfg clk m 0 st = run_msgs cfg clk (frames m 0) st \<and> 3 * length (frames m 0) \<le> length m"
  using parse_loop_frames [of cfg clk m 0 st] frames_bound [of m 0] by (simp add: header_size_def)

text \<open>
  C10: a file that packs any list of messages, known ones and others, is replayed as exactly these
  messages in their order; messages of other types are passed over.
\<close>

theorem replay_reads_what_was_written:
  assumes "list_all item_ok items"
  shows "parse_loop cfg clk (concat (map item_bytes items)) 0 st = run_msgs cfg clk (map item_msg items) st"
  using frames_items [OF assms, of _ "[]"] parse_loop_frames [of cfg clk _ 0 st] by simp

definition demo_prefix :: itch_prefix where
  "demo_prefix = \<lparr>stock_locate = bswap16 5, tracking_number = 0, itch_time = replicate 6 0\<rparr>"

definition demo_add :: "order_id \<Rightarrow> char \<Rightarrow> quantity \<Rightarrow> price \<Rightarrow> itch_msg" where
  "demo_add k c q p = M_add \<lparr>add_prefix = demo_prefix, add_order_id = bswap64 k, add_side = byte_of c,
     add_shares = bswap32 q, add_stock = replicate 8 32, add_price = bswap32 p\<rparr>"

definition demo_config :: itch_config where
  "demo_config = \<lparr>allowed_locates = [5], price_band = 8, max_orders = 4\<rparr>"

definition demo_items :: "feed_item list" where
  "demo_items = [Other (byte_of CHR ''R'') (replicate 38 0), Known (demo_add 1 CHR ''B'' 5 100),
     Known (demo_add 2 CHR ''S'' 7 102),
     Known (M_executed \<lparr>exec_prefix = demo_prefix, exec_order_id = bswap64 2, exec_shares = bswap32 3, match_number = 0\<rparr>),
     Known (M_replace \<lparr>replace_prefix = demo_prefix, original_order_id = bswap64 2, new_order_id = bswap64 3,
       replace_shares = bswap32 6, replace_price = bswap32 103\<rparr>),
     Known (M_delete \<lparr>delete_prefix = demo_prefix, delete_order_id = bswap64 1\<rparr>)]"

lemma demo_items_ok: "list_all item_ok demo_items"
  by (simp add: demo_items_def demo_add_def demo_prefix_def known_types_def byte_of_def add_order_ok_def
      executed_ok_def replace_ok_def delete_ok_def prefix_ok_def)

theorem replay_reads_what_was_written_witness:
  "parse_loop demo_config (\<lambda>_. demo_clk) (concat (map item_bytes demo_items)) 0 itch_start =
    run_msgs demo_config (\<lambda>_. demo_clk) (map item_msg demo_items) itch_start"
  by (rule replay_reads_what_was_written [OF demo_items_ok])

text \<open>The replay of a file whose new ids are distinct and collision-free.\<close>

lemma replay_file:
  assumes "config_ok cfg K" and "0 \<le> f" and "m \<noteq> []" and "length m < 9223372036854775808"
    and "distinct (concat (map (new_ids cfg) (frames m 0)))"
    and "set (concat (map (new_ids cfg) (frames m 0))) \<subseteq> K"
  obtains st where "run_msgs cfg clk (frames m 0) itch_start = Some st"
    "parse_itch_file cfg clk (file_with f m) = Some ([f], Inr st)"
    "replay_ok cfg K (set (concat (map (new_ids cfg) (frames m 0)))) st"
proof -
  obtain st where "run_msgs cfg clk (frames m 0) itch_start = Some st"
    "replay_ok cfg K ({} \<union> set (concat (map (new_ids cfg) (frames m 0)))) st"
    using run_msgs_ok [OF assms(1) replay_start assms(5)] assms(6) by blast
  then show ?thesis using that parse_file_loop [OF assms(2-4)] by simp
qed

text \<open>
  C7: when the ids that the messages of a file bring onto books are pairwise distinct and
  collision-free, the replay of any file returns with its descriptor closed; it has built books
  only for tracked locates, every book is sound, every order resting on a book is routed to this
  book, and the trades handed to the logger are those of all the books together.
\<close>

theorem replay_routes_every_order:
  assumes "config_ok cfg K" and "0 \<le> f" and "m \<noteq> []" and "length m < 9223372036854775808"
    and "distinct (concat (map (new_ids cfg) (frames m 0)))"
    and "set (concat (map (new_ids cfg) (frames m 0))) \<subseteq> K"
  shows "\<exists>st. parse_itch_file cfg clk (file_with f m) = Some ([f], Inr st) \<and>
    message_count st = of_nat (length (frames m 0)) \<and>
    mset (traded st) = (\<Sum>l \<in> UNIV. mset (book_fills st l)) \<and>
    (\<forall>l b. market_books st l = Some b \<longrightarrow> is_tracked cfg l \<and> unat l < kMaxStockLocate \<and>
      healthy (price_band cfg) (max_orders cfg) K b \<and> (\<forall>k. resting b k \<longrightarrow> ref_owner st k = Some l))"
proof -
  obtain st where st: "run_msgs cfg clk (frames m 0) itch_start = Some st"
    "parse_itch_file cfg clk (file_with f m) = Some ([f], Inr st)"
    "replay_ok cfg K (set (concat (map (new_ids cfg) (frames m 0)))) st"
    by (rule replay_file [OF assms])
  note R = replay_okD [OF st(3)]
  note st(2)
  moreover have "message_count st = of_nat (length (frames m 0))"
    using run_msgs_count [OF st(1)] by (simp add: itch_start_def)
  moreover have "is_tracked cfg l \<and> unat l < kMaxStockLocate \<and>
      healthy (price_band cfg) (max_orders cfg) K b \<and> (\<forall>k. resting b k \<longrightarrow> ref_owner st k = Some l)"
    if "market_books st l = Some b" for l b
    using R(2) [OF that] routedD(1,2) [OF R(1) that] by (simp add: has_book_def open_ids_def)
  ultimately show ?thesis using R(4) unfolding balanced_def by blast
qed

lemma demo_config_ok: "config_ok demo_config (set demo_ids)"
  using demo_free by (simp add: config_ok_def demo_config_def)

theorem replay_routes_every_order_witness:
  "\<exists>st b. parse_itch_file demo_config (\<lambda>_. demo_clk) (file_with 3 (concat (map item_bytes demo_items))) =
      Some ([3], Inr st) \<and> message_count st = 6 \<and> market_books st 5 = Some b \<and>
    healthy 8 4 (set demo_ids) b \<and> ref_owner st 3 = Some 5 \<and> ref_owner st 1 = None \<and>
    mset (traded st) = (\<Sum>l \<in> UNIV. mset (book_fills st l)) \<and>
    map (\<lambda>t. (maker_id t, tprice t, tqty t)) (traded st) = [(2, 102, 3)]"
proof -
  let ?m = "concat (map item_bytes demo_items)"
  have fr: "frames ?m 0 = map item_msg demo_items" using frames_items [OF demo_items_ok, of ?m "[]"] by simp
  have ids: "concat (map (new_ids demo_config) (map item_msg demo_items)) = [1, 2, 3]" by code_simp
  have len: "length ?m = 208" and n3: "length (map item_msg demo_items) = 6" by code_simp+
  then have n: "length ?m < 9223372036854775808" "?m \<noteq> []" by (simp, metis list.size(3) zero_neq_numeral)
  have dist: "distinct (concat (map (new_ids demo_config) (frames ?m 0)))"
    "set (concat (map (new_ids demo_config) (frames ?m 0))) \<subseteq> set demo_ids"
    unfolding fr ids by (simp_all add: demo_ids_def)
  obtain st where st: "parse_itch_file demo_config (\<lambda>_. demo_clk) (file_with 3 ?m) = Some ([3], Inr st)"
    "message_count st = of_nat (length (frames ?m 0))"
    "mset (traded st) = (\<Sum>l \<in> UNIV. mset (book_fills st l))"
    and bk: "\<forall>l b. market_books st l = Some b \<longrightarrow> is_tracked demo_config l \<and> unat l < kMaxStockLocate \<and>
      healthy (price_band demo_config) (max_orders demo_config) (set demo_ids) b \<and>
      (\<forall>k. resting b k \<longrightarrow> ref_owner st k = Some l)"
    using replay_routes_every_order [OF demo_config_ok _ n(2,1) dist, of 3 "\<lambda>_. demo_clk"] by auto
  have "run_msgs demo_config (\<lambda>_. demo_clk) (map item_msg demo_items) itch_start = Some st"
    using st(1) parse_file_loop [OF _ n(2,1), of 3] by (auto simp: fr)
  moreover have "(case run_msgs demo_config (\<lambda>_. demo_clk) (map item_msg demo_items) itch_start of
      Some st \<Rightarrow> market_books st 5 \<noteq> None \<and> ref_owner st 3 = Some 5 \<and> ref_owner st 1 = None \<and>
        map (\<lambda>t. (maker_id t, tprice t, tqty t)) (traded st) = [(2, 102, 3)]
    | None \<Rightarrow> False)"
    by code_simp
  ultimately have v: "market_books st 5 \<noteq> None" "ref_owner st 3 = Some 5" "ref_owner st 1 = None"
    "map (\<lambda>t. (maker_id t, tprice t, tqty t)) (traded st) = [(2, 102, 3)]"
    by simp_all
  then obtain b where b: "market_books st 5 = Some b" by blast
  then have "healthy 8 4 (set demo_ids) b" using bk by (simp add: demo_config_def)
  then show ?thesis using st b v n3 unfolding fr by auto
qed

text \<open>
  The body of a message is checked against the end of the file, not against the length of
  its own frame.  Whatever length \<open>n\<close> the header announces, as long as the frame ends inside the
  file, a known message is decoded from the bytes that follow its header and handled, and the
  loop goes on behind the \<open>n\<close> announced bytes: with \<open>n\<close> smaller than the message, its bytes lie
  in the frames that follow and are read again as headers; with \<open>n\<close> larger, bytes are skipped.
\<close>

lemma frame_length_is_not_checked:
  assumes "msg_ok msg" and "1 \<le> n" and "n < 65536"
    and "m = pre @ header_bytes \<lparr>packet_length = bswap16 (of_nat n), message_type = msg_type msg\<rparr> @
      msg_body msg @ post"
    and "length pre + 2 + n \<le> length m"
  shows "parse_loop cfg clk m (length pre) st = do {
      st \<leftarrow> handle cfg clk msg st;
      parse_loop cfg clk m (length pre + 2 + n) (st\<lparr>message_count := message_count st + 1\<rparr>)
    }"
proof -
  let ?h = "header_bytes \<lparr>packet_length = bswap16 (of_nat n), message_type = msg_type msg\<rparr>"
  have len: "length ?h = 3" by (simp add: header_struct.length_law header_size_def)
  have st: "stored m (length pre) (?h @ msg_body msg)"
    unfolding stored_iff assms(4) by simp
  then have "message_at m (length pre + 3) (msg_type msg) = Some msg"
    using message_known [OF assms(1)] by (simp add: stored_append len)
  then have "frames m (length pre) = msg # frames m (length pre + 2 + n)"
    using st assms(2,3,5) by (intro frames_header) (simp_all add: stored_append)
  then show ?thesis by (simp add: parse_loop_frames)
qed

text \<open>
  A delete message whose frame holds the type byte alone, in front of an add message whose first
  bytes spell the id 1, deletes the resting order 1.
\<close>

lemma short_frame_reads_the_next_message:
  "(let before = item_bytes (Known (demo_add 1 CHR ''B'' 5 100));
        next = item_bytes (Known (demo_add 16777216 CHR ''B'' 4 100));
        owner_of_1 = (\<lambda>m. map_option (\<lambda>st. ref_owner st 1)
          (parse_loop demo_config (\<lambda>_. demo_clk) m 0 itch_start)) in
     owner_of_1 (before @ next) = Some (Some 5) \<and>
     owner_of_1 (before @ frame (byte_of CHR ''D'') [] @ next) = Some None)"
  by code_simp

end
