(* ===== verification/Itch_Program.thy ===== *)
theory Itch_Program
  imports Programs Itch_Replay
begin

text \<open>
  The program \<open>itch_replay\<close> from its command line and the bytes of its feed to the trade report.
\<close>

lemma item_bytes_ne: "item_bytes it \<noteq> []"
  by (cases it) (simp_all add: frame_def header_bytes_def)

text \<open>
  C15: \<open>itch_replay\<close> called as documented, with at least one locate id, a band of 1 to 2 ^ 32 - 1
  levels and 1 to 2 ^ 30 orders, on a non-empty file of fewer than 2 ^ 63 bytes that packs a list of
  messages in which the ids brought onto books are pairwise distinct and come from a
  collision-free set.  \<open>main\<close> reads the
  arguments back, the file is opened and closed, and the books are fed exactly the messages that
  were written.  The logger around the replay, whose threads interleave in any way, can always be
  brought to its end, and then the report holds one line for each accepted trade, in order; the
  others are counted as dropped, and there are none when the trades are at most as many as the
  ring holds.
\<close>

theorem itch_replay_end_to_end:
  assumes "ls \<noteq> []" and "0 < n" and "n \<le> 4294967295" and "0 < k" and "k \<le> 1073741824" and "collision_free k K"
    and "cfg = \<lparr>allowed_locates = ls, price_band = n, max_orders = k\<rparr>"
    and "items \<noteq> []" and "list_all item_ok items" and "length (concat (map item_bytes items)) < 9223372036854775808"
    and "distinct (concat (map (new_ids cfg) (map item_msg items)))"
    and "set (concat (map (new_ids cfg) (map item_msg items))) \<subseteq> K"
    and "file feed = file_with f (concat (map item_bytes items))" and "0 \<le> f"
  shows "\<exists>st. itch_main clk file
      [prog, feed, log, comma_list (map unat ls), price_band_flag @ dec n, max_orders_flag @ dec k] =
        Some (Inr (log, [f], Inr st)) \<and>
    run_msgs cfg clk (map item_msg items) itch_start = Some st \<and>
    mset (traded st) = (\<Sum>l \<in> UNIV. mset (book_fills st l)) \<and>
    (\<exists>l. log_session kCapacity t0 (traded st) l) \<and>
    (\<forall>l. log_session kCapacity t0 (traded st) l \<longrightarrow>
      (\<exists>acc. out l = header @ concat (map trade_line acc) \<and> subseq acc (traded st) \<and>
        dropped l = of_nat (length (traded st) - length acc) \<and>
        (length (traded st) \<le> kCapacity \<longrightarrow> acc = traded st)))"
proof -
  let ?m = "concat (map item_bytes items)"
  have fr: "frames ?m 0 = map item_msg items" using frames_items [OF assms(9), of ?m "[]"] by simp
  have ne: "?m \<noteq> []" using assms(8) item_bytes_ne by (cases items) auto
  have cfg: "config_ok cfg K" using assms(2-7) by (simp add: config_ok_def)
  obtain st where st: "run_msgs cfg clk (map item_msg items) itch_start = Some st"
    "parse_itch_file cfg clk (file_with f ?m) = Some ([f], Inr st)" "replay_ok cfg K (set (concat (map (new_ids cfg) (map item_msg items)))) st"
    by (rule replay_file [OF cfg assms(14) ne assms(10), unfolded fr, OF assms(11,12)])
  have "read_args [prog, feed, log, comma_list (map unat ls), price_band_flag @ dec n, max_orders_flag @ dec k] =
      Inr (feed, log, cfg)"
    unfolding assms(7) by (rule arguments_are_read_back) (use assms(1,3,5) in simp_all)
  then have "itch_main clk file [prog, feed, log, comma_list (map unat ls), price_band_flag @ dec n, max_orders_flag @ dec k] =
      Some (Inr (log, [f], Inr st))"
    by (simp add: itch_main_def assms(13) st(2))
  moreover have "mset (traded st) = (\<Sum>l \<in> UNIV. mset (book_fills st l))"
    using replay_okD(4) [OF st(3)] by (simp add: balanced_def)
  ultimately show ?thesis using st(1)
    by (intro exI [of _ st] conjI log_session_exists [OF kCapacity_ok])
      (use log_session_report [OF kCapacity_ok] in blast)+
qed

theorem itch_replay_end_to_end_witness:
  "\<exists>st l. itch_main (\<lambda>_. demo_clk) (\<lambda>_. file_with 3 (concat (map item_bytes demo_items)))
      [''itch_replay'', ''feed.bin'', ''log.txt'', ''5'', ''--price-band=8'', ''--max-orders=4''] =
        Some (Inr (''log.txt'', [3], Inr st)) \<and>
    map (\<lambda>t. (maker_id t, tprice t, tqty t)) (traded st) = [(2, 102, 3)] \<and>
    log_session kCapacity demo_trade (traded st) l \<and>
    out l = header @ concat (map trade_line (traded st)) \<and> dropped l = 0"
proof -
  have args: "comma_list (map unat [5 :: u16]) = ''5''" "price_band_flag @ dec 8 = ''--price-band=8''"
    "max_orders_flag @ dec 4 = ''--max-orders=4''"
    by (simp_all add: dec.simps char_of_def bit_0 price_band_flag_def max_orders_flag_def)
  have ids: "concat (map (new_ids demo_config) (map item_msg demo_items)) = [1, 2, 3]" by code_simp
  have len: "length (concat (map item_bytes demo_items)) = 208" by code_simp
  have "[5 :: u16] \<noteq> []" "(0 :: nat) < 8" "(8 :: nat) \<le> 4294967295" "(0 :: nat) < 4" "(4 :: nat) \<le> 1073741824"
    by simp_all
  note w = itch_replay_end_to_end [OF this demo_free demo_config_def _ demo_items_ok, unfolded ids len args,
      of "\<lambda>_. file_with 3 (concat (map item_bytes demo_items))" "''feed.bin''" "3"
        "\<lambda>_. demo_clk" "''itch_replay''" "''log.txt''" demo_trade]
  have "demo_items \<noteq> []" "(208 :: nat) < 9223372036854775808" "distinct [1, 2, 3 :: order_id]"
    "set [1, 2, 3] \<subseteq> set demo_ids" "0 \<le> (3 :: int)"
    by (simp_all add: demo_items_def demo_ids_def)
  note w = w [OF this(1-4) refl this(5)]
  obtain st l where st: "itch_main (\<lambda>_. demo_clk) (\<lambda>_. file_with 3 (concat (map item_bytes demo_items)))
      [''itch_replay'', ''feed.bin'', ''log.txt'', ''5'', ''--price-band=8'', ''--max-orders=4''] =
        Some (Inr (''log.txt'', [3], Inr st))"
    "run_msgs demo_config (\<lambda>_. demo_clk) (map item_msg demo_items) itch_start = Some st"
    "log_session kCapacity demo_trade (traded st) l"
    and rep: "\<forall>l. log_session kCapacity demo_trade (traded st) l \<longrightarrow>
      (\<exists>acc. out l = header @ concat (map trade_line acc) \<and> subseq acc (traded st) \<and>
        dropped l = of_nat (length (traded st) - length acc) \<and>
        (length (traded st) \<le> kCapacity \<longrightarrow> acc = traded st))"
    using w by (elim exE conjE) (rule that, assumption+)
  have "map_option (\<lambda>st. map (\<lambda>t. (maker_id t, tprice t, tqty t)) (traded st))
      (run_msgs demo_config (\<lambda>_. demo_clk) (map item_msg demo_items) itch_start) = Some [(2, 102, 3)]"
    by code_simp
  then have t: "map (\<lambda>t. (maker_id t, tprice t, tqty t)) (traded st) = [(2, 102, 3)]" using st(2) by simp
  then have le: "length (traded st) \<le> kCapacity" by (cases "traded st") (auto simp: kCapacity_def)
  obtain acc where acc: "out l = header @ concat (map trade_line acc)"
    "dropped l = of_nat (length (traded st) - length acc)" "length (traded st) \<le> kCapacity \<longrightarrow> acc = traded st"
    using rep [THEN spec, THEN mp, OF st(3)] by (elim exE conjE) (rule that)
  have "acc = traded st" by (rule acc(3) [THEN mp, OF le])
  then have "out l = header @ concat (map trade_line (traded st))" "dropped l = 0" using acc(1,2) by simp_all
  then show ?thesis by (intro exI [of _ st] exI [of _ l] conjI st(1,3) t)
qed

end
