(* ===== verification/Spec2Isabelle.thy ===== *)
theory Spec2Isabelle
  imports Baseline_Agreement Itch_Program
begin

text \<open>
  Nanomatch is a price-time-priority limit order book with two feeds and an asynchronous trade
  log.  This library models its C++ sources and proves what makes them correct; paths below are
  relative to the repository.

  The program.  An \<open>OrderBook\<close> keeps its orders in a pool of slots (\<open>OrderPool\<close>), finds them by id
  through an open-addressed table (\<open>IdMap\<close>), queues them per price level in arrays indexed by the
  price relative to a sliding base, and marks the levels in use in bitmaps that the search for
  the next best price scans.  Trades go through a single-producer single-consumer ring
  (\<open>SPSCQueue\<close>) to a worker thread (\<open>AsyncLogger\<close>) that writes them to a report.  \<open>Engine\<close> replays
  a mapped file of 18-byte records (\<open>MmapParser\<close>) on one book; \<open>parse_itch_file\<close> replays a NASDAQ
  ITCH file on one book per tracked stock and routes later messages by a table from order ids to
  books.

  Conventions.  A struct is a record, an enum a datatype, a fixed-width integer a word of that
  width.  An operation is a function into the option type: \<open>None\<close> means an access outside an
  array or a loop that does not return, so a theorem that gives \<open>Some\<close> is a statement of memory
  safety and of termination.  Loops whose end is not obvious (the probe loop of the id table, the
  bitmap scans, the matching loops, the move of a queue, the drain of the ring) are
  \<open>partial_function (option)\<close>; no fuel is used anywhere.  The other loops are functions with a
  termination proof.  Members that the source has once for bids and once for asks are one field
  indexed by the side.  \<open>rdtsc\<close> is the parameter \<open>clk\<close>, the operating system's answers for a path
  are the parameter \<open>os_answers\<close>, with the documented length of a mapping as \<open>mmap_ok\<close>.

  Theories and sources.
  \<^item> \<open>Nano_Prelude\<close>, \<open>Index_Lists\<close>: checked vectors, words as indices, ring arithmetic; intrusive
    lists threaded through an array.
  \<^item> \<open>Nano_Types\<close>: \<open>src/core/Types.hpp\<close>.
  \<^item> \<open>Order_Pool\<close>, \<open>Id_Map\<close>: the two classes of \<open>src/core/OrderBook.hpp\<close>.  The pool hands out every
    slot once; the table is a finite map as long as the ids in use have different home slots.
  \<^item> \<open>Level_Bitmap\<close>, \<open>Book_State\<close>: the bitmaps with their scans, and the members, constructor and
    private helpers of \<open>OrderBook\<close> (\<open>OrderBook.hpp\<close>, \<open>OrderBook.cpp\<close>).
  \<^item> \<open>Book_Links\<close>, \<open>Book_Invariant\<close>, \<open>Book_Moves\<close>: \<open>links\<close> says which slots are queued where,
    \<open>book_ok\<close> adds volumes, counts and bitmaps, \<open>depth\<close> abstracts a book to lists of ids with
    quantities; the moves the operations are made of, with their effect on both.
  \<^item> \<open>Matching_Spec\<close>, \<open>Matching\<close>: price-time priority as the function \<open>sweep\<close> on depths, and
    \<open>match_against_asks\<close> and \<open>match_against_bids\<close> as its refinements.
  \<^item> \<open>Rebase\<close>, \<open>Book_Ops\<close>, \<open>Book_Insert\<close>: \<open>rebase_base\<close> and the public operations, each with its
    effect on the depth, the trades, the cached best prices and the id table.
  \<^item> \<open>Book_Session\<close>, \<open>Book_Theorems\<close>, \<open>Operation_Theorems\<close>: sequences of calls on a new book as a step
    relation with its invariants \<open>healthy\<close> and \<open>orderly\<close>; the properties of matching and of each
    operation, and what goes wrong with colliding ids and when the window moves.
  \<^item> \<open>Spsc_Queue\<close>, \<open>Async_Logger\<close>: \<open>src/logging\<close>.  Ring and
    logger are cut at their accesses to shared memory into the steps of two threads; a schedule is
    any interleaving of these steps, inside a drain of the worker as well.
  \<^item> \<open>Itch_Protocols\<close>, \<open>Os_Files\<close>: the packed structs of \<open>src/ingestion/ItchProtocols.hpp\<close> as views
    on bytes, with the contract \<open>packed_struct\<close>; files.
  \<^item> \<open>Mmap_Engine\<close>: \<open>src/ingestion/MmapParser.hpp\<close>, \<open>MmapParser.cpp\<close> and \<open>src/core/Engine.hpp\<close>.
  \<^item> \<open>Itch_Parser\<close>, \<open>Book_Routing\<close>, \<open>Itch_Replay\<close>: \<open>src/ingestion/ItchParser.cpp\<close>; the contract
    \<open>book_service\<close> between the replay and its books; what the replay guarantees.
  \<^item> \<open>Programs\<close>: the two \<open>main\<close> functions with the command line of \<open>src/core/itch_main.cpp\<close>.
  \<^item> \<open>Itch_Program\<close>: \<open>itch_replay\<close> from its arguments and the bytes of its feed to the report.
  \<^item> \<open>Stl_Baseline\<close>, \<open>Baseline_Agreement\<close>: \<open>benchmarks/Stlbaselinebook.hpp\<close>, the textbook book of
    ordered maps and lists that the optimised one is measured against; its matching loop is the
    same \<open>sweep\<close>, so that the two books agree call by call (\<open>book_agrees_with_the_baseline\<close>).
  \<^item> This theory: the id table and whole sessions of calls.

  Interfaces.  \<open>slot_allocator\<close> (\<open>Order_Pool\<close>), \<open>id_index\<close> (\<open>Id_Map\<close>), \<open>bounded_fifo\<close> (\<open>Spsc_Queue\<close>), \<open>packed_struct\<close> and
  \<open>book_service\<close> are locales, interpreted on the model of the code where it is defined.

  Bounds.  Bands have between 1 and 2 ^ 32 - 1 levels and pools between 1 and 2 ^ 30 slots: above,
  a 32-bit index would meet the null index, and the capacity of the id table would wrap
  (\<open>capacity_wraps_to_zero\<close>).  \<open>collision_free\<close> asks that the ids of a session have pairwise
  different home slots in the id table: \<open>IdMap::erase\<close> can lose an entry otherwise
  (\<open>erase_loses_entry\<close>, \<open>collision_loses_a_cancel\<close>), so that without it the statements are false.

  What the model shows to go wrong.  Besides the id table: a move of the window leaves best prices
  behind (\<open>rebase_misses_the_best\<close>) and can cross the book (\<open>rebase_can_cross_the_book\<close>), an insertion at the best price
  leaves the cached quantity stale (\<open>insert_leaves_stale_quantity\<close>), cancelling does not lower the
  counter that gates moves of the window (\<open>cancel_leaks_live_count\<close>), an ITCH message shorter than
  its struct is decoded from the bytes behind its frame (\<open>frame_length_is_not_checked\<close>, \<open>short_frame_reads_the_next_message\<close>), and
  locate ids on the command line are cut to 16 bits (\<open>locates_wrap\<close>).

  Not modelled.  Cache hints, prefetching, page locking and alignment have no effect on values;
  \<open>OrderPool\<close> with capacity 0 writes outside its mapping and is \<open>None\<close>.  Progress messages, timing,
  the memory estimate, the latency samples and their percentiles (floating point) are left out,
  and so are the sleeping and yielding of threads.  The memory model is that of interleaved steps;
  the release and acquire orderings are taken to provide it.  The rest of the benchmarks, the
  tests and the script that generates records are not part of the engine; of \<open>Telemetry.hpp\<close>, a
  declaration of the latency samples, nothing remains without them.
\<close>

unbundle bit_operations_syntax

section \<open>The id table\<close>

text \<open>A sequence of calls on an \<open>IdMap\<close>.\<close>

fun run_index :: "id_map \<Rightarrow> (order_id, u32) index_op list \<Rightarrow> id_map option" where
  "run_index m [] = Some m"
| "run_index m (Store k v # ops) = do { m \<leftarrow> id_insert m k v; run_index m ops }"
| "run_index m (Remove k # ops) = do { m \<leftarrow> id_erase m k; run_index m ops }"




text \<open>
  The restriction to ids with different home slots is needed.  \<open>erase\<close> stops its backward shift at an entry that
  sits in its home slot, although linear probing has stored entries behind it whose probe
  path crosses the hole: after \<open>insert 2\<close>, \<open>insert 1\<close>, \<open>insert 10\<close>, \<open>erase 2\<close> the id 10, still
  in the table, is not found.
\<close>

lemma erase_loses_entry:
  "\<exists>m. run_index (id_map_new 8) [Store 2 0, Store 1 1, Store 10 2, Remove 2] = Some m \<and>
    content m 10 = Some 2 \<and> id_find m 10 = Some NULL_IDX"
proof -
  let ?ops = "[Store 2 0, Store 1 1, Store 10 2, Remove 2]"
  have "(case run_index (id_map_new 8) ?ops of None \<Rightarrow> False
    | Some m \<Rightarrow> content m 10 = Some 2 \<and> id_find m 10 = Some NULL_IDX)"
    by code_simp
  then show ?thesis by (auto split: option.splits)
qed


text \<open>
  C31: up to 2 ^ 31 the capacity is rounded to the next power of two, by both copies of the
  function.
\<close>

theorem capacity_is_next_power_of_two:
  assumes "1 < unat v" and "unat v \<le> 2147483648"
  shows "\<exists>e. unat (idmap_round_up_pow2 v) = 2 ^ e \<and> 2 ^ (e - 1) < unat v \<and> unat v \<le> 2 ^ e \<and>
    book_round_up_pow2 v = idmap_round_up_pow2 v"
proof -
  obtain e where e: "1 \<le> e" "e \<le> 32" "smear v = of_nat (2 ^ e)" "2 ^ (e - 1) < unat v" "unat v \<le> 2 ^ e"
    using smear_pow2 [OF assms(1)] .
  have "e < 32"
  proof (rule ccontr)
    assume "\<not> e < 32"
    then have "e - 1 = 31" using e by simp
    then show False using e(4) assms(2) by simp
  qed
  then have "(2 :: nat) ^ e \<le> 2 ^ 31" by (intro power_increasing) simp_all
  then have "unat (of_nat (2 ^ e) :: u32) = 2 ^ e" by (intro unat_of_nat_u32) simp
  moreover have "v \<noteq> 0" "\<not> v \<le> 1" using assms(1) by (auto simp: word_le_nat_alt)
  ultimately show ?thesis
    using e by (intro exI [of _ e]) (simp add: idmap_round_up_pow2_def book_round_up_pow2_def)
qed

theorem capacity_is_next_power_of_two_witness:
  "\<exists>e. unat (idmap_round_up_pow2 131072) = 2 ^ e \<and> 2 ^ (e - 1) < unat (131072 :: u32) \<and>
    unat (131072 :: u32) \<le> 2 ^ e \<and> book_round_up_pow2 131072 = idmap_round_up_pow2 131072"
  by (rule capacity_is_next_power_of_two) simp_all

text \<open>
  Above 2 ^ 31 the rounding wraps to zero: the table has no slot at all, and the first
  lookup reads outside it.
\<close>

lemma capacity_wraps_to_zero:
  "idmap_round_up_pow2 2147483649 = 0 \<and> tsize (id_map_new 2147483649) = 0 \<and>
    id_find (id_map_new 2147483649) 1 = None"
proof -
  have r: "idmap_round_up_pow2 2147483649 = 0" by code_simp
  then have m: "id_map_new 2147483649 = \<lparr>mcap = 0, mmask = 0 - 1, entries = []\<rparr>"
    by (simp add: id_map_new_def Let_def)
  show ?thesis
    by (simp add: r m tsize_def id_find_def find_loop.simps entry_at_def vget_def)
qed

section \<open>Sessions\<close>

text \<open>
  The sessions of C3, C4, C5, C6 and C26 start from a book fresh from its constructor, with a band
  of 1 to 2 ^ 32 - 1 levels and a pool of 1 to 2 ^ 30 slots.  Their calls are arbitrary but for
  insertions, whose id must not rest on the book at that moment and must come from a set \<open>K\<close> of
  ids with pairwise different home slots in the id table, fewer than the table has slots
  (\<open>collision_free\<close>).  Without the latter the statements are false: see
  \<open>collision_loses_a_cancel\<close> in \<open>Operation_Theorems\<close>.
\<close>

text \<open>
  C3: in every session on a book fresh from its constructor, in which ids are inserted only
  while they do not rest and come from a collision-free set, every call returns: no access is
  outside an array, and no loop runs forever.
\<close>

theorem session_is_never_stuck:
  assumes "0 < n" and "n \<le> 4294967295" and "0 < m" and "m \<le> 1073741824" and "collision_free m K"
    and "session clk n m K (\<lambda>_ _. True) b" and "op_ok K b op"
  shows "\<exists>b'. book_do clk b op = Some b' \<and> session clk n m K (\<lambda>_ _. True) b'"
proof -
  obtain b' where "book_do clk b op = Some b'"
    using healthy_do [OF session_healthy [OF assms(1-6)] assms(7), of clk] by metis
  then show ?thesis using session.call [OF assms(6,7)] by blast
qed

lemma demo_session: "session demo_clk 8 4 (set demo_ids) (\<lambda>_ _. True) demo_book"
  using demo_book_ok(3) by (rule session_mono) simp

theorem session_is_never_stuck_witness:
  "\<exists>b'. book_do demo_clk demo_book (Insert 4 BUY 103 20) = Some b' \<and>
    session demo_clk 8 4 (set demo_ids) (\<lambda>_ _. True) b'"
proof (rule session_is_never_stuck [OF _ _ _ _ demo_free demo_session])
  show "op_ok (set demo_ids) demo_book (Insert 4 BUY 103 20)" by (simp add: demo_ids_def demo_facts)
qed simp_all

text \<open>
  C4: in every session on a book fresh from its constructor, with sizes in the bounds above, in
  which ids are inserted only while they do not rest and come from a collision-free set, the
  level array, the bitmap and the pool agree: a level is marked exactly when it has orders, its
  volume and its order count are those of its queue, no resting order is empty, and the cached
  best price of a side is null or a level with orders.
\<close>

theorem session_levels_agree:
  assumes "0 < n" and "n \<le> 4294967295" and "0 < m" and "m \<le> 1073741824" and "collision_free m K"
    and "session clk n m K (\<lambda>_ _. True) b" and "i < n"
  shows "total_volume (levels b s ! i) = volume (depth b s i) \<and>
    order_count (levels b s ! i) = of_nat (length (depth b s i)) \<and>
    (level_empty (levels b s ! i) \<longleftrightarrow> depth b s i = []) \<and> (marked (bitmap b s) i \<longleftrightarrow> depth b s i \<noteq> []) \<and>
    (\<forall>kv \<in> set (depth b s i). snd kv \<noteq> 0) \<and>
    (best b s = NULL_IDX \<or> depth b s (unat (best b s)) \<noteq> [])"
proof -
  note h = healthyD [OF session_healthy [OF assms(1-6)]]
  have i: "i < band b" using assms(7) h(6) by simp
  have "length (depth b s i) = length (queue_of b s i)" by (simp add: depth_def view_alt)
  then have "order_count (levels b s ! i) = of_nat (length (depth b s i))"
    using linksD(4) [OF book_okD(2) [OF h(2)] i, of s] by (simp add: level_rep_def)
  then show ?thesis
    using book_okD(7,8) [OF h(2) i, of s] book_okD(9) [OF h(2), of s] book_okD(10) [OF h(2)] h(4) [of s]
    by (simp add: tob_live_def)
qed

theorem session_levels_agree_witness:
  "total_volume (levels demo_book SELL ! 6) = 7 \<and> order_count (levels demo_book SELL ! 6) = 1 \<and>
    marked (bitmap demo_book SELL) 6"
  using session_levels_agree [OF _ _ _ _ demo_free demo_session, of 6 SELL] by (simp add: demo_values)

text \<open>
  C6: in every session on a book fresh from its constructor, with sizes in the bounds above, in
  which ids are inserted only while they do not rest and come from a collision-free set, the id
  table is exact: a lookup, of any id, gives the null index for an id that does not rest, and
  otherwise the slot of the order with that id, which is on the queue that its own side and
  price name.
\<close>

theorem session_index_agrees:
  assumes "0 < n" and "n \<le> 4294967295" and "0 < m" and "m \<le> 1073741824" and "collision_free m K"
    and "session clk n m K (\<lambda>_ _. True) b"
  shows "\<exists>x. id_find (ids b) k = Some x \<and> (x = NULL_IDX \<longleftrightarrow> \<not> resting b k) \<and>
    (x \<noteq> NULL_IDX \<longrightarrow> oid (ord b x) = k \<and>
       x \<in> set (queue_of b (oside (ord b x)) (unat (oprice (ord b x)))))"
proof -
  note h = healthyD [OF session_healthy [OF assms]]
  show ?thesis
  proof (cases "content (ids b) k")
    case None
    then show ?thesis using find_absent [OF h(3)] resting_content [OF h(3)] by blast
  next
    case (Some x)
    obtain as bs where "id_find (ids b) k = Some x" "x \<noteq> NULL_IDX" "oid (ord b x) = k"
      "queue_of b (oside (ord b x)) (unat (oprice (ord b x))) = as @ x # bs"
      using find_present [OF h(2,3) Some] by metis
    then show ?thesis using resting_content [OF h(3), of k] Some by simp
  qed
qed

theorem session_index_agrees_witness:
  "\<exists>x. id_find (ids demo_book) 2 = Some x \<and> x \<noteq> NULL_IDX \<and> oid (ord demo_book x) = 2 \<and>
    x \<in> set (queue_of demo_book (oside (ord demo_book x)) (unat (oprice (ord demo_book x))))"
proof -
  have "2 \<in> fst ` set (depth demo_book SELL 6)" by (simp add: demo_values)
  then have "resting demo_book 2" unfolding resting_def by blast
  then show ?thesis using session_index_agrees [OF _ _ _ _ demo_free demo_session, of 2] by auto
qed

text \<open>
  C26: in every session on a book fresh from its constructor, with sizes in the bounds above, in
  which ids are inserted only while they do not rest and come from a collision-free set, no pool
  slot is lost or used twice: the free slots and the resting orders together are the capacity.
\<close>

theorem session_conserves_slots:
  assumes "0 < n" and "n \<le> 4294967295" and "0 < m" and "m \<le> 1073741824" and "collision_free m K"
    and "session clk n m K (\<lambda>_ _. True) b"
  shows "length (free_list (pool b)) + open_orders b = m"
  using slots_partition healthyD(2,7) [OF session_healthy [OF assms]] by metis

theorem session_conserves_slots_witness:
  "length (free_list (pool demo_book)) + open_orders demo_book = 4"
  by (rule session_conserves_slots [OF _ _ _ _ demo_free demo_session]) simp_all

text \<open>
  C5: in every session on a book fresh from its constructor, with sizes in the bounds above, in
  which ids are inserted only while they do not rest and come from a collision-free set, and in
  which no insertion moves the price window (each price is inside it, or the live-order counter
  exceeds 64), the cached best prices are exact, and every bid is below every ask.
\<close>

theorem session_is_uncrossed:
  assumes "0 < n" and "n \<le> 4294967295" and "0 < m" and "m \<le> 1073741824" and "collision_free m K"
    and "session clk n m K steady_window b"
  shows "tob_exact b BUY \<and> tob_exact b SELL \<and>
    (\<forall>i j. depth b BUY i \<noteq> [] \<and> depth b SELL j \<noteq> [] \<longrightarrow> i < j)"
  using session_orderly [OF assms(1-5) _ assms(6)] by (simp add: steady_window_def orderly_def uncrossed_def)

theorem session_is_uncrossed_witness:
  "tob_exact demo_book BUY \<and> tob_exact demo_book SELL \<and> uncrossed demo_book"
  unfolding uncrossed_def by (rule session_is_uncrossed [OF _ _ _ _ demo_free demo_book_ok(3)]) simp_all

end
